(* ===== verification/Prelude.thy ===== *)
theory Prelude
  imports Complex_Main "HOL-Library.Char_ord" "HOL-Library.List_Lexorder" "HOL-Library.Word"
begin

text \<open>
  Shared vocabulary of the development: results of fallible code as sums, byte strings,
  the sorted association list that stands for \<^verbatim>\<open>std::map\<close>, and the interface
  (locale \<open>ordered_map\<close>) through which the JSON objects and the session table use it.
  A \<^verbatim>\<open>std::string\<close> is a \<^typ>\<open>string\<close>, one \<^typ>\<open>char\<close> per byte; the order on
  \<^typ>\<open>char\<close> and the lexicographic order on lists are those of
  \<^verbatim>\<open>std::string::operator<\<close>, which compares bytes as unsigned.
\<close>

named_theorems result_simps
named_theorems map_laws

section \<open>Results\<close>

text \<open>Sequencing of fallible steps: an \<open>Inl\<close> is a thrown exception and stops the rest.\<close>

definition andThen :: "'e + 'a \<Rightarrow> ('a \<Rightarrow> 'e + 'b) \<Rightarrow> 'e + 'b" where
  "andThen r f = (case r of Inl e \<Rightarrow> Inl e | Inr a \<Rightarrow> f a)"

lemma andThen_simps [simp, result_simps]:
  "andThen (Inl e) f = Inl e"
  "andThen (Inr a) f = f a"
  by (simp_all add: andThen_def)

lemma andThen_assoc: "andThen (andThen r f) g = andThen r (\<lambda>x. andThen (f x) g)"
  by (cases r) auto

lemma andThen_eq_Inr [result_simps]:
  "andThen r f = Inr b \<longleftrightarrow> (\<exists>a. r = Inr a \<and> f a = Inr b)"
  by (cases r) simp_all

lemma andThen_eq_Inl [result_simps]:
  "andThen r f = Inl e \<longleftrightarrow> r = Inl e \<or> (\<exists>a. r = Inr a \<and> f a = Inl e)"
  by (cases r) simp_all

text \<open>A range-for loop over fallible steps: stops at the first exception.\<close>

fun mapR :: "('a \<Rightarrow> 'e + 'b) \<Rightarrow> 'a list \<Rightarrow> 'e + 'b list" where
  "mapR f [] = Inr []"
| "mapR f (x # xs) = andThen (f x) (\<lambda>y. andThen (mapR f xs) (\<lambda>ys. Inr (y # ys)))"

lemma mapR_cong [fundef_cong]:
  "xs = ys \<Longrightarrow> (\<And>x. x \<in> set ys \<Longrightarrow> f x = g x) \<Longrightarrow> mapR f xs = mapR g ys"
  by (induction xs arbitrary: ys) auto

lemma mapR_length: "mapR f xs = Inr ys \<Longrightarrow> length ys = length xs"
  by (induction xs arbitrary: ys) (auto simp: result_simps)

lemma mapR_total: "(\<And>x. x \<in> set xs \<Longrightarrow> f x = Inr (g x)) \<Longrightarrow> mapR f xs = Inr (map g xs)"
  by (induction xs) auto

lemma mapR_set: "mapR f xs = Inr ys \<Longrightarrow> y \<in> set ys \<Longrightarrow> \<exists>x \<in> set xs. f x = Inr y"
  by (induction xs arbitrary: ys) (auto simp: andThen_eq_Inr)

lemma mapR_nth: "mapR f xs = Inr ys \<Longrightarrow> i < length xs \<Longrightarrow> f (xs ! i) = Inr (ys ! i)"
proof (induction xs arbitrary: ys i)
  case (Cons x xs)
  then show ?case by (cases i) (auto simp: result_simps)
qed simp

fun foldR :: "('a \<Rightarrow> 's \<Rightarrow> 'e + 's) \<Rightarrow> 'a list \<Rightarrow> 's \<Rightarrow> 'e + 's" where
  "foldR f [] s = Inr s"
| "foldR f (x # xs) s = andThen (f x s) (foldR f xs)"

lemma foldR_append: "foldR f (xs @ ys) s = andThen (foldR f xs s) (foldR f ys)"
proof (induction xs arbitrary: s)
  case (Cons x xs)
  then show ?case by (cases "f x s") simp_all
qed simp

section \<open>Maxima of lists\<close>

definition max_list :: "nat list \<Rightarrow> nat" where
  "max_list xs = foldr max xs 0"

lemma max_list_simps [simp]:
  "max_list [] = 0"
  "max_list (x # xs) = max x (max_list xs)"
  by (simp_all add: max_list_def)

lemma max_list_le: "max_list xs \<le> n \<longleftrightarrow> (\<forall>x \<in> set xs. x \<le> n)"
  by (induction xs) auto

section \<open>Ordered maps\<close>

text \<open>
  \<^verbatim>\<open>std::map\<close> keeps its entries sorted by key with no duplicates, and iterates in that
  order. The model is the list of entries; \<^const>\<open>map_of\<close> is \<^verbatim>\<open>find\<close>.
\<close>

fun om_put :: "'k::linorder \<Rightarrow> 'v \<Rightarrow> ('k \<times> 'v) list \<Rightarrow> ('k \<times> 'v) list" where
  "om_put k v [] = [(k, v)]"
| "om_put k v ((k', v') # m) =
     (if k < k' then (k, v) # (k', v') # m
      else if k = k' then (k, v) # m
      else (k', v') # om_put k v m)"

definition om_del :: "'k \<Rightarrow> ('k \<times> 'v) list \<Rightarrow> ('k \<times> 'v) list" where
  "om_del k m = filter (\<lambda>(k', _). k' \<noteq> k) m"

definition om_inv :: "('k::linorder \<times> 'v) list \<Rightarrow> bool" where
  "om_inv m \<longleftrightarrow> sorted_wrt (<) (map fst m)"

lemma map_of_om_put [simp]: "map_of (om_put k v m) = (map_of m)(k \<mapsto> v)"
  by (induction k v m rule: om_put.induct) (auto simp: fun_eq_iff)

lemma map_of_om_del [simp]: "map_of (om_del k m) = (map_of m)(k := None)"
  by (induction m) (auto simp: om_del_def fun_eq_iff)

lemma fst_om_put: "fst ` set (om_put k v m) = insert k (fst ` set m)"
  by (induction k v m rule: om_put.induct) auto

lemma om_inv_Nil [simp]: "om_inv []"
  by (simp add: om_inv_def)

lemma om_inv_Cons [simp]:
  "om_inv (x # m) \<longleftrightarrow> (\<forall>y \<in> fst ` set m. fst x < y) \<and> om_inv m"
  by (auto simp: om_inv_def)

lemma om_inv_put [simp]: "om_inv m \<Longrightarrow> om_inv (om_put k v m)"
proof (induction k v m rule: om_put.induct)
  case (2 k v k' v' m)
  then show ?case by (auto simp: fst_om_put simp del: image_iff)
qed simp

lemma om_inv_filter: "om_inv m \<Longrightarrow> om_inv (filter P m)"
  by (induction m) auto

lemma om_inv_del [simp]: "om_inv m \<Longrightarrow> om_inv (om_del k m)"
  by (simp add: om_del_def om_inv_filter)

lemma om_inv_distinct: "om_inv m \<Longrightarrow> distinct (map fst m)"
  by (induction m) force+

lemma om_inv_ext:
  assumes "om_inv m" and "om_inv m'" and "map_of m = map_of m'"
  shows "m = m'"
proof -
  have "set m = set m'"
    using assms om_inv_distinct[of m] om_inv_distinct[of m']
    by (metis map_of_inject_set)
  moreover have "sorted (map fst m)" "sorted (map fst m')"
    using assms(1,2) by (auto simp: om_inv_def strict_sorted_imp_sorted)
  ultimately show ?thesis
    using assms(1,2) om_inv_distinct
    by (metis (no_types, lifting) map_sorted_distinct_set_unique distinct_map Un_absorb)
qed

text \<open>
  The contract under which the rest of the development uses an ordered map: what a lookup
  returns after an update or an erasure, what both keep of the representation, and that the
  representation is canonical.
\<close>

locale ordered_map =
  fixes get :: "'m \<Rightarrow> 'k \<Rightarrow> 'v option"
    and put :: "'k \<Rightarrow> 'v \<Rightarrow> 'm \<Rightarrow> 'm"
    and del :: "'k \<Rightarrow> 'm \<Rightarrow> 'm"
    and inv :: "'m \<Rightarrow> bool"
  assumes get_put: "get (put k v m) = (get m)(k \<mapsto> v)"
    and get_del: "get (del k m) = (get m)(k := None)"
    and inv_put: "inv m \<Longrightarrow> inv (put k v m)"
    and inv_del: "inv m \<Longrightarrow> inv (del k m)"
    and ext: "inv m \<Longrightarrow> inv m' \<Longrightarrow> get m = get m' \<Longrightarrow> m = m'"
begin

lemma put_put: "inv m \<Longrightarrow> put k v (put k w m) = put k v m"
  by (rule ext) (simp_all add: inv_put get_put)

lemma put_commute: "inv m \<Longrightarrow> k \<noteq> l \<Longrightarrow> put k v (put l w m) = put l w (put k v m)"
  by (rule ext) (auto simp: inv_put get_put fun_upd_twist)

lemma put_same: "inv m \<Longrightarrow> get m k = Some v \<Longrightarrow> put k v m = m"
  by (rule ext) (auto simp: inv_put get_put)

lemma del_put: "inv m \<Longrightarrow> del k (put k v m) = del k m"
  by (rule ext) (simp_all add: inv_put inv_del get_put get_del)

lemma del_absent: "inv m \<Longrightarrow> get m k = None \<Longrightarrow> del k m = m"
  by (rule ext) (auto simp: inv_del get_del)

lemma del_put_fresh: "inv m \<Longrightarrow> get m k = None \<Longrightarrow> del k (put k v m) = m"
  by (simp add: del_put del_absent)

lemma del_commute: "inv m \<Longrightarrow> del k (del l m) = del l (del k m)"
  by (rule ext) (auto simp: inv_del get_del)

lemma del_put_other: "inv m \<Longrightarrow> k \<noteq> l \<Longrightarrow> del k (put l v m) = put l v (del k m)"
  by (rule ext) (auto simp: inv_put inv_del get_put get_del)

end

interpretation om: ordered_map "map_of :: ('k::linorder \<times> 'v) list \<Rightarrow> 'k \<Rightarrow> 'v option"
  om_put om_del om_inv
  by unfold_locales (auto intro: om_inv_ext)

lemmas om_laws [map_laws] = om.put_put om.put_same om.del_put om.del_absent om.del_put_fresh

section \<open>Codecs\<close>

text \<open>What the users of an encoding rely on: decoding undoes it.\<close>

locale codec =
  fixes enc :: "'a \<Rightarrow> 'b" and dec :: "'b \<Rightarrow> 'e + 'a"
  assumes dec_enc: "dec (enc x) = Inr x"
begin

lemma enc_inj: "enc x = enc y \<longleftrightarrow> x = y"
  by (metis dec_enc sum.inject(2))

lemma dec_only: "b \<in> range enc \<Longrightarrow> dec b = Inr x \<longleftrightarrow> b = enc x"
  by (metis dec_enc rangeE sum.inject(2))

lemma dec_total: "b \<in> range enc \<Longrightarrow> \<exists>x. dec b = Inr x"
  using dec_enc by blast

end

end
