(* ===== verification/Exceptions.thy ===== *)
theory Exceptions
  imports Prelude
begin

text \<open>
  The exceptions of \<^verbatim>\<open>src/src/utils/exceptions.hpp\<close>, and the other ways in which
  the code leaves a function: exceptions of the JSON library, of ONNX Runtime, of the standard
  library, a failed \<^verbatim>\<open>assert\<close>, and undefined behaviour. The last two are not
  C++ exceptions: no handler catches them.
\<close>

datatype exception_kind = not_found_error | bad_request_error | conflict_error | runtime_error

datatype error =
    Orts_exception exception_kind string
  | Json_exception string nat string \<comment> \<open>class name, id, text\<close>
  | Ort_exception string
  | Std_exception string
  | Assert_failure string
  | Undefined_behaviour string

type_synonym 'a result = "error + 'a"

definition status_code :: "exception_kind \<Rightarrow> nat" where
  "status_code k = (case k of
      not_found_error \<Rightarrow> 404
    | bad_request_error \<Rightarrow> 400
    | conflict_error \<Rightarrow> 409
    | runtime_error \<Rightarrow> 500)"

definition exception_type :: "exception_kind \<Rightarrow> string" where
  "exception_type k = (case k of
      not_found_error \<Rightarrow> ''not_found_error''
    | bad_request_error \<Rightarrow> ''bad_request_error''
    | conflict_error \<Rightarrow> ''conflict_error''
    | runtime_error \<Rightarrow> ''runtime_error'')"

text \<open>Which errors a \<^verbatim>\<open>catch (std::exception &)\<close> clause handles.\<close>

fun is_std_exception :: "error \<Rightarrow> bool" where
  "is_std_exception (Assert_failure _) = False"
| "is_std_exception (Undefined_behaviour _) = False"
| "is_std_exception _ = True"

text \<open>Decimal text of a natural number and of an integer (\<^verbatim>\<open>std::to_string\<close>).\<close>

definition digit_char :: "nat \<Rightarrow> char" where
  "digit_char d = char_of (48 + d)"

fun nat_to_string :: "nat \<Rightarrow> string" where
  "nat_to_string n =
     (if n < 10 then [digit_char n] else nat_to_string (n div 10) @ [digit_char (n mod 10)])"

declare nat_to_string.simps [simp del]

definition int_to_string :: "int \<Rightarrow> string" where
  "int_to_string i = (if i < 0 then CHR ''-'' # nat_to_string (nat (- i)) else nat_to_string (nat i))"

definition json_exception_name :: "string \<Rightarrow> nat \<Rightarrow> string" where
  "json_exception_name ename eid = ''[json.exception.'' @ ename @ ''.'' @ nat_to_string eid @ ''] ''"

text \<open>\<^verbatim>\<open>what()\<close> of a caught exception.\<close>

fun what :: "error \<Rightarrow> string" where
  "what (Orts_exception _ w) = w"
| "what (Json_exception ename eid w) = json_exception_name ename eid @ w"
| "what (Ort_exception w) = w"
| "what (Std_exception w) = w"
| "what (Assert_failure w) = w"
| "what (Undefined_behaviour w) = w"

lemma nat_to_string_small [simp]: "n < 10 \<Longrightarrow> nat_to_string n = [digit_char n]"
  by (simp add: nat_to_string.simps)

lemma nat_to_string_not_Nil [simp]: "nat_to_string n \<noteq> []"
  by (subst nat_to_string.simps) simp

end
