(* ===== verification/Json.thy ===== *)
theory Json
  imports Exceptions "HOL-Library.Log_Nat"
begin

text \<open>
  The JSON values of \<^verbatim>\<open>src/src/utils/json.hpp\<close> (the vendored nlohmann/json) as far as
  the server uses them: the value type, its type tests, member access, and the conversions
  \<^verbatim>\<open>get<T>()\<close>. An object is a \<^verbatim>\<open>std::map\<close>, so the list of its members is an
  ordered map of \<^verbatim>\<open>Prelude\<close>. A \<^verbatim>\<open>double\<close> is a sign with an exact rational magnitude,
  an infinity, or a NaN; \<^verbatim>\<open>binary\<close> and \<^verbatim>\<open>discarded\<close> values never occur in the server.
\<close>

section \<open>Floating-point values\<close>

datatype dbl = Finite bool rat | Infinite bool | NaN

definition pow2 :: "int \<Rightarrow> rat" where
  "pow2 k = (if 0 \<le> k then 2 ^ nat k else 1 / 2 ^ nat (- k))"

definition floor_log2 :: "rat \<Rightarrow> int" where
  "floor_log2 q =
     (let (a, b) = quotient_of q; k = bitlen a - bitlen b
      in if pow2 k \<le> q then k else k - 1)"

definition round_half_even :: "rat \<Rightarrow> int" where
  "round_half_even m =
     (let f = \<lfloor>m\<rfloor>; d = m - of_int f
      in if d < 1 / 2 then f
         else if 1 / 2 < d then f + 1
         else if even f then f else f + 1)"

text \<open>
  IEEE-754 rounding to nearest even: precision \<open>p\<close>, least exponent \<open>emin\<close> of a subnormal's
  last bit, largest exponent \<open>emax\<close>; what is too large becomes an infinity.
\<close>

definition round_to :: "int \<Rightarrow> int \<Rightarrow> int \<Rightarrow> bool \<Rightarrow> rat \<Rightarrow> dbl" where
  "round_to p emin emax s q =
     (if q = 0 then Finite s 0
      else let u = max (floor_log2 q - (p - 1)) emin;
               r = of_int (round_half_even (q / pow2 u)) * pow2 u
           in if pow2 (emax + 1) \<le> r then Infinite s else Finite s r)"

definition to_float :: "bool \<Rightarrow> rat \<Rightarrow> dbl" where
  "to_float = round_to 24 (-149) 127"

definition to_double :: "bool \<Rightarrow> rat \<Rightarrow> dbl" where
  "to_double = round_to 53 (-1074) 1023"

text \<open>The numbers a double can hold: those that rounding leaves as they are.\<close>

definition is_double :: "dbl \<Rightarrow> bool" where
  "is_double d = (case d of Finite s q \<Rightarrow> 0 \<le> q \<and> to_double s q = Finite s q | _ \<Rightarrow> True)"

definition int_to_double :: "int \<Rightarrow> dbl" where
  "int_to_double i = to_double (i < 0) (of_int \<bar>i\<bar>)"

definition int_to_float :: "int \<Rightarrow> dbl" where
  "int_to_float i = to_float (i < 0) (of_int \<bar>i\<bar>)"

fun double_to_float :: "dbl \<Rightarrow> dbl" where
  "double_to_float (Finite s q) = to_float s q"
| "double_to_float d = d"

text \<open>Truncation towards zero, where defined (\<^verbatim>\<open>static_cast\<close> from a floating type).\<close>

fun dbl_trunc :: "dbl \<Rightarrow> int option" where
  "dbl_trunc (Finite s q) = Some (if s then - \<lfloor>q\<rfloor> else \<lfloor>q\<rfloor>)"
| "dbl_trunc _ = None"

lemma pow2_pos [simp]: "0 < pow2 k"
  by (simp add: pow2_def)

section \<open>Decimal digits\<close>

definition is_digit :: "char \<Rightarrow> bool" where
  "is_digit c \<longleftrightarrow> (let n = (of_char c :: nat) in 48 \<le> n \<and> n \<le> 57)"

definition digit_value :: "char \<Rightarrow> int" where
  "digit_value c = of_char c - 48"

text \<open>The number a run of decimal digits denotes (\<^verbatim>\<open>std::stoll\<close>, \<^verbatim>\<open>strtoull\<close>, before their range check).\<close>

definition digits_value :: "string \<Rightarrow> int" where
  "digits_value s = foldl (\<lambda>a c. 10 * a + digit_value c) 0 s"

section \<open>Machine integers\<close>

text \<open>Conversion to a signed or unsigned integer of \<open>w\<close> bits, modulo \<open>2 ^ w\<close>.\<close>

definition wrap_unsigned :: "nat \<Rightarrow> int \<Rightarrow> int" where
  "wrap_unsigned w i = i mod 2 ^ w"

definition wrap_signed :: "nat \<Rightarrow> int \<Rightarrow> int" where
  "wrap_signed w i = (i + 2 ^ (w - 1)) mod 2 ^ w - 2 ^ (w - 1)"

definition in_signed :: "nat \<Rightarrow> int \<Rightarrow> bool" where
  "in_signed w i \<longleftrightarrow> - (2 ^ (w - 1)) \<le> i \<and> i < 2 ^ (w - 1)"

definition in_unsigned :: "nat \<Rightarrow> int \<Rightarrow> bool" where
  "in_unsigned w i \<longleftrightarrow> 0 \<le> i \<and> i < 2 ^ w"

lemma wrap_unsigned_id: "in_unsigned w i \<Longrightarrow> wrap_unsigned w i = i"
  by (simp add: wrap_unsigned_def in_unsigned_def)

lemma wrap_signed_id: "0 < w \<Longrightarrow> in_signed w i \<Longrightarrow> wrap_signed w i = i"
proof -
  assume "0 < w" and i: "in_signed w i"
  then have "(2::int) ^ w = 2 * 2 ^ (w - 1)"
    by (cases w) simp_all
  with i show ?thesis by (simp add: wrap_signed_def in_signed_def)
qed

lemma wrap_signed_range: "0 < w \<Longrightarrow> in_signed w (wrap_signed w i)"
proof -
  assume "0 < w"
  then have "(2::int) ^ w = 2 * 2 ^ (w - 1)"
    by (cases w) simp_all
  moreover have "0 \<le> (i + 2 ^ (w - 1)) mod (2::int) ^ w"
    and "(i + 2 ^ (w - 1)) mod (2::int) ^ w < 2 ^ w" by simp_all
  ultimately show ?thesis by (simp add: wrap_signed_def in_signed_def)
qed

section \<open>JSON values\<close>

datatype json =
    JNull
  | JBool bool
  | JInt int            \<comment> \<open>number_integer, a signed 64-bit value\<close>
  | JUInt int           \<comment> \<open>number_unsigned, an unsigned 64-bit value\<close>
  | JFloat dbl
  | JString string
  | JArray "json list"
  | JObject "(string \<times> json) list"

fun type_name :: "json \<Rightarrow> string" where
  "type_name JNull = ''null''"
| "type_name (JObject _) = ''object''"
| "type_name (JArray _) = ''array''"
| "type_name (JString _) = ''string''"
| "type_name (JBool _) = ''boolean''"
| "type_name _ = ''number''"

fun is_boolean :: "json \<Rightarrow> bool" where
  "is_boolean (JBool _) = True"
| "is_boolean _ = False"

fun is_number_integer :: "json \<Rightarrow> bool" where
  "is_number_integer (JInt _) = True"
| "is_number_integer (JUInt _) = True"
| "is_number_integer _ = False"

fun is_number_unsigned :: "json \<Rightarrow> bool" where
  "is_number_unsigned (JUInt _) = True"
| "is_number_unsigned _ = False"

fun is_string :: "json \<Rightarrow> bool" where
  "is_string (JString _) = True"
| "is_string _ = False"

fun is_array :: "json \<Rightarrow> bool" where
  "is_array (JArray _) = True"
| "is_array _ = False"

fun is_object :: "json \<Rightarrow> bool" where
  "is_object (JObject _) = True"
| "is_object _ = False"

fun json_size :: "json \<Rightarrow> nat" where
  "json_size JNull = 0"
| "json_size (JArray xs) = length xs"
| "json_size (JObject m) = length m"
| "json_size _ = 1"

definition json_empty :: "json \<Rightarrow> bool" where
  "json_empty j \<longleftrightarrow> json_size j = 0"

fun contains :: "json \<Rightarrow> string \<Rightarrow> bool" where
  "contains (JObject m) k = (map_of m k \<noteq> None)"
| "contains _ k = False"

definition type_error_305 :: "json \<Rightarrow> error" where
  "type_error_305 j = Json_exception ''type_error'' 305
     (''cannot use operator[] with a string argument with '' @ type_name j)"

text \<open>\<^verbatim>\<open>operator[](key) const\<close>: the key must be present.\<close>

fun at_const :: "json \<Rightarrow> string \<Rightarrow> json result" where
  "at_const (JObject m) k =
     (case map_of m k of None \<Rightarrow> Inl (Assert_failure ''operator[]'') | Some v \<Rightarrow> Inr v)"
| "at_const j k = Inl (type_error_305 j)"

text \<open>
  \<^verbatim>\<open>operator[](key)\<close> on a mutable value: null becomes an object, an absent key gets a null
  member. The result is the value after that, with the member referred to.
\<close>

fun at_mut :: "json \<Rightarrow> string \<Rightarrow> (json \<times> json) result" where
  "at_mut JNull k = Inr (JObject [(k, JNull)], JNull)"
| "at_mut (JObject m) k =
     (case map_of m k of
        None \<Rightarrow> Inr (JObject (om_put k JNull m), JNull)
      | Some v \<Rightarrow> Inr (JObject m, v))"
| "at_mut j k = Inl (type_error_305 j)"

text \<open>Assignment \<^verbatim>\<open>j[key] = v\<close>.\<close>

fun set_member :: "json \<Rightarrow> string \<Rightarrow> json \<Rightarrow> json result" where
  "set_member JNull k v = Inr (JObject [(k, v)])"
| "set_member (JObject m) k v = Inr (JObject (om_put k v m))"
| "set_member j k v = Inl (type_error_305 j)"

text \<open>\<^verbatim>\<open>push_back\<close>: null becomes an array.\<close>

fun push_back :: "json \<Rightarrow> json \<Rightarrow> json result" where
  "push_back JNull v = Inr (JArray [v])"
| "push_back (JArray xs) v = Inr (JArray (xs @ [v]))"
| "push_back j v = Inl (Json_exception ''type_error'' 308
     (''cannot use push_back() with '' @ type_name j))"

section \<open>Conversions\<close>

definition type_error_302 :: "string \<Rightarrow> json \<Rightarrow> error" where
  "type_error_302 expected j = Json_exception ''type_error'' 302
     (''type must be '' @ expected @ '', but is '' @ type_name j)"

text \<open>
  A floating value outside the target's range has undefined behaviour in the conversion to an
  integer; integers wrap.
\<close>

definition float_to_int :: "(int \<Rightarrow> bool) \<Rightarrow> dbl \<Rightarrow> int result" where
  "float_to_int in_range d =
     (case dbl_trunc d of
        Some i \<Rightarrow> if in_range i then Inr i else Inl (Undefined_behaviour ''float to integer'')
      | None \<Rightarrow> Inl (Undefined_behaviour ''float to integer''))"

text \<open>
  \<^verbatim>\<open>get_arithmetic_value\<close>, the overload for the library's own number types, and the overload
  for other arithmetic types, which also takes booleans.
\<close>

fun get_arithmetic_value :: "(int \<Rightarrow> 'a) \<Rightarrow> (dbl \<Rightarrow> 'a result) \<Rightarrow> json \<Rightarrow> 'a result" where
  "get_arithmetic_value of_integer of_dbl (JUInt n) = Inr (of_integer n)"
| "get_arithmetic_value of_integer of_dbl (JInt n) = Inr (of_integer n)"
| "get_arithmetic_value of_integer of_dbl (JFloat d) = of_dbl d"
| "get_arithmetic_value of_integer of_dbl j = Inl (type_error_302 ''number'' j)"

fun get_arithmetic_other :: "(int \<Rightarrow> 'a) \<Rightarrow> (dbl \<Rightarrow> 'a result) \<Rightarrow> json \<Rightarrow> 'a result" where
  "get_arithmetic_other of_integer of_dbl (JUInt n) = Inr (of_integer n)"
| "get_arithmetic_other of_integer of_dbl (JInt n) = Inr (of_integer n)"
| "get_arithmetic_other of_integer of_dbl (JFloat d) = of_dbl d"
| "get_arithmetic_other of_integer of_dbl (JBool b) = Inr (of_integer (of_bool b))"
| "get_arithmetic_other of_integer of_dbl j = Inl (type_error_302 ''number'' j)"

definition get_int64 :: "json \<Rightarrow> int result" where
  "get_int64 = get_arithmetic_value (wrap_signed 64) (float_to_int (in_signed 64))"

definition get_uint64 :: "json \<Rightarrow> int result" where
  "get_uint64 = get_arithmetic_value (wrap_unsigned 64) (float_to_int (in_unsigned 64))"

definition get_signed :: "nat \<Rightarrow> json \<Rightarrow> int result" where
  "get_signed w = get_arithmetic_other (wrap_signed w) (float_to_int (in_signed w))"

definition get_unsigned :: "nat \<Rightarrow> json \<Rightarrow> int result" where
  "get_unsigned w = get_arithmetic_other (wrap_unsigned w) (float_to_int (in_unsigned w))"

definition get_double :: "json \<Rightarrow> dbl result" where
  "get_double = get_arithmetic_value int_to_double Inr"

definition get_float :: "json \<Rightarrow> dbl result" where
  "get_float = get_arithmetic_other int_to_float (\<lambda>d. Inr (double_to_float d))"

fun get_boolean :: "json \<Rightarrow> bool result" where
  "get_boolean (JBool b) = Inr b"
| "get_boolean j = Inl (type_error_302 ''boolean'' j)"

fun get_string :: "json \<Rightarrow> string result" where
  "get_string (JString s) = Inr s"
| "get_string j = Inl (type_error_302 ''string'' j)"

section \<open>Well-formed values and nesting depth\<close>

text \<open>
  Well-formed: every object is an ordered map, every integer is in the range of its 64-bit
  type. Depth: how many non-empty arrays and objects enclose the innermost element.
\<close>

fun json_wf :: "json \<Rightarrow> bool" where
  "json_wf (JArray xs) = (\<forall>x \<in> set xs. json_wf x)"
| "json_wf (JObject m) = (om_inv m \<and> (\<forall>kv \<in> set m. json_wf (snd kv)))"
| "json_wf (JInt i) = in_signed 64 i"
| "json_wf (JUInt i) = in_unsigned 64 i"
| "json_wf (JFloat d) = is_double d"
| "json_wf _ = True"

fun json_depth :: "json \<Rightarrow> nat" where
  "json_depth (JArray xs) = max_list (map (\<lambda>x. Suc (json_depth x)) xs)"
| "json_depth (JObject m) = max_list (map (\<lambda>kv. Suc (json_depth (snd kv))) m)"
| "json_depth _ = 0"

lemma snd_om_put: "kv \<in> set (om_put k v m) \<Longrightarrow> kv = (k, v) \<or> kv \<in> set m"
  by (induction k v m rule: om_put.induct) (auto split: if_splits)

lemma map_of_wf: "json_wf (JObject m) \<Longrightarrow> map_of m k = Some v \<Longrightarrow> json_wf v"
  by (force dest: map_of_SomeD)

lemma json_wf_om_put: "json_wf (JObject m) \<Longrightarrow> json_wf v \<Longrightarrow> json_wf (JObject (om_put k v m))"
  by (auto dest: snd_om_put)

lemma at_mut_wf: "json_wf j \<Longrightarrow> at_mut j k = Inr (j', v) \<Longrightarrow> json_wf j' \<and> json_wf v"
proof (cases j)
  case (JObject m)
  assume "json_wf j" and "at_mut j k = Inr (j', v)"
  then show ?thesis
    using JObject json_wf_om_put[of m JNull k] map_of_wf[of m k]
    by (cases "map_of m k") auto
qed auto

lemma set_member_wf: "json_wf j \<Longrightarrow> json_wf v \<Longrightarrow> set_member j k v = Inr j' \<Longrightarrow> json_wf j'"
proof (cases j)
  case (JObject m)
  assume "json_wf j" "json_wf v" and "set_member j k v = Inr j'"
  then show ?thesis
    using JObject json_wf_om_put[of m v k] by auto
qed auto

lemma contains_set_member: "set_member j k v = Inr j' \<Longrightarrow> at_const j' k = Inr v"
  by (cases j) auto

lemma contains_at_const: "contains j k \<Longrightarrow> \<exists>v. at_const j k = Inr v"
  by (cases j) auto

lemma contains_is_object: "contains j k \<Longrightarrow> is_object j"
  by (cases j) auto

end
