(* ===== verification/Session_Key.thy ===== *)
theory Session_Key
  imports Json
begin

text \<open>
  Session keys (\<^verbatim>\<open>src/src/onnx/session_key.cpp\<close>): the pair of model name and version,
  the checks its constructor makes, and the order under which \<^verbatim>\<open>std::map\<close> stores
  sessions. The character tests are those of \<^verbatim>\<open>std::isalnum\<close> in the "C" locale.
\<close>

definition is_alnum :: "char \<Rightarrow> bool" where
  "is_alnum c \<longleftrightarrow>
     (let n = (of_char c :: nat)
      in 48 \<le> n \<and> n \<le> 57 \<or> 65 \<le> n \<and> n \<le> 90 \<or> 97 \<le> n \<and> n \<le> 122)"

definition is_valid_model_name :: "string \<Rightarrow> bool" where
  "is_valid_model_name model_key \<longleftrightarrow>
     model_key \<noteq> [] \<and>
     list_all (\<lambda>c. is_alnum c \<or> c = CHR ''_'' \<or> c = CHR ''-'') model_key"

definition is_valid_model_version :: "string \<Rightarrow> bool" where
  "is_valid_model_version model_version \<longleftrightarrow>
     model_version \<noteq> [] \<and>
     list_all (\<lambda>c. is_alnum c \<or> c = CHR ''_'' \<or> c = CHR ''-'' \<or> c = CHR ''/'') model_version"

datatype session_key = Session_key (model_name: string) (model_version: string)

text \<open>The constructor of \<^verbatim>\<open>session_key\<close>: throws unless both parts are valid.\<close>

definition make_session_key :: "string \<Rightarrow> string \<Rightarrow> session_key result" where
  "make_session_key name version =
     (if \<not> is_valid_model_name name
      then Inl (Orts_exception runtime_error
             (''Invalid model name: '' @ name @ '' Must be \"a-z, A-Z, 0-9, '-', '_'.\"''))
      else if \<not> is_valid_model_version version
      then Inl (Orts_exception runtime_error
             (''Invalid model version: '' @ version
              @ '' Must be \"a-z, A-Z, 0-9, '-', '_', '/'.\"''))
      else Inr (Session_key name version))"

text \<open>\<^verbatim>\<open>session_key::operator<\<close>, with its three returns.\<close>

definition session_key_less :: "session_key \<Rightarrow> session_key \<Rightarrow> bool" where
  "session_key_less a b =
     (if model_name a < model_name b then True
      else if model_name b < model_name a then False
      else model_version a < model_version b)"

instantiation session_key :: linorder
begin

definition less_session_key :: "session_key \<Rightarrow> session_key \<Rightarrow> bool" where
  "less_session_key a b = session_key_less a b"

definition less_eq_session_key :: "session_key \<Rightarrow> session_key \<Rightarrow> bool" where
  "less_eq_session_key a b \<longleftrightarrow> session_key_less a b \<or> a = b"

instance
proof
  fix x y z :: session_key
  show "(x < y) = (x \<le> y \<and> \<not> y \<le> x)"
    by (auto simp: less_session_key_def less_eq_session_key_def session_key_less_def
        split: if_splits)
  show "x \<le> x" by (simp add: less_eq_session_key_def)
  show "x \<le> y \<Longrightarrow> y \<le> z \<Longrightarrow> x \<le> z"
    by (cases x; cases y; cases z)
      (auto simp: less_eq_session_key_def session_key_less_def split: if_splits)
  show "x \<le> y \<Longrightarrow> y \<le> x \<Longrightarrow> x = y"
    by (auto simp: less_eq_session_key_def session_key_less_def split: if_splits)
  show "x \<le> y \<or> y \<le> x"
    by (cases x; cases y)
      (auto simp: less_eq_session_key_def session_key_less_def)
qed

end

section \<open>What the constructor guarantees\<close>

definition key_valid :: "session_key \<Rightarrow> bool" where
  "key_valid k \<longleftrightarrow> is_valid_model_name (model_name k) \<and> is_valid_model_version (model_version k)"

lemma make_session_key_Inr:
  "make_session_key n v = Inr k \<longleftrightarrow> k = Session_key n v \<and> key_valid k"
  by (auto simp: make_session_key_def key_valid_def)

lemma make_session_key_valid:
  "is_valid_model_name n \<Longrightarrow> is_valid_model_version v \<Longrightarrow>
   make_session_key n v = Inr (Session_key n v)"
  by (simp add: make_session_key_def)

lemma make_session_key_Inl:
  "make_session_key n v = Inl e \<Longrightarrow> \<exists>w. e = Orts_exception runtime_error w"
  by (auto simp: make_session_key_def split: if_splits)

text \<open>A valid name has no slash, so the name of a key ends where its text has the first one.\<close>

lemma is_alnum_not_slash: "\<not> is_alnum (CHR ''/'')"
  by (simp add: is_alnum_def)

lemma valid_name_no_slash: "is_valid_model_name n \<Longrightarrow> CHR ''/'' \<notin> set n"
  by (auto simp: is_valid_model_name_def list_all_iff is_alnum_not_slash)

lemma valid_name_is_version: "is_valid_model_name n \<Longrightarrow> is_valid_model_version n"
  by (auto simp: is_valid_model_name_def is_valid_model_version_def list_all_iff)

end
