(* ===== verification/Session_Key_Option.thy ===== *)
theory Session_Key_Option
  imports Session_Key
begin

text \<open>
  The parser of \<^verbatim>\<open>--prepare-model\<close> lists
  (\<^verbatim>\<open>src/src/onnx/session_key_with_option.cpp\<close>). The regular expressions of the file
  are matched by functions that follow their ECMAScript semantics: every repetition in them is
  greedy and followed by a character outside its class, so a match is found without giving back
  a character, and \<^verbatim>\<open>regex_search\<close> returns the leftmost match with its suffix.
\<close>

section \<open>Characters and runs\<close>

text \<open>The class \<^verbatim>\<open>\s\<close>: space, tab, newline, vertical tab, form feed, carriage return.\<close>

definition is_space :: "char \<Rightarrow> bool" where
  "is_space c \<longleftrightarrow> (let n = (of_char c :: nat) in n = 32 \<or> 9 \<le> n \<and> n \<le> 13)"

definition name_char :: "char \<Rightarrow> bool" where
  "name_char c \<longleftrightarrow> c = CHR ''-'' \<or> c = CHR ''_'' \<or> is_alnum c"

definition version_char :: "char \<Rightarrow> bool" where
  "version_char c \<longleftrightarrow> c = CHR ''-'' \<or> c = CHR ''_'' \<or> c = CHR ''/'' \<or> is_alnum c"

definition opt_first_char :: "char \<Rightarrow> bool" where
  "opt_first_char c \<longleftrightarrow> c = CHR ''_'' \<or> is_alnum c"

definition opt_char :: "char \<Rightarrow> bool" where
  "opt_char c \<longleftrightarrow> c = CHR ''_'' \<or> c = CHR ''.'' \<or> is_alnum c"

definition opt_value_char :: "char \<Rightarrow> bool" where
  "opt_value_char c \<longleftrightarrow> c \<noteq> CHR '','' \<and> \<not> is_space c"

text \<open>\<^verbatim>\<open>regex_replace(s, /\s+/, " ")\<close>: each maximal run of white space becomes one space.\<close>

fun collapse_spaces :: "bool \<Rightarrow> string \<Rightarrow> string" where
  "collapse_spaces in_run [] = []"
| "collapse_spaces in_run (c # cs) =
     (if is_space c
      then (if in_run then collapse_spaces True cs else CHR '' '' # collapse_spaces True cs)
      else c # collapse_spaces False cs)"

text \<open>\<^verbatim>\<open>regex_replace(s, /^\s*|\s*$/, "")\<close>: no white space is left at either end.\<close>

definition trim :: "string \<Rightarrow> string" where
  "trim s = rev (dropWhile is_space (rev (dropWhile is_space s)))"

section \<open>Matching the two expressions\<close>

text \<open>The group \<^verbatim>\<open>(\(([^)]+)\))?\<close> at the head of the input: the inner text and what follows.\<close>

definition match_options :: "string \<Rightarrow> string \<times> string" where
  "match_options s =
     (case s of
        [] \<Rightarrow> ([], s)
      | c # r \<Rightarrow>
          (if c \<noteq> CHR ''('' then ([], s)
           else case dropWhile (\<lambda>c. c \<noteq> CHR '')'') r of
                  [] \<Rightarrow> ([], s)
                | _ # rest \<Rightarrow>
                    (if takeWhile (\<lambda>c. c \<noteq> CHR '')'') r = [] then ([], s)
                     else (takeWhile (\<lambda>c. c \<noteq> CHR '')'') r, rest))))"

text \<open>\<^verbatim>\<open>key_re\<close> at the head of the input: groups 1, 2 and 4, and the suffix.\<close>

definition match_key :: "string \<Rightarrow> (string \<times> string \<times> string \<times> string) option" where
  "match_key s =
     (let name = takeWhile name_char s; r1 = dropWhile name_char s
      in if name = [] then None
         else case r1 of
                [] \<Rightarrow> None
              | c # r2 \<Rightarrow>
                  (if c \<noteq> CHR '':'' then None
                   else let version = takeWhile version_char r2; r3 = dropWhile version_char r2
                        in if version = [] then None
                           else Some (name, version, match_options r3)))"

text \<open>\<^verbatim>\<open>option_re\<close> at the head of the input: groups 1 and 2, and the suffix.\<close>

definition match_option :: "string \<Rightarrow> (string \<times> string \<times> string) option" where
  "match_option s =
     (case s of
        [] \<Rightarrow> None
      | c # _ \<Rightarrow>
          (if \<not> opt_first_char c then None
           else let k = takeWhile opt_char s; r1 = dropWhile is_space (dropWhile opt_char s)
                in case r1 of
                     [] \<Rightarrow> None
                   | e # r2 \<Rightarrow>
                       (if e \<noteq> CHR ''='' then None
                        else let r3 = dropWhile is_space r2; v = takeWhile opt_value_char r3
                             in if v = [] then None
                                else Some (k, v, dropWhile opt_value_char r3))))"

text \<open>\<^verbatim>\<open>regex_search\<close>: the match at the first position that has one.\<close>

fun regex_search :: "(string \<Rightarrow> 'a option) \<Rightarrow> string \<Rightarrow> 'a option" where
  "regex_search m [] = m []"
| "regex_search m (c # cs) = (case m (c # cs) of Some r \<Rightarrow> Some r | None \<Rightarrow> regex_search m cs)"

section \<open>Option values and paths\<close>

text \<open>\<^verbatim>\<open>regex_match(raw, /^-?[0-9]+$/)\<close>.\<close>

definition matches_int :: "string \<Rightarrow> bool" where
  "matches_int raw =
     (let ds = (case raw of c # cs \<Rightarrow> (if c = CHR ''-'' then cs else raw) | [] \<Rightarrow> [])
      in ds \<noteq> [] \<and> list_all is_digit ds)"

text \<open>\<^verbatim>\<open>std::stoll\<close> on such a text; \<^const>\<open>None\<close> for \<^verbatim>\<open>out_of_range\<close>.\<close>

definition stoll :: "string \<Rightarrow> int option" where
  "stoll raw =
     (let i = (case raw of
                 c # cs \<Rightarrow> (if c = CHR ''-'' then - digits_value cs else digits_value raw)
               | [] \<Rightarrow> 0)
      in if in_signed 64 i then Some i else None)"

definition infer_value :: "string \<Rightarrow> json" where
  "infer_value raw =
     (if raw = ''true'' then JBool True
      else if raw = ''false'' then JBool False
      else if matches_int raw
      then (case stoll raw of Some i \<Rightarrow> JInt i | None \<Rightarrow> JString raw)
      else JString raw)"

fun split_dot_loop :: "string \<Rightarrow> string list \<Rightarrow> string \<Rightarrow> string list" where
  "split_dot_loop cur parts [] = (if cur = [] then parts else parts @ [cur])"
| "split_dot_loop cur parts (c # cs) =
     (if c = CHR ''.''
      then split_dot_loop [] (if cur = [] then parts else parts @ [cur]) cs
      else split_dot_loop (cur @ [c]) parts cs)"

definition split_dot :: "string \<Rightarrow> string list" where
  "split_dot k = split_dot_loop [] [] k"

definition object_members :: "json \<Rightarrow> (string \<times> json) list" where
  "object_members j = (case j of JObject m \<Rightarrow> m | _ \<Rightarrow> [])"

text \<open>
  \<^verbatim>\<open>set_nested\<close>: walks down the path, replacing whatever is not an object by an empty one,
  and stores the value under the last part. The empty path does not occur.
\<close>

fun set_nested :: "json \<Rightarrow> string list \<Rightarrow> json \<Rightarrow> json" where
  "set_nested option [] v = option"
| "set_nested option [k] v = JObject (om_put k v (object_members option))"
| "set_nested option (k # k' # ks) v =
     (let m = object_members option;
          child = (case map_of m k of Some (JObject c) \<Rightarrow> JObject c | _ \<Rightarrow> JObject [])
      in JObject (om_put k (set_nested child (k' # ks) v) m))"

definition EXTENSIONS_KEY :: string where "EXTENSIONS_KEY = ''extensions''"
definition LEGACY_EXTENSION_KEY :: string where "LEGACY_EXTENSION_KEY = ''ortextensions_path''"

text \<open>\<^verbatim>\<open>append_extension\<close>, on an option value that is an object.\<close>

definition append_extension :: "json \<Rightarrow> string \<Rightarrow> json" where
  "append_extension option path =
     (let m = object_members option;
          arr = (case map_of m EXTENSIONS_KEY of Some (JArray xs) \<Rightarrow> xs | _ \<Rightarrow> [])
      in JObject (om_put EXTENSIONS_KEY
           (JArray (if JString path \<in> set arr then arr else arr @ [JString path])) m))"

definition apply_option :: "json \<Rightarrow> string \<Rightarrow> string \<Rightarrow> json" where
  "apply_option option raw_key raw_val =
     (let value = infer_value raw_val; parts = split_dot raw_key
      in case parts of
           [] \<Rightarrow> option
         | [p] \<Rightarrow>
             (if p = EXTENSIONS_KEY \<or> p = LEGACY_EXTENSION_KEY
              then (case value of
                      JString path \<Rightarrow> append_extension option path
                    | _ \<Rightarrow> set_nested option parts value)
              else set_nested option parts value)
         | _ \<Rightarrow> set_nested option parts value)"

section \<open>The two loops\<close>

lemma regex_search_Some:
  "regex_search m s = Some r \<Longrightarrow> \<exists>p t. s = p @ t \<and> m t = Some r"
proof (induction s)
  case (Cons c cs)
  then show ?case
    by (cases "m (c # cs)") (fastforce intro: exI[of _ "c # _"] exI[of _ "[]"])+
qed auto

lemma length_dropWhile_less: "takeWhile P s \<noteq> [] \<Longrightarrow> length (dropWhile P s) < length s"
  by (cases s) (auto split: if_splits simp: le_imp_less_Suc length_dropWhile_le)

lemma dropWhile_Cons_length: "dropWhile P r = x # xs \<Longrightarrow> length xs \<le> Suc (length r)"
  using length_dropWhile_le[of P r] by simp

declare dropWhile_eq_Cons_conv [simp del] dropWhile_eq_Nil_conv [simp del]

lemma match_options_length: "length (snd (match_options s)) \<le> length s"
  by (cases s) (auto simp: match_options_def dest: dropWhile_Cons_length split: list.split)

lemma match_key_length: "match_key s = Some (n, v, o1, r) \<Longrightarrow> length r < length s"
proof -
  assume m: "match_key s = Some (n, v, o1, r)"
  then obtain r2 where n: "takeWhile name_char s \<noteq> []"
    and r1: "dropWhile name_char s = CHR '':'' # r2"
    and opts: "match_options (dropWhile version_char r2) = (o1, r)"
    by (auto simp: match_key_def Let_def split: list.splits if_splits)
  have "length r \<le> length r2"
    using match_options_length[of "dropWhile version_char r2"] opts
      length_dropWhile_le[of version_char r2] by simp
  then show ?thesis
    using length_dropWhile_less[OF n] r1 by simp
qed

lemma match_option_length: "match_option s = Some (k, v, r) \<Longrightarrow> length r < length s"
proof -
  assume m: "match_option s = Some (k, v, r)"
  then obtain r2 where r1: "dropWhile is_space (dropWhile opt_char s) = CHR ''='' # r2"
    and r: "r = dropWhile opt_value_char (dropWhile is_space r2)"
    by (auto simp: match_option_def Let_def split: list.splits if_splits)
  have "length r \<le> length r2"
    using length_dropWhile_le[of opt_value_char "dropWhile is_space r2"]
      length_dropWhile_le[of is_space r2] r by simp
  moreover have "Suc (length r2) \<le> length s"
    using length_dropWhile_le[of is_space "dropWhile opt_char s"]
      length_dropWhile_le[of opt_char s] r1 by simp
  ultimately show ?thesis by simp
qed

lemma search_key_length: "regex_search match_key s = Some (n, v, o1, r) \<Longrightarrow> length r < length s"
  using regex_search_Some[of match_key s] match_key_length by fastforce

lemma search_option_length: "regex_search match_option s = Some (k, v, r) \<Longrightarrow> length r < length s"
  using regex_search_Some[of match_option s] match_option_length by fastforce

function parse_options :: "json \<Rightarrow> string \<Rightarrow> json" where
  "parse_options option option_str =
     (case regex_search match_option option_str of
        None \<Rightarrow> option
      | Some (k, v, suffix) \<Rightarrow> parse_options (apply_option option k v) suffix)"
  by pat_completeness auto
termination
  by (relation "measure (\<lambda>(_, s). length s)") (auto dest: search_option_length)

declare parse_options.simps [simp del]

record session_key_with_option =
  skey :: session_key
  soption :: json

function parse_keys :: "session_key_with_option list \<Rightarrow> string \<Rightarrow>
    (session_key_with_option list \<times> string) result" where
  "parse_keys models list =
     (case regex_search match_key list of
        None \<Rightarrow> Inr (models, list)
      | Some (name, version, option_str, suffix) \<Rightarrow>
          (let option = (if option_str \<noteq> [] then parse_options (JObject []) option_str
                         else JObject [])
           in case make_session_key name version of
                Inl e \<Rightarrow> Inl e
              | Inr k \<Rightarrow> parse_keys (models @ [\<lparr>skey = k, soption = option\<rparr>]) suffix))"
  by pat_completeness auto
termination
  by (relation "measure (\<lambda>(_, s). length s)") (auto dest: search_key_length)

declare parse_keys.simps [simp del]

text \<open>\<^verbatim>\<open>session_key_with_option::parse\<close>.\<close>

definition parse_model_keys :: "string \<Rightarrow> session_key_with_option list result" where
  "parse_model_keys model_key_list =
     (let list = trim (collapse_spaces False model_key_list)
      in if list = [] then Inr []
         else andThen (parse_keys [] list) (\<lambda>(models, rest).
           if rest \<noteq> []
           then Inl (Orts_exception runtime_error (''Invalid model key list: '' @ model_key_list))
           else Inr models))"

section \<open>Character classes\<close>

lemma name_char_version: "name_char c \<Longrightarrow> version_char c"
  by (auto simp: name_char_def version_char_def)

lemma is_alnum_not_space: "is_alnum c \<Longrightarrow> \<not> is_space c"
  by (auto simp: is_alnum_def is_space_def Let_def)

lemma version_char_not_space: "version_char c \<Longrightarrow> \<not> is_space c"
  by (auto simp: version_char_def is_alnum_not_space) (simp_all add: is_space_def)

lemma name_char_colon [simp]: "\<not> name_char (CHR '':'')" "\<not> version_char (CHR '':'')"
    "\<not> is_space (CHR '':'')"
  by (simp_all add: name_char_def version_char_def is_alnum_def is_space_def)

lemma name_char_blank [simp]: "\<not> name_char (CHR '' '')" "\<not> version_char (CHR '' '')"
    "is_space (CHR '' '')"
  by (simp_all add: name_char_def version_char_def is_alnum_def is_space_def)

lemma valid_name_iff: "is_valid_model_name n \<longleftrightarrow> n \<noteq> [] \<and> (\<forall>c \<in> set n. name_char c)"
  by (auto simp: is_valid_model_name_def name_char_def list_all_iff)

lemma valid_version_iff: "is_valid_model_version v \<longleftrightarrow> v \<noteq> [] \<and> (\<forall>c \<in> set v. version_char c)"
  by (auto simp: is_valid_model_version_def version_char_def list_all_iff)

section \<open>Every match is a valid key\<close>

lemma match_key_valid:
  "match_key s = Some (n, v, o1, r) \<Longrightarrow> is_valid_model_name n \<and> is_valid_model_version v"
  by (auto simp: match_key_def Let_def valid_name_iff valid_version_iff dest: set_takeWhileD
      split: list.splits if_splits)

lemma search_key_valid:
  "regex_search match_key s = Some (n, v, o1, r) \<Longrightarrow>
   is_valid_model_name n \<and> is_valid_model_version v"
  using regex_search_Some[of match_key s] match_key_valid by fastforce

section \<open>Options stay well-formed objects\<close>

lemma infer_value_wf: "json_wf (infer_value raw)"
  by (auto simp: infer_value_def stoll_def Let_def split: option.splits if_splits)

lemma object_members_wf: "json_wf j \<Longrightarrow> json_wf (JObject (object_members j))"
  by (cases j) (auto simp: object_members_def)

lemma set_nested_wf: "json_wf j \<Longrightarrow> json_wf v \<Longrightarrow> json_wf (set_nested j ks v)"
proof (induction j ks v rule: set_nested.induct)
  case (2 j k v)
  then show ?case
    using json_wf_om_put[OF object_members_wf] by simp
next
  case (3 j k k' ks v)
  let ?m = "object_members j"
  define child where "child = (case map_of ?m k of Some (JObject c) \<Rightarrow> JObject c | _ \<Rightarrow> JObject [])"
  have "json_wf child"
    using object_members_wf[OF 3(2)]
    by (auto simp: child_def split: option.splits json.splits dest: map_of_wf[rotated]
        simp del: json_wf.simps(2)) simp_all
  then have "json_wf (set_nested child (k' # ks) v)"
    using 3 by (simp add: child_def)
  then show ?case
    using json_wf_om_put[OF object_members_wf[OF 3(2)]] by (simp add: child_def Let_def)
qed simp

lemma set_nested_object: "ks \<noteq> [] \<Longrightarrow> is_object (set_nested j ks v)"
  by (cases "(j, ks, v)" rule: set_nested.cases) (auto simp: Let_def)

lemma append_extension_wf:
  assumes "json_wf j" shows "json_wf (append_extension j p)"
proof -
  let ?m = "object_members j"
  let ?arr = "case map_of ?m EXTENSIONS_KEY of Some (JArray xs) \<Rightarrow> xs | _ \<Rightarrow> []"
  have "json_wf (JArray ?arr)"
    using map_of_wf[OF object_members_wf[OF assms], of EXTENSIONS_KEY]
    by (auto split: option.splits json.splits simp del: json_wf.simps(1)) simp_all
  then have "json_wf (JArray (if JString p \<in> set ?arr then ?arr else ?arr @ [JString p]))"
    by auto
  from json_wf_om_put[OF object_members_wf[OF assms] this] show ?thesis
    by (simp add: append_extension_def Let_def)
qed

lemma apply_option_disj:
  "apply_option j k v = j \<or> (\<exists>p. apply_option j k v = append_extension j p) \<or>
   (\<exists>ks. ks \<noteq> [] \<and> apply_option j k v = set_nested j ks (infer_value v))"
proof (cases "split_dot k")
  case Nil
  then show ?thesis by (simp add: apply_option_def)
next
  case (Cons p ps)
  have "apply_option j k v = set_nested j (p # ps) (infer_value v) \<or>
      (\<exists>q. apply_option j k v = append_extension j q)"
    using Cons by (cases ps; cases "infer_value v") (auto simp: apply_option_def Let_def)
  then show ?thesis by blast
qed

lemma apply_option_cases:
  obtains "apply_option j k v = j"
  | p where "apply_option j k v = append_extension j p"
  | ks where "ks \<noteq> []" and "apply_option j k v = set_nested j ks (infer_value v)"
  using apply_option_disj by blast

lemma apply_option_wf: "json_wf j \<Longrightarrow> json_wf (apply_option j k v)"
  by (cases rule: apply_option_cases[of j k v])
    (simp_all add: set_nested_wf infer_value_wf append_extension_wf)

lemma append_extension_object: "is_object (append_extension j p)"
  by (simp add: append_extension_def Let_def)

lemma apply_option_object: "is_object j \<Longrightarrow> is_object (apply_option j k v)"
  by (cases rule: apply_option_cases[of j k v])
    (simp_all add: set_nested_object append_extension_object)

text \<open>A property that every accepted option keeps holds of the whole option text.\<close>

lemma parse_options_invariant:
  assumes "P j" and "\<And>j k v. P j \<Longrightarrow> P (apply_option j k v)"
  shows "P (parse_options j s)"
  using assms(1)
proof (induction j s rule: parse_options.induct)
  case (1 j s)
  then show ?case
    by (subst parse_options.simps)
      (auto split: option.split intro!: "1.IH"[OF _ refl refl] assms(2))
qed

lemma parse_options_wf: "json_wf j \<Longrightarrow> json_wf (parse_options j s)"
  by (rule parse_options_invariant) (auto intro: apply_option_wf)

lemma parse_options_object: "is_object j \<Longrightarrow> is_object (parse_options j s)"
  by (rule parse_options_invariant) (auto intro: apply_option_object)

section \<open>Printing a list and parsing it back\<close>

definition option_text :: "string \<times> string \<Rightarrow> string" where
  "option_text kv = fst kv @ CHR ''='' # snd kv"

fun options_text :: "(string \<times> string) list \<Rightarrow> string" where
  "options_text [] = []"
| "options_text [kv] = option_text kv"
| "options_text (kv # kvs) = option_text kv @ CHR '','' # options_text kvs"

definition entry_text :: "session_key \<times> (string \<times> string) list \<Rightarrow> string" where
  "entry_text e = model_name (fst e) @ CHR '':'' # model_version (fst e) @
     (if snd e = [] then [] else CHR ''('' # options_text (snd e) @ '')'')"

fun entries_text :: "(session_key \<times> (string \<times> string) list) list \<Rightarrow> string" where
  "entries_text [] = []"
| "entries_text [e] = entry_text e"
| "entries_text (e # es) = entry_text e @ CHR '' '' # entries_text es"

definition option_ok :: "string \<times> string \<Rightarrow> bool" where
  "option_ok kv \<longleftrightarrow> fst kv \<noteq> [] \<and> opt_first_char (hd (fst kv)) \<and> list_all opt_char (fst kv) \<and>
     snd kv \<noteq> [] \<and> list_all (\<lambda>c. opt_value_char c \<and> c \<noteq> CHR '')'') (snd kv)"

definition entry_ok :: "session_key \<times> (string \<times> string) list \<Rightarrow> bool" where
  "entry_ok e \<longleftrightarrow> key_valid (fst e) \<and> list_all option_ok (snd e)"

definition entry_value :: "session_key \<times> (string \<times> string) list \<Rightarrow> session_key_with_option" where
  "entry_value e = \<lparr>skey = fst e,
     soption = fold (\<lambda>(k, v) j. apply_option j k v) (snd e) (JObject [])\<rparr>"

lemma special_chars [simp]:
  "\<not> is_space (CHR ''='')" "\<not> opt_char (CHR ''='')" "\<not> opt_value_char (CHR '','')"
  "\<not> opt_first_char (CHR '','')" "\<not> version_char (CHR ''('')" "\<not> is_space (CHR ''('')"
  "\<not> is_space (CHR '')'')" "\<not> is_space (CHR '','')"
  by (simp_all add: is_space_def opt_char_def opt_value_char_def opt_first_char_def
      version_char_def is_alnum_def)

lemma takeWhile_stop: "\<forall>c \<in> set w. P c \<Longrightarrow> \<not> P d \<Longrightarrow> takeWhile P (w @ d # t) = w"
  and dropWhile_stop: "\<forall>c \<in> set w. P c \<Longrightarrow> \<not> P d \<Longrightarrow> dropWhile P (w @ d # t) = d # t"
  by (induction w) auto

lemma takeWhile_end: "\<forall>c \<in> set w. P c \<Longrightarrow> takeWhile P w = w"
  and dropWhile_end: "\<forall>c \<in> set w. P c \<Longrightarrow> dropWhile P w = []"
  by (induction w) auto

lemmas run_simps = takeWhile_stop dropWhile_stop takeWhile_end dropWhile_end

lemma opt_char_not_space: "opt_char c \<Longrightarrow> \<not> is_space c"
  by (auto simp: opt_char_def is_alnum_not_space) (simp_all add: is_space_def)

text \<open>One option, at the end of the text or before a comma.\<close>

lemma match_option_text:
  assumes "option_ok kv" and "t = [] \<or> (\<exists>u. t = CHR '','' # u)"
  shows "match_option (option_text kv @ t) = Some (fst kv, snd kv, t)"
proof -
  obtain k v where kv: "kv = (k, v)" by (cases kv)
  obtain c k' where k: "k = c # k'" and c: "opt_first_char c"
    using assms(1) kv by (cases k) (auto simp: option_ok_def)
  have ks: "\<forall>x \<in> set k. opt_char x" and vs: "\<forall>x \<in> set v. opt_value_char x" "v \<noteq> []"
    using assms(1) kv by (auto simp: option_ok_def list_all_iff)
  have v1: "dropWhile is_space (v @ t) = v @ t"
    using vs by (cases v) (auto simp: opt_value_char_def)
  have "takeWhile opt_value_char (v @ t) = v \<and> dropWhile opt_value_char (v @ t) = t"
    using assms(2) vs by (auto simp: run_simps)
  moreover have "takeWhile opt_char (k @ CHR ''='' # v @ t) = k"
    and "dropWhile opt_char (k @ CHR ''='' # v @ t) = CHR ''='' # v @ t"
    using ks by (auto simp: run_simps)
  ultimately show ?thesis
    using kv k c v1 vs(2) by (simp add: match_option_def option_text_def Let_def)
qed

lemma search_hit: "m s = Some r \<Longrightarrow> regex_search m s = Some r"
  by (cases s) simp_all

lemma match_option_comma: "match_option (CHR '','' # s) = None"
  by (simp add: match_option_def)

lemma parse_options_Nil: "parse_options j [] = j"
  by (subst parse_options.simps) (simp add: match_option_def)

lemma parse_options_comma: "parse_options j (CHR '','' # s) = parse_options j s"
  by (subst (1 2) parse_options.simps) (simp add: match_option_comma)

lemma parse_options_step:
  assumes "option_ok kv" and "t = [] \<or> (\<exists>u. t = CHR '','' # u)"
  shows "parse_options j (option_text kv @ t) = parse_options (apply_option j (fst kv) (snd kv)) t"
  using search_hit[of match_option, OF match_option_text[OF assms]]
  by (subst parse_options.simps) simp

lemma parse_options_text:
  "list_all option_ok kvs \<Longrightarrow>
   parse_options j (options_text kvs) = fold (\<lambda>(k, v) j. apply_option j k v) kvs j"
proof (induction kvs arbitrary: j rule: options_text.induct)
  case (2 kv)
  then show ?case
    using parse_options_step[of kv "[]" j] by (simp add: parse_options_Nil case_prod_beta)
next
  case (3 kv kv' kvs)
  then show ?case
    by (simp add: parse_options_step parse_options_comma case_prod_beta)
qed (simp add: parse_options_Nil)

lemma opt_char_not_paren: "opt_char c \<Longrightarrow> c \<noteq> CHR '')''"
  by (auto simp: opt_char_def is_alnum_def)

lemma opt_value_char_not_space: "opt_value_char c \<Longrightarrow> \<not> is_space c"
  by (simp add: opt_value_char_def)

lemma option_text_chars:
  assumes "option_ok kv" and "c \<in> set (option_text kv)"
  shows "\<not> is_space c \<and> c \<noteq> CHR '')''"
proof -
  from assms(2) consider "c \<in> set (fst kv)" | "c = CHR ''=''" | "c \<in> set (snd kv)"
    by (auto simp: option_text_def)
  then show ?thesis
    using assms(1) opt_char_not_space opt_char_not_paren opt_value_char_not_space
    by cases (auto simp: option_ok_def list_all_iff)
qed

lemma options_text_chars:
  "list_all option_ok kvs \<Longrightarrow> c \<in> set (options_text kvs) \<Longrightarrow> \<not> is_space c \<and> c \<noteq> CHR '')''"
  by (induction kvs rule: options_text.induct) (auto dest: option_text_chars)

lemma options_text_not_Nil: "kvs \<noteq> [] \<Longrightarrow> options_text kvs \<noteq> []"
  by (cases kvs rule: options_text.cases) (auto simp: option_text_def)

lemma key_valid_chars:
  assumes "key_valid k"
  shows "model_name k \<noteq> []" "model_version k \<noteq> []"
    "\<forall>c \<in> set (model_name k). name_char c" "\<forall>c \<in> set (model_version k). version_char c"
  using assms by (auto simp: key_valid_def valid_name_iff valid_version_iff)

lemma entry_text_chars:
  assumes "entry_ok e" and "c \<in> set (entry_text e)"
  shows "\<not> is_space c"
  using assms key_valid_chars[of "fst e"] options_text_chars[of "snd e"]
  by (auto simp: entry_ok_def entry_text_def dest: name_char_version version_char_not_space
      split: if_splits)

lemma entry_text_not_Nil: "entry_text e \<noteq> []"
  by (simp add: entry_text_def)

lemma match_options_text:
  assumes "list_all option_ok kvs" and "t = [] \<or> (\<exists>u. t = CHR '' '' # u)"
  shows "match_options ((if kvs = [] then [] else CHR ''('' # options_text kvs @ '')'') @ t)
    = (options_text kvs, t)"
  using assms options_text_chars[OF assms(1)] options_text_not_Nil[of kvs]
  by (auto simp: match_options_def run_simps)

lemma match_key_text:
  assumes "entry_ok e" and t: "t = [] \<or> (\<exists>u. t = CHR '' '' # u)"
  shows "match_key (entry_text e @ t) =
    Some (model_name (fst e), model_version (fst e), options_text (snd e), t)"
proof -
  let ?o = "(if snd e = [] then [] else CHR ''('' # options_text (snd e) @ '')'') @ t"
  note k = key_valid_chars[of "fst e"]
  have kv: "key_valid (fst e)" and os: "list_all option_ok (snd e)"
    using assms(1) by (auto simp: entry_ok_def)
  have "takeWhile version_char (model_version (fst e) @ ?o) = model_version (fst e) \<and>
      dropWhile version_char (model_version (fst e) @ ?o) = ?o"
    using k(4)[OF kv] t by (auto simp: run_simps)
  then show ?thesis
    using k[OF kv] match_options_text[OF os t]
    by (simp add: match_key_def entry_text_def run_simps)
qed

lemma match_key_blank: "match_key (CHR '' '' # s) = None"
  by (simp add: match_key_def)

lemma match_key_Nil: "match_key [] = None"
  by (simp add: match_key_def)

lemma parse_keys_blank:
  "regex_search match_key s \<noteq> None \<Longrightarrow> parse_keys ms (CHR '' '' # s) = parse_keys ms s"
  by (subst (1 2) parse_keys.simps) (auto simp: match_key_blank)

lemma parse_keys_Nil: "parse_keys ms [] = Inr (ms, [])"
  by (subst parse_keys.simps) (simp add: match_key_Nil)

lemma parse_keys_step:
  assumes "entry_ok e" and t: "t = [] \<or> (\<exists>u. t = CHR '' '' # u)"
  shows "parse_keys ms (entry_text e @ t) = parse_keys (ms @ [entry_value e]) t"
proof -
  have "make_session_key (model_name (fst e)) (model_version (fst e)) = Inr (fst e)"
    using assms(1) by (simp add: make_session_key_Inr entry_ok_def)
  moreover have "(if options_text (snd e) \<noteq> [] then parse_options (JObject []) (options_text (snd e))
      else JObject []) = soption (entry_value e)"
    using assms(1) parse_options_text[of "snd e"] options_text_not_Nil[of "snd e"]
    by (cases "snd e = []") (auto simp: entry_ok_def entry_value_def)
  ultimately show ?thesis
    using search_hit[of match_key, OF match_key_text[OF assms]]
    by (subst parse_keys.simps) (simp add: Let_def entry_value_def)
qed

lemma entries_text_Cons:
  "entries_text (e # es) = entry_text e @ (if es = [] then [] else CHR '' '' # entries_text es)"
  by (cases es) simp_all

lemma search_entries_text:
  "list_all entry_ok es \<Longrightarrow> es \<noteq> [] \<Longrightarrow> regex_search match_key (entries_text es) \<noteq> None"
proof (cases es)
  case (Cons e es')
  assume "list_all entry_ok es"
  with Cons show ?thesis
    using search_hit[of match_key, OF match_key_text[of e]] by (simp add: entries_text_Cons)
qed simp

lemma parse_keys_text:
  "list_all entry_ok es \<Longrightarrow> parse_keys ms (entries_text es) = Inr (ms @ map entry_value es, [])"
proof (induction es arbitrary: ms)
  case (Cons e es)
  then show ?case
    using search_entries_text[of es] parse_keys_step[of e "[]" ms]
    by (auto simp: entries_text_Cons parse_keys_step parse_keys_blank parse_keys_Nil)
qed (simp add: parse_keys_Nil)

lemma collapse_word:
  "\<forall>c \<in> set w. \<not> is_space c \<Longrightarrow> w \<noteq> [] \<Longrightarrow> collapse_spaces b (w @ t) = w @ collapse_spaces False t"
proof (induction w arbitrary: b)
  case (Cons c w)
  then show ?case by (cases "w = []") simp_all
qed simp

lemma collapse_entries:
  "list_all entry_ok es \<Longrightarrow> collapse_spaces b (entries_text es) = entries_text es"
proof (induction es arbitrary: b rule: entries_text.induct)
  case (2 e)
  then show ?case
    using collapse_word[of "entry_text e" b "[]"] entry_text_chars entry_text_not_Nil by auto
next
  case (3 e e' es)
  then show ?case
    using collapse_word[of "entry_text e" b] entry_text_chars[of e] entry_text_not_Nil[of e] by auto
qed simp

lemma dropWhile_hd: "s \<noteq> [] \<Longrightarrow> \<not> P (hd s) \<Longrightarrow> dropWhile P s = s"
  by (cases s) simp_all

lemma trim_id: "s \<noteq> [] \<Longrightarrow> \<not> is_space (hd s) \<Longrightarrow> \<not> is_space (last s) \<Longrightarrow> trim s = s"
  by (simp add: trim_def dropWhile_hd hd_rev)

lemma entries_text_ends:
  "list_all entry_ok es \<Longrightarrow> es \<noteq> [] \<Longrightarrow>
   entries_text es \<noteq> [] \<and> \<not> is_space (hd (entries_text es)) \<and> \<not> is_space (last (entries_text es))"
proof (induction es)
  case (Cons e es)
  have "\<not> is_space (hd (entry_text e))" "\<not> is_space (last (entry_text e))"
    using Cons.prems(1) entry_text_not_Nil[of e] entry_text_chars[of e] by auto
  with Cons show ?case by (cases "es = []") (simp_all add: entries_text_Cons entry_text_not_Nil)
qed simp

lemma parse_entries:
  "list_all entry_ok es \<Longrightarrow> parse_model_keys (entries_text es) = Inr (map entry_value es)"
proof (cases "es = []")
  case False
  assume "list_all entry_ok es"
  with False show ?thesis
    using entries_text_ends[of es] parse_keys_text[of es "[]"]
    by (simp add: parse_model_keys_def collapse_entries trim_id Let_def)
qed (simp add: parse_model_keys_def trim_def)

section \<open>What the options hold\<close>

text \<open>The member a path of keys leads to.\<close>

fun get_nested :: "json \<Rightarrow> string list \<Rightarrow> json option" where
  "get_nested j [] = Some j"
| "get_nested j (k # ks) =
     (case map_of (object_members j) k of None \<Rightarrow> None | Some v \<Rightarrow> get_nested v ks)"

lemma object_members_JObject [simp]: "object_members (JObject m) = m"
  by (simp add: object_members_def)

lemma get_set_nested: "ks \<noteq> [] \<Longrightarrow> get_nested (set_nested j ks v) ks = Some v"
  by (induction j ks v rule: set_nested.induct) (auto simp: Let_def)

text \<open>The child into which \<^const>\<open>set_nested\<close> descends holds what the old member held.\<close>

lemma get_nested_child:
  "get_nested (case map_of m k of Some (JObject c) \<Rightarrow> JObject c | _ \<Rightarrow> JObject []) (q # qs) =
   (case map_of m k of None \<Rightarrow> None | Some v \<Rightarrow> get_nested v (q # qs))"
  by (auto simp: object_members_def split: option.splits json.splits)

lemma get_set_nested_other:
  "a \<noteq> b \<Longrightarrow> get_nested (set_nested j (ps @ a # as) v) (ps @ b # bs) = get_nested j (ps @ b # bs)"
proof (induction ps arbitrary: j)
  case Nil
  then show ?case by (cases as) (auto simp: Let_def)
next
  case (Cons p ps)
  obtain q qs where pa: "ps @ a # as = q # qs" by (cases "ps @ a # as") auto
  obtain r rs where pb: "ps @ b # bs = r # rs" by (cases "ps @ b # bs") auto
  show ?case
    using Cons.IH[OF Cons.prems] get_nested_child[of "object_members j" p r rs]
    by (simp add: pa pb Let_def)
qed

text \<open>The extensions array that the options accumulate: strings, none of them twice.\<close>

definition extensions_ok :: "json \<Rightarrow> bool" where
  "extensions_ok j \<longleftrightarrow>
     (\<forall>xs. map_of (object_members j) EXTENSIONS_KEY = Some (JArray xs) \<longrightarrow>
        distinct xs \<and> list_all is_string xs)"

lemma set_nested_not_array [simp]: "set_nested j (k # ks) v \<noteq> JArray xs"
  using set_nested_object[of "k # ks" j v] by auto

lemma extensions_ok_set_nested:
  "extensions_ok j \<Longrightarrow> (\<And>xs. v \<noteq> JArray xs) \<Longrightarrow> extensions_ok (set_nested j ks v)"
  by (cases "(j, ks, v)" rule: set_nested.cases)
    (auto simp: extensions_ok_def Let_def split: if_splits)

lemma infer_value_not_array: "infer_value raw \<noteq> JArray xs"
  by (auto simp: infer_value_def split: option.splits)

lemma extensions_ok_append: "extensions_ok j \<Longrightarrow> extensions_ok (append_extension j p)"
  by (auto simp: extensions_ok_def append_extension_def Let_def split: option.splits json.splits)

lemma extensions_ok_apply_option: "extensions_ok j \<Longrightarrow> extensions_ok (apply_option j k v)"
  by (cases rule: apply_option_cases[of j k v])
    (simp_all add: extensions_ok_append extensions_ok_set_nested infer_value_not_array)

lemma extensions_ok_parse_options: "extensions_ok j \<Longrightarrow> extensions_ok (parse_options j s)"
  by (rule parse_options_invariant) (auto intro: extensions_ok_apply_option)

definition parsed_ok :: "session_key_with_option \<Rightarrow> bool" where
  "parsed_ok m \<longleftrightarrow> key_valid (skey m) \<and> is_object (soption m) \<and> json_wf (soption m) \<and>
     extensions_ok (soption m)"

lemma parse_keys_outcome:
  assumes "\<forall>m \<in> set ms. parsed_ok m"
  shows "\<exists>ms' rest. parse_keys ms s = Inr (ms', rest) \<and>
    (\<forall>m \<in> set ms'. parsed_ok m)"
  using assms
proof (induction ms s rule: parse_keys.induct)
  case (1 ms s)
  show ?case
  proof (cases "regex_search match_key s")
    case None
    with "1.prems" show ?thesis by (subst parse_keys.simps) simp
  next
    case (Some r)
    then obtain n v o1 rest where r: "regex_search match_key s = Some (n, v, o1, rest)"
      by (cases r) auto
    define opt where "opt = (if o1 \<noteq> [] then parse_options (JObject []) o1 else JObject [])"
    have key: "make_session_key n v = Inr (Session_key n v)"
      using search_key_valid[OF r] by (simp add: make_session_key_valid)
    have "parsed_ok \<lparr>skey = Session_key n v, soption = opt\<rparr>"
      using search_key_valid[OF r] parse_options_wf[of "JObject []"]
        parse_options_object[of "JObject []"] extensions_ok_parse_options[of "JObject []"]
      by (auto simp: parsed_ok_def key_valid_def opt_def extensions_ok_def)
    with "1.prems" have "\<forall>m \<in> set (ms @ [\<lparr>skey = Session_key n v, soption = opt\<rparr>]).
        parsed_ok m" by simp
    from "1.IH"[OF r refl refl refl opt_def key this] show ?thesis
      by (subst parse_keys.simps) (simp add: r key opt_def)
  qed
qed

section \<open>Text around the keys\<close>

lemma regex_search_skip:
  "(\<And>c u. c \<in> set junk \<Longrightarrow> m (c # u) = None) \<Longrightarrow> regex_search m (junk @ t) = regex_search m t"
  by (induction junk) auto

lemma match_key_junk: "\<not> name_char c \<Longrightarrow> match_key (c # u) = None"
  by (simp add: match_key_def)


lemma parse_keys_junk:
  assumes "\<forall>c \<in> set junk. \<not> name_char c" and "regex_search match_key t \<noteq> None"
  shows "parse_keys ms (junk @ t) = parse_keys ms t"
proof -
  have "regex_search match_key (junk @ t) = regex_search match_key t"
    using assms(1) by (intro regex_search_skip) (auto intro: match_key_junk)
  then show ?thesis
    using assms(2) by (subst (1 2) parse_keys.simps) (auto split: option.split)
qed

lemma search_junk: "\<forall>c \<in> set junk. \<not> name_char c \<Longrightarrow> regex_search match_key junk = None"
  using regex_search_skip[of junk match_key "[]"] by (simp add: match_key_junk match_key_Nil)

lemma parse_keys_text_rest:
  assumes "regex_search match_key (CHR '' '' # u) = None"
  shows "list_all entry_ok es \<Longrightarrow> es \<noteq> [] \<Longrightarrow>
    parse_keys ms (entries_text es @ CHR '' '' # u) = Inr (ms @ map entry_value es, CHR '' '' # u)"
proof (induction es arbitrary: ms)
  case (Cons e es)
  have rest: "parse_keys ms' (CHR '' '' # u) = Inr (ms', CHR '' '' # u)" for ms'
    using assms by (subst parse_keys.simps) simp
  have "regex_search match_key (entries_text es @ CHR '' '' # u) \<noteq> None" if "es \<noteq> []"
    using that Cons.prems search_hit[of match_key, OF match_key_text[of "hd es"]]
    by (cases es) (auto simp: entries_text_Cons)
  with Cons rest show ?case
    by (auto simp: entries_text_Cons parse_keys_step parse_keys_blank)
qed simp

lemma collapse_entries_rest:
  "list_all entry_ok es \<Longrightarrow> es \<noteq> [] \<Longrightarrow>
   collapse_spaces b (entries_text es @ t) = entries_text es @ collapse_spaces False t"
proof (induction es arbitrary: b)
  case (Cons e es)
  then show ?case
    using collapse_word[of "entry_text e" b] entry_text_chars[of e] entry_text_not_Nil[of e]
    by (cases "es = []") (simp_all add: entries_text_Cons)
qed simp

section \<open>Properties\<close>

text \<open>
  C34. For every list text, \<^verbatim>\<open>session_key_with_option::parse\<close> either returns entries whose keys
  all pass the checks of the \<^verbatim>\<open>session_key\<close> constructor and whose options are well-formed
  objects with a duplicate-free \<open>extensions\<close> array of strings, or throws the one
  \<^verbatim>\<open>runtime_error\<close> \<open>Invalid model key list\<close>: the constructor never throws from here.
\<close>

theorem parse_model_keys_outcome:
  "case parse_model_keys s of
     Inl e \<Rightarrow> e = Orts_exception runtime_error (''Invalid model key list: '' @ s)
   | Inr ms \<Rightarrow> list_all parsed_ok ms"
proof -
  obtain ms rest where "parse_keys [] (trim (collapse_spaces False s)) = Inr (ms, rest)"
    and "\<forall>m \<in> set ms. parsed_ok m"
    using parse_keys_outcome[of "[]" "trim (collapse_spaces False s)"] by fastforce
  then show ?thesis by (simp add: parse_model_keys_def Let_def list_all_iff)
qed

text \<open>
  C33. Round trip: a list of valid keys, each with options whose names and values use the
  characters of the grammar, printed in the documented form
  \<open>name:version(opt1=val1,opt2=val2) name:version ...\<close>, is parsed back to exactly these keys in
  this order, each with the object that applying its options from left to right builds.
\<close>

theorem parse_entries_text:
  "list_all entry_ok es \<Longrightarrow> parse_model_keys (entries_text es) = Inr (map entry_value es)"
  by (rule parse_entries)

theorem parse_entries_text_witness:
  "parse_model_keys ''bert:v1(cuda.device_id=0,extensions=/l.so) m:a/b'' =
   Inr [entry_value (Session_key ''bert'' ''v1'', [(''cuda.device_id'', ''0''), (''extensions'', ''/l.so'')]),
        entry_value (Session_key ''m'' ''a/b'', [])]"
proof -
  have "list_all entry_ok
    [(Session_key ''bert'' ''v1'', [(''cuda.device_id'', ''0''), (''extensions'', ''/l.so'')]),
     (Session_key ''m'' ''a/b'', [])]"
    by code_simp
  from parse_entries_text[OF this] show ?thesis
    by (simp add: entry_text_def option_text_def)
qed

text \<open>
  Dotted options: \<^verbatim>\<open>set_nested\<close> stores the value at exactly the path named by the option;
  every path that branches off from it leads where it led before.
\<close>

theorem set_nested_lookup:
  assumes "ks \<noteq> []"
  shows "get_nested (set_nested j ks v) ks = Some v \<and>
    (\<forall>ps a as b bs. ks = ps @ a # as \<and> a \<noteq> b \<longrightarrow>
       get_nested (set_nested j ks v) (ps @ b # bs) = get_nested j (ps @ b # bs))"
  using assms by (simp add: get_set_nested get_set_nested_other)

theorem set_nested_lookup_witness:
  "get_nested (set_nested (JObject [(''cuda'', JBool True)]) [''cuda'', ''device_id''] (JInt 1))
     [''cuda'', ''device_id''] = Some (JInt 1)"
  using set_nested_lookup[of "[''cuda'', ''device_id'']"] by simp

text \<open>
  Text that is no key is treated differently on the two sides of the list: before a key it
  is skipped in silence, because \<^verbatim>\<open>regex_search\<close> is not anchored; after the last key
  the whole list is rejected.
\<close>

theorem junk_around_keys:
  assumes "list_all entry_ok es" and "es \<noteq> []"
    and "junk \<noteq> []" and "\<forall>c \<in> set junk. \<not> name_char c \<and> \<not> is_space c"
  shows "parse_model_keys (junk @ entries_text es) = Inr (map entry_value es) \<and>
    parse_model_keys (entries_text es @ CHR '' '' # junk) =
      Inl (Orts_exception runtime_error
        (''Invalid model key list: '' @ entries_text es @ CHR '' '' # junk))"
proof -
  have free: "\<forall>c \<in> set junk. \<not> is_space c" and junk: "\<forall>c \<in> set junk. \<not> name_char c"
    using assms(4) by auto
  have ends: "\<not> is_space (hd junk)" "\<not> is_space (last junk)" using assms(3) free by auto
  note es = entries_text_ends[OF assms(1,2)]
  have "trim (collapse_spaces False (junk @ entries_text es)) = junk @ entries_text es"
    using collapse_word[OF free assms(3)] collapse_entries[OF assms(1)] trim_id ends es assms(3)
    by simp
  moreover have "parse_keys [] (junk @ entries_text es) = Inr (map entry_value es, [])"
    using parse_keys_junk[OF junk search_entries_text[OF assms(1,2)]] parse_keys_text[OF assms(1)]
    by simp
  moreover have "collapse_spaces True junk = junk"
    using collapse_word[OF free assms(3), of True "[]"] by simp
  then have "trim (collapse_spaces False (entries_text es @ CHR '' '' # junk))
      = entries_text es @ CHR '' '' # junk"
    using collapse_entries_rest[OF assms(1,2)] trim_id ends es assms(3) by simp
  moreover have "regex_search match_key (CHR '' '' # junk) = None"
    using search_junk[OF junk] by (simp add: match_key_blank)
  from parse_keys_text_rest[OF this assms(1,2), of "[]"]
  have "parse_keys [] (entries_text es @ CHR '' '' # junk)
      = Inr (map entry_value es, CHR '' '' # junk)" by simp
  ultimately show ?thesis
    using es by (simp add: parse_model_keys_def Let_def)
qed

theorem junk_around_keys_witness:
  "parse_model_keys ''!!m:v'' = Inr [entry_value (Session_key ''m'' ''v'', [])] \<and>
   parse_model_keys ''m:v !!'' =
     Inl (Orts_exception runtime_error ''Invalid model key list: m:v !!'')"
proof -
  have "list_all entry_ok [(Session_key ''m'' ''v'', [])]"
    and "\<forall>c \<in> set ''!!''. \<not> name_char c \<and> \<not> is_space c" by code_simp+
  from junk_around_keys[OF this(1) _ _ this(2)] show ?thesis
    by (simp add: entry_text_def)
qed

end
