(* ===== verification/Json_Lexer.thy ===== *)
theory Json_Lexer
  imports Json
begin

text \<open>
  The scanner of \<^verbatim>\<open>src/src/utils/json.hpp\<close> (class \<^verbatim>\<open>lexer\<close>). Its members are the fields
  of a record; an end of input is \<^const>\<open>None\<close> as the current character. The server never turns
  comments on, so \<^verbatim>\<open>scan_comment\<close> is unreachable; the process never sets a locale, so the
  decimal point is a dot.
\<close>

section \<open>State\<close>

datatype token_type =
    T_uninitialized | T_literal_true | T_literal_false | T_literal_null | T_value_string
  | T_value_unsigned | T_value_integer | T_value_float | T_begin_array | T_begin_object
  | T_end_array | T_end_object | T_name_separator | T_value_separator | T_parse_error
  | T_end_of_input | T_literal_or_value

fun token_type_name :: "token_type \<Rightarrow> string" where
  "token_type_name T_uninitialized = ''<uninitialized>''"
| "token_type_name T_literal_true = ''true literal''"
| "token_type_name T_literal_false = ''false literal''"
| "token_type_name T_literal_null = ''null literal''"
| "token_type_name T_value_string = ''string literal''"
| "token_type_name T_value_unsigned = ''number literal''"
| "token_type_name T_value_integer = ''number literal''"
| "token_type_name T_value_float = ''number literal''"
| "token_type_name T_begin_array = [CHR 0x27, CHR ''['', CHR 0x27]"
| "token_type_name T_begin_object = [CHR 0x27, CHR ''{'', CHR 0x27]"
| "token_type_name T_end_array = [CHR 0x27, CHR '']'', CHR 0x27]"
| "token_type_name T_end_object = [CHR 0x27, CHR ''}'', CHR 0x27]"
| "token_type_name T_name_separator = [CHR 0x27, CHR '':'', CHR 0x27]"
| "token_type_name T_value_separator = [CHR 0x27, CHR '','', CHR 0x27]"
| "token_type_name T_parse_error = ''<parse error>''"
| "token_type_name T_end_of_input = ''end of input''"
| "token_type_name T_literal_or_value =
     [CHR 0x27, CHR ''['', CHR 0x27] @ '', '' @ [CHR 0x27, CHR ''{'', CHR 0x27] @ '', or a literal''"

record lexer =
  ia :: string
  current :: "char option"
  next_unget :: bool
  chars_read_total :: nat
  chars_read_current_line :: nat
  lines_read :: nat
  token_string :: string
  token_buffer :: string
  error_message :: string
  value_integer :: int
  value_unsigned :: int
  value_float :: dbl

definition init_lexer :: "string \<Rightarrow> lexer" where
  "init_lexer input =
     \<lparr>ia = input, current = None, next_unget = False, chars_read_total = 0,
      chars_read_current_line = 0, lines_read = 0, token_string = [], token_buffer = [],
      error_message = [], value_integer = 0, value_unsigned = 0, value_float = Finite False 0\<rparr>"

definition reset :: "lexer \<Rightarrow> lexer" where
  "reset s = s\<lparr>token_buffer := [],
     token_string := [case current s of Some c \<Rightarrow> c | None \<Rightarrow> CHR 0xFF]\<rparr>"

definition read_char :: "lexer \<Rightarrow> lexer" where
  "read_char s =
     (if next_unget s then s\<lparr>next_unget := False\<rparr>
      else case ia s of
             [] \<Rightarrow> s\<lparr>current := None\<rparr>
           | c # cs \<Rightarrow> s\<lparr>current := Some c, ia := cs\<rparr>)"

definition note_char :: "lexer \<Rightarrow> lexer" where
  "note_char s =
     (case current s of
        None \<Rightarrow> s
      | Some c \<Rightarrow>
          (let s = s\<lparr>token_string := token_string s @ [c]\<rparr>
           in if c = CHR 0x0A
              then s\<lparr>lines_read := lines_read s + 1, chars_read_current_line := 0\<rparr>
              else s))"

text \<open>\<^verbatim>\<open>get\<close>: the new state; the character read is its \<^const>\<open>current\<close>.\<close>

definition get_char :: "lexer \<Rightarrow> lexer" where
  "get_char s =
     note_char (read_char
       (s\<lparr>chars_read_total := chars_read_total s + 1,
          chars_read_current_line := chars_read_current_line s + 1\<rparr>))"

definition unget :: "lexer \<Rightarrow> lexer" where
  "unget s =
     (let s = s\<lparr>next_unget := True, chars_read_total := chars_read_total s - 1\<rparr>;
          s = (if chars_read_current_line s = 0
               then (if lines_read s > 0 then s\<lparr>lines_read := lines_read s - 1\<rparr> else s)
               else s\<lparr>chars_read_current_line := chars_read_current_line s - 1\<rparr>)
      in if current s \<noteq> None then s\<lparr>token_string := butlast (token_string s)\<rparr> else s)"

definition add :: "char \<Rightarrow> lexer \<Rightarrow> lexer" where
  "add c s = s\<lparr>token_buffer := token_buffer s @ [c]\<rparr>"

definition add_current :: "lexer \<Rightarrow> lexer" where
  "add_current s = add (case current s of Some c \<Rightarrow> c | None \<Rightarrow> CHR 0xFF) s"

definition fail :: "string \<Rightarrow> lexer \<Rightarrow> lexer \<times> token_type" where
  "fail msg s = (s\<lparr>error_message := msg\<rparr>, T_parse_error)"

text \<open>The code of the current character: its byte, or -1 at the end of the input.\<close>

definition cur :: "lexer \<Rightarrow> int" where
  "cur s = (case current s of Some c \<Rightarrow> of_char c | None \<Rightarrow> -1)"

section \<open>How much input is left\<close>

definition remaining :: "lexer \<Rightarrow> nat" where
  "remaining s = length (ia s) + (if next_unget s \<and> current s \<noteq> None then 1 else 0)"

lemma remaining_get: "remaining (get_char s) \<le> remaining s"
  by (auto simp: remaining_def get_char_def read_char_def note_char_def Let_def
      split: list.splits option.splits)

lemma remaining_get_less: "cur (get_char s) \<noteq> -1 \<Longrightarrow> remaining (get_char s) < remaining s"
  by (auto simp: remaining_def get_char_def read_char_def note_char_def Let_def cur_def
      split: list.splits option.splits if_splits)

lemma remaining_updates [simp]:
  "remaining (reset s) = remaining s" "remaining (add c s) = remaining s"
  "remaining (s\<lparr>error_message := m\<rparr>) = remaining s"
  "remaining (s\<lparr>value_integer := i\<rparr>) = remaining s"
  "remaining (s\<lparr>value_unsigned := i\<rparr>) = remaining s"
  "remaining (s\<lparr>value_float := d\<rparr>) = remaining s"
  "remaining (add_current s) = remaining s"
  by (auto simp: remaining_def reset_def add_def add_current_def split: option.split)

lemma cur_updates [simp]:
  "cur (reset s) = cur s" "cur (add c s) = cur s" "cur (add_current s) = cur s"
  by (auto simp: cur_def reset_def add_def add_current_def split: option.split)

lemma fail_remaining [simp]: "remaining (fst (fail m s)) = remaining s" "snd (fail m s) = T_parse_error"
  by (auto simp: fail_def)

section \<open>Strings\<close>

text \<open>Four hexadecimal digits; \<^const>\<open>None\<close> (the code's -1) at the first other character.\<close>

definition hex_value :: "int \<Rightarrow> int option" where
  "hex_value c =
     (if 0x30 \<le> c \<and> c \<le> 0x39 then Some (c - 0x30)
      else if 0x41 \<le> c \<and> c \<le> 0x46 then Some (c - 0x37)
      else if 0x61 \<le> c \<and> c \<le> 0x66 then Some (c - 0x57)
      else None)"

fun get_codepoint_loop :: "nat list \<Rightarrow> int \<Rightarrow> lexer \<Rightarrow> lexer \<times> int option" where
  "get_codepoint_loop [] codepoint s = (s, Some codepoint)"
| "get_codepoint_loop (factor # factors) codepoint s =
     (let s = get_char s
      in case hex_value (cur s) of
           Some d \<Rightarrow> get_codepoint_loop factors (codepoint + d * 2 ^ factor) s
         | None \<Rightarrow> (s, None))"

definition get_codepoint :: "lexer \<Rightarrow> lexer \<times> int option" where
  "get_codepoint s = get_codepoint_loop [12, 8, 4, 0] 0 s"

fun check_ranges :: "(int \<times> int) list \<Rightarrow> lexer \<Rightarrow> lexer \<times> bool" where
  "check_ranges [] s = (s, True)"
| "check_ranges ((lo, hi) # ranges) s =
     (let s = get_char s
      in if lo \<le> cur s \<and> cur s \<le> hi then check_ranges ranges (add_current s)
         else (s\<lparr>error_message := ''invalid string: ill-formed UTF-8 byte''\<rparr>, False))"

definition next_byte_in_range :: "(int \<times> int) list \<Rightarrow> lexer \<Rightarrow> lexer \<times> bool" where
  "next_byte_in_range ranges s = check_ranges ranges (add_current s)"

definition utf8_encode :: "int \<Rightarrow> string" where
  "utf8_encode codepoint =
     (let byte = (\<lambda>i. char_of (nat i))
      in if codepoint < 0x80 then [byte codepoint]
         else if codepoint \<le> 0x7FF
         then [byte (0xC0 + codepoint div 64), byte (0x80 + codepoint mod 64)]
         else if codepoint \<le> 0xFFFF
         then [byte (0xE0 + codepoint div 4096), byte (0x80 + codepoint div 64 mod 64),
               byte (0x80 + codepoint mod 64)]
         else [byte (0xF0 + codepoint div 262144), byte (0x80 + codepoint div 4096 mod 64),
               byte (0x80 + codepoint div 64 mod 64), byte (0x80 + codepoint mod 64)])"

definition BAD_HEX :: string where
  "BAD_HEX = ''invalid string: '' @ [CHR 0x27, CHR 0x5C, CHR ''u'', CHR 0x27] @
     '' must be followed by 4 hex digits''"

definition BAD_HIGH :: string where
  "BAD_HIGH = ''invalid string: surrogate U+D800..U+DBFF must be followed by U+DC00..U+DFFF''"

definition BAD_LOW :: string where
  "BAD_LOW = ''invalid string: surrogate U+DC00..U+DFFF must follow U+D800..U+DBFF''"

text \<open>After \<open>\u\<close>: \<^const>\<open>None\<close> to go on with the next character, or the final token.\<close>

definition scan_unicode :: "lexer \<Rightarrow> lexer \<times> token_type option" where
  "scan_unicode s =
     (let stop = (\<lambda>msg s. (s\<lparr>error_message := msg\<rparr>, Some T_parse_error));
          emit = (\<lambda>cp s. (foldl (\<lambda>s c. add c s) s (utf8_encode cp), None));
          (s, codepoint1) = get_codepoint s
      in case codepoint1 of
           None \<Rightarrow> stop BAD_HEX s
         | Some c1 \<Rightarrow>
             (if 0xD800 \<le> c1 \<and> c1 \<le> 0xDBFF
              then (let s = get_char s
                    in if cur s \<noteq> 0x5C then stop BAD_HIGH s
                       else let s = get_char s
                            in if cur s \<noteq> 0x75 then stop BAD_HIGH s
                               else let (s, codepoint2) = get_codepoint s
                                    in case codepoint2 of
                                         None \<Rightarrow> stop BAD_HEX s
                                       | Some c2 \<Rightarrow>
                                           (if 0xDC00 \<le> c2 \<and> c2 \<le> 0xDFFF
                                            then emit (c1 * 1024 + c2 - 0x35FDC00) s
                                            else stop BAD_HIGH s))
              else if 0xDC00 \<le> c1 \<and> c1 \<le> 0xDFFF then stop BAD_LOW s
              else emit c1 s))"

definition scan_escape :: "lexer \<Rightarrow> lexer \<times> token_type option" where
  "scan_escape s =
     (let s = get_char s; c = cur s
      in if c = 0x22 then (add (CHR 0x22) s, None)
         else if c = 0x5C then (add (CHR 0x5C) s, None)
         else if c = 0x2F then (add (CHR 0x2F) s, None)
         else if c = 0x62 then (add (CHR 0x08) s, None)
         else if c = 0x66 then (add (CHR 0x0C) s, None)
         else if c = 0x6E then (add (CHR 0x0A) s, None)
         else if c = 0x72 then (add (CHR 0x0D) s, None)
         else if c = 0x74 then (add (CHR 0x09) s, None)
         else if c = 0x75 then scan_unicode s
         else (s\<lparr>error_message := ''invalid string: forbidden character after backslash''\<rparr>,
               Some T_parse_error))"

definition control_names :: "string list" where
  "control_names =
     [''NUL'', ''SOH'', ''STX'', ''ETX'', ''EOT'', ''ENQ'', ''ACK'', ''BEL'', ''BS'', ''HT'', ''LF'',
      ''VT'', ''FF'', ''CR'', ''SO'', ''SI'', ''DLE'', ''DC1'', ''DC2'', ''DC3'', ''DC4'', ''NAK'',
      ''SYN'', ''ETB'', ''CAN'', ''EM'', ''SUB'', ''ESC'', ''FS'', ''GS'', ''RS'', ''US'']"

definition hex_upper :: "nat \<Rightarrow> char" where
  "hex_upper d = (if d < 10 then char_of (48 + d) else char_of (55 + d))"

definition hex4 :: "nat \<Rightarrow> string" where
  "hex4 n = [hex_upper (n div 4096 mod 16), hex_upper (n div 256 mod 16),
     hex_upper (n div 16 mod 16), hex_upper (n mod 16)]"

definition control_message :: "nat \<Rightarrow> string" where
  "control_message c =
     ''invalid string: control character U+'' @ hex4 c @ '' ('' @ control_names ! c @
     '') must be escaped to '' @ CHR 0x5C # CHR ''u'' # hex4 c @
     (if c = 8 then '' or '' @ [CHR 0x5C, CHR ''b''] else if c = 9 then '' or '' @ [CHR 0x5C, CHR ''t'']
      else if c = 10 then '' or '' @ [CHR 0x5C, CHR ''n''] else if c = 12 then '' or '' @ [CHR 0x5C, CHR ''f'']
      else if c = 13 then '' or '' @ [CHR 0x5C, CHR ''r''] else [])"

text \<open>
  The body of the loop of \<^verbatim>\<open>scan_string\<close>: it reads one character, with the bytes that belong
  to it, and says whether to go on (\<^const>\<open>None\<close>) or which token to return.
\<close>

definition scan_string_step :: "lexer \<Rightarrow> lexer \<times> token_type option" where
  "scan_string_step s =
     (let s = get_char s; c = cur s;
          stop = (\<lambda>msg. (s\<lparr>error_message := msg\<rparr>, Some T_parse_error));
          bytes = (\<lambda>ranges. case next_byte_in_range ranges s of
                     (s, ok) \<Rightarrow> (s, if ok then None else Some T_parse_error))
      in if c = -1 then stop ''invalid string: missing closing quote''
         else if c = 0x22 then (s, Some T_value_string)
         else if c = 0x5C then scan_escape s
         else if c \<le> 0x1F then stop (control_message (nat c))
         else if c \<le> 0x7F then (add_current s, None)
         else if 0xC2 \<le> c \<and> c \<le> 0xDF then bytes [(0x80, 0xBF)]
         else if c = 0xE0 then bytes [(0xA0, 0xBF), (0x80, 0xBF)]
         else if 0xE1 \<le> c \<and> c \<le> 0xEC \<or> c = 0xEE \<or> c = 0xEF then bytes [(0x80, 0xBF), (0x80, 0xBF)]
         else if c = 0xED then bytes [(0x80, 0x9F), (0x80, 0xBF)]
         else if c = 0xF0 then bytes [(0x90, 0xBF), (0x80, 0xBF), (0x80, 0xBF)]
         else if 0xF1 \<le> c \<and> c \<le> 0xF3 then bytes [(0x80, 0xBF), (0x80, 0xBF), (0x80, 0xBF)]
         else if c = 0xF4 then bytes [(0x80, 0x8F), (0x80, 0xBF), (0x80, 0xBF)]
         else stop ''invalid string: ill-formed UTF-8 byte'')"

lemma remaining_get_le [intro]: "remaining s \<le> n \<Longrightarrow> remaining (get_char s) \<le> n"
  using remaining_get[of s] by simp

lemma remaining_codepoint: "remaining (fst (get_codepoint_loop fs i s)) \<le> remaining s"
proof (induction fs i s rule: get_codepoint_loop.induct)
  case (2 f fs i s)
  then show ?case
    using remaining_get[of s] by (auto simp: Let_def split: option.split intro: order_trans)
qed simp

lemma remaining_ranges: "remaining (fst (check_ranges rs s)) \<le> remaining s"
proof (induction rs s rule: check_ranges.induct)
  case (2 lo hi rs s)
  then show ?case
    using remaining_get[of s] by (auto simp: Let_def intro: order_trans)
qed simp

lemma remaining_adds [simp]: "remaining (foldl (\<lambda>s c. add c s) s cs) = remaining s"
  by (induction cs arbitrary: s) auto

lemma remaining_unicode: "remaining (fst (scan_unicode s)) \<le> remaining s"
proof -
  obtain s1 c1 where 1: "get_codepoint s = (s1, c1)" by fastforce
  have s1: "remaining s1 \<le> remaining s"
    using remaining_codepoint[of "[12, 8, 4, 0]" 0 s] 1 by (simp add: get_codepoint_def)
  obtain s2 c2 where 2: "get_codepoint (get_char (get_char s1)) = (s2, c2)" by fastforce
  have s2: "remaining s2 \<le> remaining s"
    using remaining_codepoint[of "[12, 8, 4, 0]" 0 "get_char (get_char s1)"] 2 s1
      remaining_get[of "get_char s1"] remaining_get[of s1]
    by (simp add: get_codepoint_def)
  show ?thesis
    using s1 s2 remaining_get[of "get_char s1"] remaining_get[of s1]
    by (auto simp: scan_unicode_def 1 2 Let_def split: option.split)
qed

lemma remaining_escape: "remaining (fst (scan_escape s)) \<le> remaining s"
  using remaining_get[of s] remaining_unicode[of "get_char s"]
  by (auto simp: scan_escape_def Let_def)

lemma remaining_next_bytes: "remaining (fst (next_byte_in_range rs s)) \<le> remaining s"
  using remaining_ranges[of rs "add_current s"] by (simp add: next_byte_in_range_def)

lemma remaining_string_step: "remaining (fst (scan_string_step s)) \<le> remaining (get_char s)"
  by (simp add: scan_string_step_def Let_def case_prod_unfold remaining_escape
      remaining_next_bytes)

lemma scan_string_step_less:
  assumes "scan_string_step s = (s', None)"
  shows "remaining s' < remaining s"
proof -
  have "cur (get_char s) \<noteq> -1"
    using assms by (auto simp: scan_string_step_def Let_def)
  from remaining_get_less[OF this] show ?thesis
    using remaining_string_step[of s] assms by simp
qed

function scan_string_loop :: "lexer \<Rightarrow> lexer \<times> token_type" where
  "scan_string_loop s =
     (case scan_string_step s of
        (s', None) \<Rightarrow> scan_string_loop s'
      | (s', Some t) \<Rightarrow> (s', t))"
  by pat_completeness auto
termination
  by (relation "measure remaining") (auto intro: scan_string_step_less)

declare scan_string_loop.simps [simp del]

definition scan_string :: "lexer \<Rightarrow> lexer \<times> token_type" where
  "scan_string s = scan_string_loop (reset s)"

section \<open>Numbers\<close>

text \<open>
  \<^verbatim>\<open>strtod\<close> on a text of the number grammar: the nearest double to the decimal it denotes,
  an infinity when it is out of range.
\<close>

definition exponent_value :: "string \<Rightarrow> int" where
  "exponent_value t =
     (case t of
        c # r \<Rightarrow> (if c = CHR ''-'' then - digits_value r
                   else if c = CHR ''+'' then digits_value r else digits_value t)
      | [] \<Rightarrow> 0)"

definition strtod :: "string \<Rightarrow> dbl" where
  "strtod text =
     (let neg = (text \<noteq> [] \<and> hd text = CHR ''-'');
          body = (if neg then tl text else text);
          whole = takeWhile is_digit body; r = dropWhile is_digit body;
          frac = (case r of c # t \<Rightarrow> (if c = CHR ''.'' then takeWhile is_digit t else []) | [] \<Rightarrow> []);
          r = (case r of c # t \<Rightarrow> (if c = CHR ''.'' then dropWhile is_digit t else r) | [] \<Rightarrow> []);
          e = (case r of _ # t \<Rightarrow> exponent_value t | [] \<Rightarrow> 0) - int (length frac);
          m = rat_of_int (digits_value (whole @ frac))
      in to_double neg (if 0 \<le> e then m * 10 ^ nat e else m / 10 ^ nat (- e)))"

definition cur_digit :: "lexer \<Rightarrow> bool" where
  "cur_digit s \<longleftrightarrow> 0x30 \<le> cur s \<and> cur s \<le> 0x39"

text \<open>The label \<^verbatim>\<open>scan_number_done\<close>: an integer out of range becomes a float.\<close>

definition scan_number_done :: "token_type \<Rightarrow> lexer \<Rightarrow> lexer \<times> token_type" where
  "scan_number_done number_type s =
     (let s = unget s; text = token_buffer s;
          as_float = (s\<lparr>value_float := strtod text\<rparr>, T_value_float)
      in if number_type = T_value_unsigned
         then (let x = digits_value text
               in if in_unsigned 64 x then (s\<lparr>value_unsigned := x\<rparr>, T_value_unsigned) else as_float)
         else if number_type = T_value_integer
         then (let x = - digits_value (tl text)
               in if in_signed 64 x then (s\<lparr>value_integer := x\<rparr>, T_value_integer) else as_float)
         else as_float)"

function scan_number_any2 :: "token_type \<Rightarrow> lexer \<Rightarrow> lexer \<times> token_type" where
  "scan_number_any2 number_type s =
     (let s = get_char s
      in if cur_digit s then scan_number_any2 number_type (add_current s)
         else scan_number_done number_type s)"
  by pat_completeness auto
termination
  by (relation "measure (\<lambda>(_, s). remaining s)")
    (auto simp: cur_digit_def intro: remaining_get_less)

definition scan_number_sign :: "token_type \<Rightarrow> lexer \<Rightarrow> lexer \<times> token_type" where
  "scan_number_sign number_type s =
     (let s = get_char s
      in if cur_digit s then scan_number_any2 number_type (add_current s)
         else fail ''invalid number; expected digit after exponent sign'' s)"

definition scan_number_exponent :: "lexer \<Rightarrow> lexer \<times> token_type" where
  "scan_number_exponent s =
     (let number_type = T_value_float; s = get_char s; c = cur s
      in if c = 0x2B \<or> c = 0x2D then scan_number_sign number_type (add_current s)
         else if cur_digit s then scan_number_any2 number_type (add_current s)
         else fail (''invalid number; expected '' @
           [CHR 0x27, CHR ''+'', CHR 0x27, CHR '','', CHR '' '', CHR 0x27, CHR ''-'', CHR 0x27] @
           '', or digit after exponent'') s)"

function scan_number_decimal2 :: "token_type \<Rightarrow> lexer \<Rightarrow> lexer \<times> token_type" where
  "scan_number_decimal2 number_type s =
     (let s = get_char s; c = cur s
      in if cur_digit s then scan_number_decimal2 number_type (add_current s)
         else if c = 0x65 \<or> c = 0x45 then scan_number_exponent (add_current s)
         else scan_number_done number_type s)"
  by pat_completeness auto
termination
  by (relation "measure (\<lambda>(_, s). remaining s)")
    (auto simp: cur_digit_def intro: remaining_get_less)

definition scan_number_decimal1 :: "lexer \<Rightarrow> lexer \<times> token_type" where
  "scan_number_decimal1 s =
     (let number_type = T_value_float; s = get_char s
      in if cur_digit s then scan_number_decimal2 number_type (add_current s)
         else fail (''invalid number; expected digit after '' @ [CHR 0x27, CHR ''.'', CHR 0x27]) s)"

function scan_number_any1 :: "token_type \<Rightarrow> lexer \<Rightarrow> lexer \<times> token_type" where
  "scan_number_any1 number_type s =
     (let s = get_char s; c = cur s
      in if cur_digit s then scan_number_any1 number_type (add_current s)
         else if c = 0x2E then scan_number_decimal1 (add (CHR ''.'') s)
         else if c = 0x65 \<or> c = 0x45 then scan_number_exponent (add_current s)
         else scan_number_done number_type s)"
  by pat_completeness auto
termination
  by (relation "measure (\<lambda>(_, s). remaining s)")
    (auto simp: cur_digit_def intro: remaining_get_less)

declare scan_number_any1.simps [simp del] scan_number_decimal2.simps [simp del]
  scan_number_any2.simps [simp del]

definition scan_number_zero :: "token_type \<Rightarrow> lexer \<Rightarrow> lexer \<times> token_type" where
  "scan_number_zero number_type s =
     (let s = get_char s; c = cur s
      in if c = 0x2E then scan_number_decimal1 (add (CHR ''.'') s)
         else if c = 0x65 \<or> c = 0x45 then scan_number_exponent (add_current s)
         else scan_number_done number_type s)"

definition scan_number_minus :: "lexer \<Rightarrow> lexer \<times> token_type" where
  "scan_number_minus s =
     (let number_type = T_value_integer; s = get_char s
      in if cur s = 0x30 then scan_number_zero number_type (add_current s)
         else if cur_digit s then scan_number_any1 number_type (add_current s)
         else fail (''invalid number; expected digit after '' @ [CHR 0x27, CHR ''-'', CHR 0x27]) s)"

definition scan_number :: "lexer \<Rightarrow> lexer \<times> token_type" where
  "scan_number s =
     (let s = reset s; number_type = T_value_unsigned
      in if cur s = 0x2D then scan_number_minus (add_current s)
         else if cur s = 0x30 then scan_number_zero number_type (add_current s)
         else scan_number_any1 number_type (add_current s))"

section \<open>Tokens\<close>

fun scan_literal_rest :: "string \<Rightarrow> token_type \<Rightarrow> lexer \<Rightarrow> lexer \<times> token_type" where
  "scan_literal_rest [] return_type s = (s, return_type)"
| "scan_literal_rest (c # cs) return_type s =
     (let s = get_char s
      in if current s = Some c \<or> current s = None \<and> c = CHR 0xFF
         then scan_literal_rest cs return_type s
         else fail ''invalid literal'' s)"

definition scan_literal :: "string \<Rightarrow> token_type \<Rightarrow> lexer \<Rightarrow> lexer \<times> token_type" where
  "scan_literal literal_text return_type s = scan_literal_rest (tl literal_text) return_type s"

definition skip_bom :: "lexer \<Rightarrow> lexer \<times> bool" where
  "skip_bom s =
     (let s = get_char s
      in if cur s = 0xEF
         then (let s = get_char s
               in if cur s \<noteq> 0xBB then (s, False)
                  else let s = get_char s in (s, cur s = 0xBF))
         else (unget s, True))"

definition is_ws :: "int \<Rightarrow> bool" where
  "is_ws c \<longleftrightarrow> c = 0x20 \<or> c = 0x09 \<or> c = 0x0A \<or> c = 0x0D"

function skip_whitespace :: "lexer \<Rightarrow> lexer" where
  "skip_whitespace s =
     (let s = get_char s in if is_ws (cur s) then skip_whitespace s else s)"
  by pat_completeness auto
termination
  by (relation "measure remaining") (auto simp: is_ws_def intro: remaining_get_less)

declare skip_whitespace.simps [simp del]

definition scan_token :: "lexer \<Rightarrow> lexer \<times> token_type" where
  "scan_token s =
     (let c = cur s
      in if c = 0x5B then (s, T_begin_array)
         else if c = 0x5D then (s, T_end_array)
         else if c = 0x7B then (s, T_begin_object)
         else if c = 0x7D then (s, T_end_object)
         else if c = 0x3A then (s, T_name_separator)
         else if c = 0x2C then (s, T_value_separator)
         else if c = 0x74 then scan_literal ''true'' T_literal_true s
         else if c = 0x66 then scan_literal ''false'' T_literal_false s
         else if c = 0x6E then scan_literal ''null'' T_literal_null s
         else if c = 0x22 then scan_string s
         else if c = 0x2D \<or> cur_digit s then scan_number s
         else if c = 0 \<or> c = -1 then (s, T_end_of_input)
         else fail ''invalid literal'' s)"

definition scan :: "lexer \<Rightarrow> lexer \<times> token_type" where
  "scan s =
     (let (s, bom_ok) = (if chars_read_total s = 0 then skip_bom s else (s, True))
      in if \<not> bom_ok
         then fail ''invalid BOM; must be 0xEF 0xBB 0xBF if given'' s
         else scan_token (skip_whitespace s))"

definition get_token_string :: "lexer \<Rightarrow> string" where
  "get_token_string s =
     concat (map (\<lambda>c. if (of_char c :: nat) \<le> 0x1F then ''<U+'' @ hex4 (of_char c) @ ''>'' else [c])
       (token_string s))"

section \<open>Every token consumes input\<close>

lemma note_char_sel [simp]:
  "ia (note_char s) = ia s" "current (note_char s) = current s"
  "next_unget (note_char s) = next_unget s" "token_buffer (note_char s) = token_buffer s"
  by (simp_all add: note_char_def Let_def split: option.split)

lemma get_char_sel:
  "ia (get_char s) = (if next_unget s then ia s else tl (ia s))"
  "current (get_char s) =
     (if next_unget s then current s else case ia s of [] \<Rightarrow> None | c # _ \<Rightarrow> Some c)"
  "\<not> next_unget (get_char s)" "token_buffer (get_char s) = token_buffer s"
  by (simp_all add: get_char_def read_char_def split: list.split)

lemma unget_sel [simp]:
  "ia (unget s) = ia s" "current (unget s) = current s" "next_unget (unget s)"
  "token_buffer (unget s) = token_buffer s"
  by (simp_all add: unget_def Let_def)

lemma remaining_unget_get: "remaining (unget (get_char s)) \<le> remaining s"
  by (simp add: remaining_def get_char_sel split: list.split)

lemma remaining_number_done: "remaining (fst (scan_number_done nt (get_char s))) \<le> remaining s"
  using remaining_unget_get[of s] by (auto simp: scan_number_done_def Let_def)

lemma remaining_any2: "remaining (fst (scan_number_any2 nt s)) \<le> remaining s"
proof (induction nt s rule: scan_number_any2.induct)
  case (1 nt s)
  then show ?case
    using remaining_get[of s] remaining_number_done[of nt s]
    by (subst scan_number_any2.simps) (auto simp: Let_def)
qed

lemma remaining_sign: "remaining (fst (scan_number_sign nt s)) \<le> remaining s"
  using remaining_get[of s] remaining_any2[of nt "add_current (get_char s)"]
  by (auto simp: scan_number_sign_def Let_def)

lemma remaining_exponent: "remaining (fst (scan_number_exponent s)) \<le> remaining s"
  using remaining_get[of s] remaining_any2[of T_value_float "add_current (get_char s)"]
    remaining_sign[of T_value_float "add_current (get_char s)"]
  by (auto simp: scan_number_exponent_def Let_def)

lemma remaining_decimal2: "remaining (fst (scan_number_decimal2 nt s)) \<le> remaining s"
proof (induction nt s rule: scan_number_decimal2.induct)
  case (1 nt s)
  show ?case
    using 1[OF refl refl] remaining_get[of s] remaining_number_done[of nt s]
      remaining_exponent[of "add_current (get_char s)"]
    by (subst scan_number_decimal2.simps) (auto simp: Let_def)
qed

lemma remaining_decimal1: "remaining (fst (scan_number_decimal1 s)) \<le> remaining s"
  using remaining_get[of s] remaining_decimal2[of T_value_float "add_current (get_char s)"]
  by (auto simp: scan_number_decimal1_def Let_def)

lemma remaining_any1: "remaining (fst (scan_number_any1 nt s)) \<le> remaining s"
proof (induction nt s rule: scan_number_any1.induct)
  case (1 nt s)
  show ?case
    using 1[OF refl refl] remaining_get[of s] remaining_number_done[of nt s]
      remaining_exponent[of "add_current (get_char s)"]
      remaining_decimal1[of "add (CHR ''.'') (get_char s)"]
    by (subst scan_number_any1.simps) (auto simp: Let_def)
qed

lemma remaining_zero: "remaining (fst (scan_number_zero nt s)) \<le> remaining s"
  using remaining_get[of s] remaining_number_done[of nt s]
    remaining_exponent[of "add_current (get_char s)"]
    remaining_decimal1[of "add (CHR ''.'') (get_char s)"]
  by (auto simp: scan_number_zero_def Let_def)

lemma remaining_minus: "remaining (fst (scan_number_minus s)) \<le> remaining s"
  using remaining_get[of s] remaining_zero[of T_value_integer "add_current (get_char s)"]
    remaining_any1[of T_value_integer "add_current (get_char s)"]
  by (auto simp: scan_number_minus_def Let_def)

lemma remaining_number: "remaining (fst (scan_number s)) \<le> remaining s"
  using remaining_minus[of "add_current (reset s)"]
    remaining_zero[of T_value_unsigned "add_current (reset s)"]
    remaining_any1[of T_value_unsigned "add_current (reset s)"]
  by (auto simp: scan_number_def Let_def)

lemma remaining_string_loop: "remaining (fst (scan_string_loop s)) \<le> remaining s"
proof (induction s rule: scan_string_loop.induct)
  case (1 s)
  obtain s' t where step: "scan_string_step s = (s', t)" by fastforce
  then have "remaining s' \<le> remaining s"
    using remaining_string_step[of s] remaining_get[of s] by simp
  with step 1 show ?case
    by (subst scan_string_loop.simps) (auto split: option.splits)
qed

lemma remaining_literal: "remaining (fst (scan_literal_rest cs t s)) \<le> remaining s"
proof (induction cs t s rule: scan_literal_rest.induct)
  case (2 c cs t s)
  then show ?case using remaining_get[of s] by (auto simp: Let_def)
qed simp

lemma remaining_whitespace: "remaining (skip_whitespace s) \<le> remaining s"
proof (induction s rule: skip_whitespace.induct)
  case (1 s)
  then show ?case
    using remaining_get[of s] by (subst skip_whitespace.simps) (auto simp: Let_def)
qed

lemma remaining_whitespace_less:
  "cur (skip_whitespace s) \<noteq> -1 \<Longrightarrow> remaining (skip_whitespace s) < remaining s"
proof (induction s rule: skip_whitespace.induct)
  case (1 s)
  show ?case
  proof (cases "is_ws (cur (get_char s))")
    case True
    then show ?thesis
      using 1 remaining_get[of s] by (simp add: skip_whitespace.simps[of s] Let_def)
  next
    case False
    then show ?thesis
      using "1.prems" remaining_get_less[of s] by (simp add: skip_whitespace.simps[of s] Let_def)
  qed
qed

lemma remaining_bom: "remaining (fst (skip_bom s)) \<le> remaining s"
  using remaining_unget_get[of s] remaining_get[of s] remaining_get[of "get_char s"]
    remaining_get[of "get_char (get_char s)"]
  by (auto simp: skip_bom_def Let_def)

lemma remaining_token: "remaining (fst (scan_token s)) \<le> remaining s"
  by (simp add: scan_token_def Let_def scan_literal_def scan_string_def remaining_literal
      remaining_number remaining_string_loop[of "reset s", simplified] del: scan_literal_rest.simps)

lemma remaining_scan: "remaining (fst (scan s)) \<le> remaining s"
  using remaining_bom[of s] remaining_token[of "skip_whitespace (fst (skip_bom s))"]
    remaining_whitespace[of "fst (skip_bom s)"]
    remaining_token[of "skip_whitespace s"] remaining_whitespace[of s]
  by (auto simp: scan_def Let_def split: prod.splits)

lemma scan_token_end: "cur s = -1 \<Longrightarrow> snd (scan_token s) = T_end_of_input"
  by (simp add: scan_token_def cur_digit_def)

lemma remaining_scan_less:
  assumes "snd (scan s) \<noteq> T_end_of_input" and "snd (scan s) \<noteq> T_parse_error"
  shows "remaining (fst (scan s)) < remaining s"
proof -
  define s1 where "s1 = (if chars_read_total s = 0 then fst (skip_bom s) else s)"
  have scan: "scan s = scan_token (skip_whitespace s1)"
    using assms(2) by (auto simp: scan_def s1_def Let_def split: prod.splits if_splits)
  then have "cur (skip_whitespace s1) \<noteq> -1"
    using assms(1) scan_token_end by auto
  from remaining_whitespace_less[OF this] remaining_token[of "skip_whitespace s1"]
  have "remaining (fst (scan s)) < remaining s1" by (simp add: scan)
  also have "remaining s1 \<le> remaining s" by (simp add: s1_def remaining_bom)
  finally show ?thesis .
qed

end
