(* ===== verification/Json_Dump.thy ===== *)
theory Json_Dump
  imports Json_Lexer
begin

text \<open>
  The serializer of \<^verbatim>\<open>src/src/utils/json.hpp\<close> as the server uses it: \<^verbatim>\<open>dump()\<close> with its defaults,
  no indentation, no ASCII escapes, the strict error handler. Output is chunked through a
  buffer there; here it is the text written. The decimal text of a finite double
  (\<^verbatim>\<open>to_chars\<close>) is an argument; the server passes the one of \<^verbatim>\<open>Grisu\<close>.
\<close>

section \<open>Integers\<close>

definition digits_to_99 :: "nat \<Rightarrow> string" where
  "digits_to_99 i = [digit_char (i div 10), digit_char (i mod 10)]"

fun count_digits :: "nat \<Rightarrow> nat" where
  "count_digits x =
     (if x < 10 then 1 else if x < 100 then 2 else if x < 1000 then 3 else if x < 10000 then 4
      else count_digits (x div 10000) + 4)"

text \<open>The digits are written from the right, two at a time.\<close>

fun write_digits :: "nat \<Rightarrow> string" where
  "write_digits x =
     (if x \<ge> 100 then write_digits (x div 100) @ digits_to_99 (x mod 100)
      else if x \<ge> 10 then digits_to_99 x
      else [digit_char x])"

declare count_digits.simps [simp del] write_digits.simps [simp del]

definition dump_integer :: "int \<Rightarrow> string" where
  "dump_integer x =
     (if x = 0 then ''0''
      else (if x < 0 then ''-'' else []) @ write_digits (nat \<bar>x\<bar>))"

section \<open>UTF-8\<close>

definition utf8_type :: "nat \<Rightarrow> nat" where
  "utf8_type byte =
     (if byte < 0x80 then 0
      else if byte < 0x90 then 1
      else if byte < 0xA0 then 9
      else if byte < 0xC0 then 7
      else if byte < 0xC2 then 8
      else if byte < 0xE0 then 2
      else if byte = 0xE0 then 0xA
      else if byte = 0xED then 4
      else if byte < 0xF0 then 3
      else if byte = 0xF0 then 0xB
      else if byte < 0xF4 then 6
      else if byte = 0xF4 then 5
      else 8)"

text \<open>The transitions of states 0 to 8 on the types 0 to 15.\<close>

definition utf8_transitions :: "nat list list" where
  "utf8_transitions =
     [[0, 1, 2, 3, 5, 8, 7, 1, 1, 1, 4, 6, 1, 1, 1, 1],
      [1, 1, 1, 1, 1, 1, 1, 1, 1, 1, 1, 1, 1, 1, 1, 1],
      [1, 0, 1, 1, 1, 1, 1, 0, 1, 0, 1, 1, 1, 1, 1, 1],
      [1, 2, 1, 1, 1, 1, 1, 2, 1, 2, 1, 1, 1, 1, 1, 1],
      [1, 1, 1, 1, 1, 1, 1, 2, 1, 1, 1, 1, 1, 1, 1, 1],
      [1, 2, 1, 1, 1, 1, 1, 1, 1, 2, 1, 1, 1, 1, 1, 1],
      [1, 1, 1, 1, 1, 1, 1, 3, 1, 3, 1, 1, 1, 1, 1, 1],
      [1, 3, 1, 1, 1, 1, 1, 3, 1, 3, 1, 1, 1, 1, 1, 1],
      [1, 3, 1, 1, 1, 1, 1, 1, 1, 1, 1, 1, 1, 1, 1, 1]]"

definition decode_state :: "nat \<Rightarrow> nat \<Rightarrow> nat" where
  "decode_state state byte = utf8_transitions ! state ! utf8_type byte"

text \<open>The code point after a byte; it matters only when the new state accepts.\<close>

definition decode_codepoint :: "nat \<Rightarrow> nat \<Rightarrow> nat \<Rightarrow> nat" where
  "decode_codepoint state codep byte =
     (if state \<noteq> 0 then byte mod 64 + codep * 64
      else byte mod 2 ^ (8 - utf8_type byte))"

section \<open>Strings\<close>

definition hex_lower :: "nat \<Rightarrow> char" where
  "hex_lower d = (if d < 10 then char_of (48 + d) else char_of (87 + d))"

definition hex_bytes :: "nat \<Rightarrow> string" where
  "hex_bytes byte = [hex_upper (byte div 16), hex_upper (byte mod 16)]"

definition escape_char :: "nat \<Rightarrow> char \<Rightarrow> string" where
  "escape_char codepoint c =
     (if codepoint = 0x08 then [CHR 0x5C, CHR ''b'']
      else if codepoint = 0x09 then [CHR 0x5C, CHR ''t'']
      else if codepoint = 0x0A then [CHR 0x5C, CHR ''n'']
      else if codepoint = 0x0C then [CHR 0x5C, CHR ''f'']
      else if codepoint = 0x0D then [CHR 0x5C, CHR ''r'']
      else if codepoint = 0x22 then [CHR 0x5C, CHR 0x22]
      else if codepoint = 0x5C then [CHR 0x5C, CHR 0x5C]
      else if codepoint \<le> 0x1F
      then [CHR 0x5C, CHR ''u'', CHR ''0'', CHR ''0'', hex_lower (codepoint div 16), hex_lower (codepoint mod 16)]
      else [c])"

definition type_error_316 :: "string \<Rightarrow> error" where
  "type_error_316 msg = Json_exception ''type_error'' 316 msg"

text \<open>The loop: index, decoder state, code point, the text written so far.\<close>

fun dump_escaped_loop :: "nat \<Rightarrow> nat \<Rightarrow> nat \<Rightarrow> string \<Rightarrow> string \<Rightarrow> (nat \<times> string) result" where
  "dump_escaped_loop i state codepoint out [] = Inr (state, out)"
| "dump_escaped_loop i state codepoint out (c # cs) =
     (let byte = of_char c;
          codepoint = decode_codepoint state codepoint byte;
          state = decode_state state byte
      in if state = 0
         then dump_escaped_loop (Suc i) state codepoint (out @ escape_char codepoint c) cs
         else if state = 1
         then Inl (type_error_316 (''invalid UTF-8 byte at index '' @ nat_to_string i @ '': 0x'' @ hex_bytes byte))
         else dump_escaped_loop (Suc i) state codepoint (out @ [c]) cs)"

definition dump_escaped :: "string \<Rightarrow> string result" where
  "dump_escaped s =
     andThen (dump_escaped_loop 0 0 0 [] s) (\<lambda>(state, out).
       if state = 0 then Inr out
       else Inl (type_error_316 (''incomplete UTF-8 string; last byte: 0x'' @ hex_bytes (of_char (last s)))))"

section \<open>Values\<close>

fun dump_float :: "(dbl \<Rightarrow> string) \<Rightarrow> dbl \<Rightarrow> string" where
  "dump_float to_chars (Finite s q) = to_chars (Finite s q)"
| "dump_float to_chars _ = ''null''"

fun join_commas :: "string list \<Rightarrow> string" where
  "join_commas [] = []"
| "join_commas [t] = t"
| "join_commas (t # ts) = t @ '','' @ join_commas ts"

definition dump_string :: "string \<Rightarrow> string result" where
  "dump_string s = andThen (dump_escaped s) (\<lambda>t. Inr ([CHR 0x22] @ t @ [CHR 0x22]))"

fun dump :: "(dbl \<Rightarrow> string) \<Rightarrow> json \<Rightarrow> string result" where
  "dump to_chars (JObject m) =
     andThen (mapR (\<lambda>kv. andThen (dump_string (fst kv)) (\<lambda>k.
                andThen (dump to_chars (snd kv)) (\<lambda>t. Inr (k @ '':'' @ t)))) m)
       (\<lambda>ts. Inr (''{'' @ join_commas ts @ ''}''))"
| "dump to_chars (JArray xs) =
     andThen (mapR (dump to_chars) xs) (\<lambda>ts. Inr (''['' @ join_commas ts @ '']''))"
| "dump to_chars (JString s) = dump_string s"
| "dump to_chars (JBool b) = Inr (if b then ''true'' else ''false'')"
| "dump to_chars (JInt i) = Inr (dump_integer i)"
| "dump to_chars (JUInt i) = Inr (dump_integer i)"
| "dump to_chars (JFloat d) = Inr (dump_float to_chars d)"
| "dump to_chars JNull = Inr ''null''"

text \<open>\<^verbatim>\<open>exception::what_to_json\<close>.\<close>

definition what_to_json :: "string \<Rightarrow> string \<Rightarrow> string result" where
  "what_to_json type msg =
     dump (\<lambda>_. []) (JObject (om_put ''error'' (JString msg) (om_put ''error_type'' (JString type) [])))"

end
