(* ===== verification/Grisu.thy ===== *)
theory Grisu
  imports Json_Dump "HOL-Library.Signed_Division"
begin

text \<open>
  The shortest decimal text of a double: namespace \<^verbatim>\<open>dtoa_impl\<close> and \<^verbatim>\<open>to_chars\<close> of
  \<^verbatim>\<open>src/src/utils/json.hpp\<close>. An unsigned 64-bit integer is an \<^typ>\<open>int\<close>, its wrap-around
  written as \<open>u64\<close>. A failed \<^verbatim>\<open>JSON_ASSERT\<close> is an error; those on the room left in the buffer,
  which has 64 characters, are left out. The buffer holds \<^verbatim>\<open>'0' + d\<close> for each digit \<open>d\<close>.
  The loop that may run forever is a \<^theory_text>\<open>partial_function\<close>, \<^const>\<open>None\<close> where it does.
\<close>

definition u64 :: "int \<Rightarrow> int" where
  "u64 x = x mod 2 ^ 64"

definition json_assert :: "string \<Rightarrow> bool \<Rightarrow> unit result" where
  "json_assert msg cond = (if cond then Inr () else Inl (Assert_failure msg))"

section \<open>diyfp\<close>

datatype diyfp = Diyfp (df: int) (de: int)

definition diyfp_sub :: "diyfp \<Rightarrow> diyfp \<Rightarrow> diyfp result" where
  "diyfp_sub x y =
     andThen (json_assert ''x.e == y.e'' (de x = de y)) (\<lambda>_.
     andThen (json_assert ''x.f >= y.f'' (df x \<ge> df y)) (\<lambda>_.
     Inr (Diyfp (u64 (df x - df y)) (de x))))"

definition diyfp_mul :: "diyfp \<Rightarrow> diyfp \<Rightarrow> diyfp" where
  "diyfp_mul x y =
     (let u_lo = df x mod 2 ^ 32; u_hi = df x div 2 ^ 32;
          v_lo = df y mod 2 ^ 32; v_hi = df y div 2 ^ 32;
          p0 = u64 (u_lo * v_lo); p1 = u64 (u_lo * v_hi);
          p2 = u64 (u_hi * v_lo); p3 = u64 (u_hi * v_hi);
          p0_hi = p0 div 2 ^ 32;
          p1_lo = p1 mod 2 ^ 32; p1_hi = p1 div 2 ^ 32;
          p2_lo = p2 mod 2 ^ 32; p2_hi = p2 div 2 ^ 32;
          Q = u64 (p0_hi + p1_lo + p2_lo);
          Q = u64 (Q + 2 ^ (64 - 32 - 1));
          h = u64 (p3 + p2_hi + p1_hi + Q div 2 ^ 32)
      in Diyfp h (de x + de y + 64))"

text \<open>The loop of \<^verbatim>\<open>normalize\<close>; 0, for which it would not end, is excluded by the assertion.\<close>

function normalize_loop :: "int \<Rightarrow> int \<Rightarrow> diyfp" where
  "normalize_loop f e =
     (if 0 < f \<and> f div 2 ^ 63 = 0 then normalize_loop (u64 (2 * f)) (e - 1) else Diyfp f e)"
  by pat_completeness auto
termination
proof (relation "measure (\<lambda>(f, _). nat (2 ^ 63 - f))", goal_cases)
  case (2 f e)
  then have "f < 2 ^ 63" by (auto simp: div_eq_0_iff)
  then show ?case using 2 by (simp add: u64_def)
qed simp

declare normalize_loop.simps [simp del]

definition diyfp_normalize :: "diyfp \<Rightarrow> diyfp result" where
  "diyfp_normalize x =
     andThen (json_assert ''x.f != 0'' (df x \<noteq> 0)) (\<lambda>_. Inr (normalize_loop (df x) (de x)))"

definition normalize_to :: "diyfp \<Rightarrow> int \<Rightarrow> diyfp result" where
  "normalize_to x target_exponent =
     (let delta = de x - target_exponent; f = u64 (df x * 2 ^ nat delta)
      in andThen (json_assert ''delta >= 0'' (delta \<ge> 0)) (\<lambda>_.
         andThen (json_assert ''((x.f << delta) >> delta) == x.f'' (f div 2 ^ nat delta = df x)) (\<lambda>_.
         Inr (Diyfp f target_exponent))))"

section \<open>Boundaries\<close>

text \<open>The bits of a positive finite double.\<close>

definition reinterpret_bits :: "rat \<Rightarrow> int" where
  "reinterpret_bits q =
     (if q < pow2 (- 1022) then \<lfloor>q / pow2 (- 1074)\<rfloor>
      else let k = floor_log2 q in (k + 1023) * 2 ^ 52 + (\<lfloor>q / pow2 (k - 52)\<rfloor> - 2 ^ 52))"

definition kPrecision :: int where
  "kPrecision = 53"

definition kBias :: int where
  "kBias = 1024 - 1 + (kPrecision - 1)"

definition kHiddenBit :: int where
  "kHiddenBit = 2 ^ nat (kPrecision - 1)"

definition compute_boundaries :: "rat \<Rightarrow> (diyfp \<times> diyfp \<times> diyfp) result" where
  "compute_boundaries v_arg =
     andThen (json_assert ''value > 0'' (v_arg > 0)) (\<lambda>_.
     let bits = reinterpret_bits v_arg;
         E = bits div 2 ^ nat (kPrecision - 1);
         F = bits mod kHiddenBit;
         v = (if E = 0 then Diyfp F (1 - kBias) else Diyfp (F + kHiddenBit) (E - kBias));
         lower_boundary_is_closer = (F = 0 \<and> E > 1);
         m_plus = Diyfp (u64 (2 * df v + 1)) (de v - 1);
         m_minus = (if lower_boundary_is_closer then Diyfp (u64 (4 * df v - 1)) (de v - 2)
                    else Diyfp (u64 (2 * df v - 1)) (de v - 1))
     in andThen (diyfp_normalize m_plus) (\<lambda>w_plus.
        andThen (normalize_to m_minus (de w_plus)) (\<lambda>w_minus.
        andThen (diyfp_normalize v) (\<lambda>w. Inr (w, w_minus, w_plus)))))"

section \<open>Cached powers of ten\<close>

definition kAlpha :: int where
  "kAlpha = - 60"

definition kGamma :: int where
  "kGamma = - 32"

text \<open>Significand, binary exponent, decimal exponent.\<close>

definition kCachedPowers :: "(int \<times> int \<times> int) list" where
  "kCachedPowers =
     [(0xAB70FE17C79AC6CA, -1060, -300), (0xFF77B1FCBEBCDC4F, -1034, -292),
      (0xBE5691EF416BD60C, -1007, -284), (0x8DD01FAD907FFC3C, -980, -276),
      (0xD3515C2831559A83, -954, -268), (0x9D71AC8FADA6C9B5, -927, -260),
      (0xEA9C227723EE8BCB, -901, -252), (0xAECC49914078536D, -874, -244),
      (0x823C12795DB6CE57, -847, -236), (0xC21094364DFB5637, -821, -228),
      (0x9096EA6F3848984F, -794, -220), (0xD77485CB25823AC7, -768, -212),
      (0xA086CFCD97BF97F4, -741, -204), (0xEF340A98172AACE5, -715, -196),
      (0xB23867FB2A35B28E, -688, -188), (0x84C8D4DFD2C63F3B, -661, -180),
      (0xC5DD44271AD3CDBA, -635, -172), (0x936B9FCEBB25C996, -608, -164),
      (0xDBAC6C247D62A584, -582, -156), (0xA3AB66580D5FDAF6, -555, -148),
      (0xF3E2F893DEC3F126, -529, -140), (0xB5B5ADA8AAFF80B8, -502, -132),
      (0x87625F056C7C4A8B, -475, -124), (0xC9BCFF6034C13053, -449, -116),
      (0x964E858C91BA2655, -422, -108), (0xDFF9772470297EBD, -396, -100),
      (0xA6DFBD9FB8E5B88F, -369, -92), (0xF8A95FCF88747D94, -343, -84),
      (0xB94470938FA89BCF, -316, -76), (0x8A08F0F8BF0F156B, -289, -68),
      (0xCDB02555653131B6, -263, -60), (0x993FE2C6D07B7FAC, -236, -52),
      (0xE45C10C42A2B3B06, -210, -44), (0xAA242499697392D3, -183, -36),
      (0xFD87B5F28300CA0E, -157, -28), (0xBCE5086492111AEB, -130, -20),
      (0x8CBCCC096F5088CC, -103, -12), (0xD1B71758E219652C, -77, -4),
      (0x9C40000000000000, -50, 4), (0xE8D4A51000000000, -24, 12),
      (0xAD78EBC5AC620000, 3, 20), (0x813F3978F8940984, 30, 28),
      (0xC097CE7BC90715B3, 56, 36), (0x8F7E32CE7BEA5C70, 83, 44),
      (0xD5D238A4ABE98068, 109, 52), (0x9F4F2726179A2245, 136, 60),
      (0xED63A231D4C4FB27, 162, 68), (0xB0DE65388CC8ADA8, 189, 76),
      (0x83C7088E1AAB65DB, 216, 84), (0xC45D1DF942711D9A, 242, 92),
      (0x924D692CA61BE758, 269, 100), (0xDA01EE641A708DEA, 295, 108),
      (0xA26DA3999AEF774A, 322, 116), (0xF209787BB47D6B85, 348, 124),
      (0xB454E4A179DD1877, 375, 132), (0x865B86925B9BC5C2, 402, 140),
      (0xC83553C5C8965D3D, 428, 148), (0x952AB45CFA97A0B3, 455, 156),
      (0xDE469FBD99A05FE3, 481, 164), (0xA59BC234DB398C25, 508, 172),
      (0xF6C69A72A3989F5C, 534, 180), (0xB7DCBF5354E9BECE, 561, 188),
      (0x88FCF317F22241E2, 588, 196), (0xCC20CE9BD35C78A5, 614, 204),
      (0x98165AF37B2153DF, 641, 212), (0xE2A0B5DC971F303A, 667, 220),
      (0xA8D9D1535CE3B396, 694, 228), (0xFB9B7CD9A4A7443C, 720, 236),
      (0xBB764C4CA7A44410, 747, 244), (0x8BAB8EEFB6409C1A, 774, 252),
      (0xD01FEF10A657842C, 800, 260), (0x9B10A4E5E9913129, 827, 268),
      (0xE7109BFBA19C0C9D, 853, 276), (0xAC2820D9623BF429, 880, 284),
      (0x80444B5E7AA7CF85, 907, 292), (0xBF21E44003ACDD2D, 933, 300),
      (0x8E679C2F5E44FF8F, 960, 308), (0xD433179D9C8CB841, 986, 316),
      (0x9E19DB92B4E31BA9, 1013, 324)]"

definition cached_index :: "int \<Rightarrow> int" where
  "cached_index e =
     (let f = kAlpha - e - 1;
          k = (f * 78913) sdiv 2 ^ 18 + (if f > 0 then 1 else 0)
      in (300 + k + (8 - 1)) sdiv 8)"

definition get_cached_power_for_binary_exponent :: "int \<Rightarrow> (int \<times> int \<times> int) result" where
  "get_cached_power_for_binary_exponent e =
     andThen (json_assert ''e >= -1500'' (e \<ge> - 1500)) (\<lambda>_.
     andThen (json_assert ''e <= 1500'' (e \<le> 1500)) (\<lambda>_.
     let index = cached_index e
     in andThen (json_assert ''index >= 0'' (index \<ge> 0)) (\<lambda>_.
        andThen (json_assert ''index < kCachedPowers.size()'' (index < int (length kCachedPowers))) (\<lambda>_.
        let cached = kCachedPowers ! nat index; ce = fst (snd cached)
        in andThen (json_assert ''kAlpha <= cached.e + e + 64'' (kAlpha \<le> ce + e + 64)) (\<lambda>_.
           andThen (json_assert ''kGamma >= cached.e + e + 64'' (kGamma \<ge> ce + e + 64)) (\<lambda>_.
           Inr cached))))))"

text \<open>The number of digits and the largest power of ten below.\<close>

definition find_largest_pow10 :: "int \<Rightarrow> nat \<times> int" where
  "find_largest_pow10 n =
     (if n \<ge> 1000000000 then (10, 1000000000)
      else if n \<ge> 100000000 then (9, 100000000)
      else if n \<ge> 10000000 then (8, 10000000)
      else if n \<ge> 1000000 then (7, 1000000)
      else if n \<ge> 100000 then (6, 100000)
      else if n \<ge> 10000 then (5, 10000)
      else if n \<ge> 1000 then (4, 1000)
      else if n \<ge> 100 then (3, 100)
      else if n \<ge> 10 then (2, 10)
      else (1, 1))"

section \<open>Digits\<close>

text \<open>
  The loop of \<^verbatim>\<open>grisu2_round\<close>. An assertion keeps \<open>ten_k\<close> positive and the condition keeps
  \<open>rest + ten_k\<close> from wrapping, so \<open>rest\<close> grows; where it would not, the loop is left.
\<close>

definition round_further :: "int \<Rightarrow> int \<Rightarrow> int \<Rightarrow> int \<Rightarrow> bool" where
  "round_further dst delta rest ten_k \<longleftrightarrow>
     rest < dst \<and> u64 (delta - rest) \<ge> ten_k \<and>
     (u64 (rest + ten_k) < dst \<or> u64 (dst - rest) > u64 (u64 (rest + ten_k) - dst))"

function round_loop :: "nat list \<Rightarrow> int \<Rightarrow> int \<Rightarrow> int \<Rightarrow> int \<Rightarrow> nat list result" where
  "round_loop buf dst delta rest ten_k =
     (if \<not> round_further dst delta rest ten_k \<or> u64 (rest + ten_k) \<le> rest then Inr buf
      else if last buf = 0 then Inl (Assert_failure ''buf[len - 1] != 0'')
      else round_loop (butlast buf @ [last buf - 1]) dst delta (u64 (rest + ten_k)) ten_k)"
  by pat_completeness auto
termination
  by (relation "measure (\<lambda>(_, dst, _, rest, _). nat (dst - rest))") (auto simp: round_further_def)

declare round_loop.simps [simp del]

definition grisu2_round :: "nat list \<Rightarrow> int \<Rightarrow> int \<Rightarrow> int \<Rightarrow> int \<Rightarrow> nat list result" where
  "grisu2_round buf dst delta rest ten_k =
     andThen (json_assert ''len >= 1'' (buf \<noteq> [])) (\<lambda>_.
     andThen (json_assert ''dist <= delta'' (dst \<le> delta)) (\<lambda>_.
     andThen (json_assert ''rest <= delta'' (rest \<le> delta)) (\<lambda>_.
     andThen (json_assert ''ten_k > 0'' (ten_k > 0)) (\<lambda>_.
     round_loop buf dst delta rest ten_k))))"

text \<open>
  The digits of the integral part: the buffer and the number of places below it when enough were
  generated, or the whole buffer.
\<close>

fun integral_digits :: "nat \<Rightarrow> int \<Rightarrow> int \<Rightarrow> nat list \<Rightarrow> int \<Rightarrow> int \<Rightarrow> nat \<Rightarrow> int \<Rightarrow>
    (nat list \<times> nat + nat list) result" where
  "integral_digits 0 p1 pow10 buf dst delta shift p2 = Inr (Inr buf)"
| "integral_digits (Suc n) p1 pow10 buf dst delta shift p2 =
     (let d = p1 div pow10; r = p1 mod pow10
      in andThen (json_assert ''d <= 9'' (d \<le> 9)) (\<lambda>_.
         let buf = buf @ [nat d]; rest = u64 (u64 (r * 2 ^ shift) + p2)
         in if rest \<le> delta
            then andThen (grisu2_round buf dst delta rest (u64 (pow10 * 2 ^ shift))) (\<lambda>buf.
                   Inr (Inl (buf, n)))
            else integral_digits n r (pow10 div 10) buf dst delta shift p2))"

text \<open>The digits of the fraction, with the number of places generated.\<close>

partial_function (option) fraction_digits ::
    "int \<Rightarrow> nat list \<Rightarrow> int \<Rightarrow> int \<Rightarrow> nat \<Rightarrow> nat \<Rightarrow> (nat list \<times> nat) result option" where
  "fraction_digits p2 buf dst delta shift m =
     (if \<not> p2 \<le> (2 ^ 64 - 1) div 10
      then Some (Inl (Assert_failure ''p2 <= (std::numeric_limits<std::uint64_t>::max)() / 10''))
      else let p2 = u64 (p2 * 10); d = p2 div 2 ^ shift; r = p2 mod 2 ^ shift
           in if \<not> d \<le> 9 then Some (Inl (Assert_failure ''d <= 9''))
              else let buf = buf @ [nat d]; m = Suc m; delta = u64 (delta * 10); dst = u64 (dst * 10)
                   in if r \<le> delta
                      then Some (andThen (grisu2_round buf dst delta r (2 ^ shift)) (\<lambda>buf. Inr (buf, m)))
                      else fraction_digits r buf dst delta shift m)"

declare fraction_digits.simps [code]

text \<open>What \<^verbatim>\<open>grisu2_digit_gen\<close> does before the second loop: its result, or where that starts.\<close>

definition digit_gen_integral :: "diyfp \<Rightarrow> diyfp \<Rightarrow> diyfp \<Rightarrow>
    ((nat list \<times> nat + nat list) \<times> int \<times> int \<times> nat \<times> int) result" where
  "digit_gen_integral M_minus w M_plus =
     andThen (json_assert ''M_plus.e >= kAlpha'' (de M_plus \<ge> kAlpha)) (\<lambda>_.
     andThen (json_assert ''M_plus.e <= kGamma'' (de M_plus \<le> kGamma)) (\<lambda>_.
     andThen (diyfp_sub M_plus M_minus) (\<lambda>delta.
     andThen (diyfp_sub M_plus w) (\<lambda>dst.
     let shift = nat (- de M_plus);
         p1 = (df M_plus div 2 ^ shift) mod 2 ^ 32;
         p2 = df M_plus mod 2 ^ shift
     in andThen (json_assert ''p1 > 0'' (p1 > 0)) (\<lambda>_.
        let (k, pow10) = find_largest_pow10 p1
        in andThen (integral_digits k p1 pow10 [] (df dst) (df delta) shift p2) (\<lambda>res.
           Inr (res, df dst, df delta, shift, p2)))))))"

definition grisu2_digit_gen :: "int \<Rightarrow> diyfp \<Rightarrow> diyfp \<Rightarrow> diyfp \<Rightarrow> (nat list \<times> int) result option" where
  "grisu2_digit_gen decimal_exponent M_minus w M_plus =
     (case digit_gen_integral M_minus w M_plus of
        Inl e \<Rightarrow> Some (Inl e)
      | Inr (Inl (buf, n), _) \<Rightarrow> Some (Inr (buf, decimal_exponent + int n))
      | Inr (Inr buf, dst, delta, shift, p2) \<Rightarrow>
          (if \<not> p2 > delta then Some (Inl (Assert_failure ''p2 > delta''))
           else map_option (\<lambda>r. andThen r (\<lambda>(buf, m). Inr (buf, decimal_exponent - int m)))
                  (fraction_digits p2 buf dst delta shift 0)))"

definition grisu2_scaled :: "diyfp \<Rightarrow> diyfp \<Rightarrow> diyfp \<Rightarrow> (nat list \<times> int) result option" where
  "grisu2_scaled m_minus v m_plus =
     (case andThen (json_assert ''m_plus.e == m_minus.e'' (de m_plus = de m_minus)) (\<lambda>_.
           andThen (json_assert ''m_plus.e == v.e'' (de m_plus = de v)) (\<lambda>_.
           get_cached_power_for_binary_exponent (de m_plus))) of
        Inl e \<Rightarrow> Some (Inl e)
      | Inr (cf, ce, ck) \<Rightarrow>
          (let c_minus_k = Diyfp cf ce;
               w = diyfp_mul v c_minus_k;
               w_minus = diyfp_mul m_minus c_minus_k;
               w_plus = diyfp_mul m_plus c_minus_k;
               M_minus = Diyfp (u64 (df w_minus + 1)) (de w_minus);
               M_plus = Diyfp (u64 (df w_plus - 1)) (de w_plus)
           in grisu2_digit_gen (- ck) M_minus w M_plus))"

definition grisu2 :: "rat \<Rightarrow> (nat list \<times> int) result option" where
  "grisu2 v_arg =
     (case andThen (json_assert ''value > 0'' (v_arg > 0)) (\<lambda>_. compute_boundaries v_arg) of
        Inl e \<Rightarrow> Some (Inl e)
      | Inr (w, w_minus, w_plus) \<Rightarrow> grisu2_scaled w_minus w w_plus)"

section \<open>Text\<close>

definition append_exponent :: "int \<Rightarrow> string result" where
  "append_exponent e =
     andThen (json_assert ''e > -1000'' (e > - 1000)) (\<lambda>_.
     andThen (json_assert ''e < 1000'' (e < 1000)) (\<lambda>_.
     let k = nat \<bar>e\<bar>
     in Inr ((if e < 0 then ''-'' else ''+'') @
          (if k < 10 then [CHR ''0'', digit_char k]
           else if k < 100 then [digit_char (k div 10), digit_char (k mod 10)]
           else [digit_char (k div 100), digit_char (k mod 100 div 10), digit_char (k mod 100 mod 10)]))))"

definition format_buffer :: "string \<Rightarrow> int \<Rightarrow> int \<Rightarrow> int \<Rightarrow> string result" where
  "format_buffer buf decimal_exponent min_exp max_exp =
     andThen (json_assert ''min_exp < 0'' (min_exp < 0)) (\<lambda>_.
     andThen (json_assert ''max_exp > 0'' (max_exp > 0)) (\<lambda>_.
     let k = int (length buf); n = k + decimal_exponent
     in if k \<le> n \<and> n \<le> max_exp then Inr (buf @ replicate (nat (n - k)) (CHR ''0'') @ ''.0'')
        else if 0 < n \<and> n \<le> max_exp
        then andThen (json_assert ''k > n'' (k > n)) (\<lambda>_.
               Inr (take (nat n) buf @ ''.'' @ drop (nat n) buf))
        else if min_exp < n \<and> n \<le> 0 then Inr (''0.'' @ replicate (nat (- n)) (CHR ''0'') @ buf)
        else andThen (append_exponent (n - 1)) (\<lambda>e.
               Inr ((if k = 1 then buf else take 1 buf @ ''.'' @ drop 1 buf) @ ''e'' @ e))))"

definition to_chars :: "dbl \<Rightarrow> string result option" where
  "to_chars v_arg =
     (case v_arg of
        Finite s q \<Rightarrow>
          (let sign = (if s then ''-'' else [])
           in if q = 0 then Some (Inr (sign @ ''0.0''))
              else map_option (\<lambda>r.
                     andThen r (\<lambda>(digits, decimal_exponent).
                     andThen (json_assert ''len <= max_digits10'' (length digits \<le> 17)) (\<lambda>_.
                     andThen (format_buffer (map digit_char digits) decimal_exponent (- 4) 15) (\<lambda>t.
                     Inr (sign @ t))))) (grisu2 q))
      | _ \<Rightarrow> Some (Inl (Assert_failure ''std::isfinite(value)'')))"

text \<open>As the serializer uses it.\<close>

definition float_chars :: "dbl \<Rightarrow> string" where
  "float_chars d = (case to_chars d of Some (Inr t) \<Rightarrow> t | _ \<Rightarrow> [])"

end
