(* ===== verification/Value_Info.thy ===== *)
theory Value_Info
  imports Json "HOL-Library.Word"
begin

unbundle bit_operations_syntax

text \<open>
  Tensor descriptions and the conversion of output tensors to JSON
  (\<^verbatim>\<open>src/src/onnx/value_info.cpp\<close>). An \<^verbatim>\<open>Ort::Value\<close> is what ONNX Runtime hands over: the
  element count, the dimensions, the bytes of its buffer (little-endian) or its strings. The
  conversions of \<^verbatim>\<open>Ort::Float16_t\<close> and \<^verbatim>\<open>Ort::BFloat16_t\<close> to \<^verbatim>\<open>float\<close> belong to its headers
  and are a parameter. Reading outside a buffer is undefined behaviour.
\<close>

section \<open>Element types\<close>

datatype element_type =
    E_UNDEFINED | E_FLOAT | E_UINT8 | E_INT8 | E_UINT16 | E_INT16 | E_INT32 | E_INT64 | E_STRING
  | E_BOOL | E_FLOAT16 | E_DOUBLE | E_UINT32 | E_UINT64 | E_COMPLEX64 | E_COMPLEX128 | E_BFLOAT16
  | E_FLOAT8E4M3FN | E_FLOAT8E4M3FNUZ | E_FLOAT8E5M2 | E_FLOAT8E5M2FNUZ | E_UINT4 | E_INT4
  | E_FLOAT4E2M1 | E_UINT2 | E_INT2 | E_FLOAT8E8M0 | E_OTHER

fun element_type_name :: "element_type \<Rightarrow> string" where
  "element_type_name E_UNDEFINED = ''undefined''"
| "element_type_name E_FLOAT = ''float32''"
| "element_type_name E_UINT4 = ''uint4''"
| "element_type_name E_INT4 = ''int4''"
| "element_type_name E_UINT2 = ''uint2''"
| "element_type_name E_INT2 = ''int2''"
| "element_type_name E_UINT8 = ''uint8''"
| "element_type_name E_INT8 = ''int8''"
| "element_type_name E_UINT16 = ''uint16''"
| "element_type_name E_INT16 = ''int16''"
| "element_type_name E_INT32 = ''int32''"
| "element_type_name E_INT64 = ''int64''"
| "element_type_name E_STRING = ''string''"
| "element_type_name E_BOOL = ''boolean''"
| "element_type_name E_FLOAT8E5M2 = ''float8e5m2''"
| "element_type_name E_FLOAT8E5M2FNUZ = ''float8e5m2fnuz''"
| "element_type_name E_FLOAT8E4M3FN = ''float8e4m3fn''"
| "element_type_name E_FLOAT8E4M3FNUZ = ''float8e4m3fnuz''"
| "element_type_name E_FLOAT8E8M0 = ''float8e8m0''"
| "element_type_name E_FLOAT4E2M1 = ''float4e2m1''"
| "element_type_name E_FLOAT16 = ''float16''"
| "element_type_name E_DOUBLE = ''float64''"
| "element_type_name E_UINT32 = ''uint32''"
| "element_type_name E_UINT64 = ''uint64''"
| "element_type_name E_COMPLEX64 = ''complex64''"
| "element_type_name E_COMPLEX128 = ''complex128''"
| "element_type_name E_BFLOAT16 = ''bfloat16''"
| "element_type_name E_OTHER = ''unknown''"

record value_info =
  vname :: string
  velement_type :: element_type
  vshape :: "int list"
  vinput_shape :: "int list"

definition make_value_info :: "string \<Rightarrow> element_type \<Rightarrow> int list \<Rightarrow> value_info" where
  "make_value_info n t sh = \<lparr>vname = n, velement_type = t, vshape = sh, vinput_shape = []\<rparr>"

definition set_input_shape :: "int list \<Rightarrow> value_info \<Rightarrow> value_info" where
  "set_input_shape sh i = i\<lparr>vinput_shape := sh\<rparr>"

definition type_to_string :: "value_info \<Rightarrow> string" where
  "type_to_string i =
     element_type_name (velement_type i) @ ''['' @
     foldl (\<lambda>str dim. (if str \<noteq> [] then str @ '','' else str) @ int_to_string dim) [] (vshape i) @
     '']''"

section \<open>Packed and 8-bit elements\<close>

record ort_value =
  elem_count :: nat
  dims :: "int list"
  bytes :: "8 word list"
  strings :: "string list"

definition read_bytes :: "ort_value \<Rightarrow> nat \<Rightarrow> nat \<Rightarrow> 8 word list result" where
  "read_bytes t off n =
     (if off + n \<le> length (bytes t) then Inr (take n (drop off (bytes t)))
      else Inl (Undefined_behaviour ''read outside the tensor buffer''))"

definition byte_at :: "ort_value \<Rightarrow> nat \<Rightarrow> 8 word result" where
  "byte_at t i = andThen (read_bytes t i 1) (\<lambda>bs. Inr (hd bs))"

definition unpack_nibble :: "ort_value \<Rightarrow> nat \<Rightarrow> 8 word result" where
  "unpack_nibble data i =
     andThen (byte_at data (i div 2)) (\<lambda>byte.
       Inr (if i mod 2 = 0 then byte AND 0x0F else drop_bit 4 byte))"

definition unpack_2bit :: "ort_value \<Rightarrow> nat \<Rightarrow> 8 word result" where
  "unpack_2bit data i =
     andThen (byte_at data (i div 4)) (\<lambda>byte. Inr (drop_bit (i mod 4 * 2) byte AND 0x03))"

text \<open>
  \<^verbatim>\<open>decode_float8\<close>. Every value is a multiple of a small power of two, so the double arithmetic
  of the code is exact and the result is written as the exact rational.
\<close>

definition decode_float8 :: "nat \<Rightarrow> nat \<Rightarrow> int \<Rightarrow> bool \<Rightarrow> bool \<Rightarrow> 8 word \<Rightarrow> dbl" where
  "decode_float8 exp_bits mant_bits bias has_inf fnuz byte =
     (let exp = uint (drop_bit mant_bits byte AND mask exp_bits);
          mant = uint (byte AND mask mant_bits);
          exp_max = 2 ^ exp_bits - 1;
          sign = bit byte 7;
          scale = (2::rat) ^ mant_bits;
          finite_value =
            (if exp = 0 then Finite sign (of_int mant / scale * pow2 (1 - bias))
             else Finite sign ((1 + of_int mant / scale) * pow2 (exp - bias)))
      in if fnuz then (if byte = 0x80 then NaN else finite_value)
         else if exp = exp_max
         then (if has_inf then (if mant = 0 then Infinite sign else NaN)
               else if mant = 2 ^ mant_bits - 1 then NaN else finite_value)
         else finite_value)"

definition e2m1_magnitude :: "rat list" where
  "e2m1_magnitude = [0, 1 / 2, 1, 3 / 2, 2, 3, 4, 6]"

definition decode_e2m1 :: "8 word \<Rightarrow> dbl" where
  "decode_e2m1 n = Finite (bit n 3) (e2m1_magnitude ! unat (n AND 0x07))"

definition decode_e8m0 :: "8 word \<Rightarrow> dbl" where
  "decode_e8m0 b = (if b = 0xFF then NaN else Finite False (pow2 (uint b - 127)))"

section \<open>Elements of more than a byte\<close>

definition le_uint :: "8 word list \<Rightarrow> int" where
  "le_uint bs = foldr (\<lambda>b acc. uint b + 256 * acc) bs 0"

text \<open>An IEEE-754 value from its bits, with \<open>e\<close> exponent and \<open>m\<close> fraction bits.\<close>

definition ieee_value :: "nat \<Rightarrow> nat \<Rightarrow> int \<Rightarrow> dbl" where
  "ieee_value e m b =
     (let sign = (b div 2 ^ (e + m) mod 2 = 1); exp = b div 2 ^ m mod 2 ^ e; frac = b mod 2 ^ m;
          bias = 2 ^ (e - 1) - 1
      in if exp = 2 ^ e - 1 then (if frac = 0 then Infinite sign else NaN)
         else if exp = 0 then Finite sign (of_int frac * pow2 (1 - bias - int m))
         else Finite sign (of_int (2 ^ m + frac) * pow2 (exp - bias - int m)))"

definition read_uint :: "nat \<Rightarrow> ort_value \<Rightarrow> nat \<Rightarrow> int result" where
  "read_uint n t i = andThen (read_bytes t (i * n) n) (\<lambda>bs. Inr (le_uint bs))"

definition read_bool :: "ort_value \<Rightarrow> nat \<Rightarrow> bool result" where
  "read_bool t i =
     andThen (byte_at t i) (\<lambda>b.
       if b = 0 then Inr False else if b = 1 then Inr True
       else Inl (Undefined_behaviour ''bool representation''))"

definition read_string :: "ort_value \<Rightarrow> nat \<Rightarrow> string result" where
  "read_string t i =
     (if i < length (strings t) then Inr (strings t ! i) else Inl (Ort_exception ''element index''))"

definition read_float :: "ort_value \<Rightarrow> nat \<Rightarrow> dbl result" where
  "read_float t i = andThen (read_uint 4 t i) (\<lambda>b. Inr (ieee_value 8 23 b))"

definition read_double :: "ort_value \<Rightarrow> nat \<Rightarrow> dbl result" where
  "read_double t i = andThen (read_uint 8 t i) (\<lambda>b. Inr (ieee_value 11 52 b))"

definition complex_json :: "dbl \<Rightarrow> dbl \<Rightarrow> json" where
  "complex_json re im = JObject (om_put ''imag'' (JFloat im) (om_put ''real'' (JFloat re) []))"

text \<open>
  One element as a JSON value. The parameter converts the bits of a \<^verbatim>\<open>Float16_t\<close> and of a
  \<^verbatim>\<open>BFloat16_t\<close>.
\<close>

definition element_json ::
    "(element_type \<Rightarrow> int \<Rightarrow> dbl) \<Rightarrow> element_type \<Rightarrow> ort_value \<Rightarrow> nat \<Rightarrow> json result" where
  "element_json ort_half et t i =
     (let unsigned = (\<lambda>n. andThen (read_uint n t i) (\<lambda>x. Inr (JUInt x)));
          signed = (\<lambda>n. andThen (read_uint n t i) (\<lambda>x. Inr (JInt (wrap_signed (8 * n) x))));
          float8 = (\<lambda>decode. andThen (byte_at t i) (\<lambda>b. Inr (JFloat (decode b))))
      in case et of
           E_FLOAT \<Rightarrow> andThen (read_float t i) (\<lambda>d. Inr (JFloat d))
         | E_DOUBLE \<Rightarrow> andThen (read_double t i) (\<lambda>d. Inr (JFloat d))
         | E_UINT8 \<Rightarrow> unsigned 1
         | E_UINT16 \<Rightarrow> unsigned 2
         | E_UINT32 \<Rightarrow> unsigned 4
         | E_UINT64 \<Rightarrow> unsigned 8
         | E_INT8 \<Rightarrow> signed 1
         | E_INT16 \<Rightarrow> signed 2
         | E_INT32 \<Rightarrow> signed 4
         | E_INT64 \<Rightarrow> signed 8
         | E_UINT4 \<Rightarrow> andThen (unpack_nibble t i) (\<lambda>n. Inr (JUInt (uint n)))
         | E_INT4 \<Rightarrow> andThen (unpack_nibble t i) (\<lambda>n.
             Inr (JInt (if n \<ge> 8 then uint n - 16 else uint n)))
         | E_UINT2 \<Rightarrow> andThen (unpack_2bit t i) (\<lambda>b. Inr (JUInt (uint b)))
         | E_INT2 \<Rightarrow> andThen (unpack_2bit t i) (\<lambda>b.
             Inr (JInt (if b \<ge> 2 then uint b - 4 else uint b)))
         | E_FLOAT4E2M1 \<Rightarrow> andThen (unpack_nibble t i) (\<lambda>n. Inr (JFloat (decode_e2m1 n)))
         | E_STRING \<Rightarrow> andThen (read_string t i) (\<lambda>s. Inr (JString s))
         | E_BOOL \<Rightarrow> andThen (read_bool t i) (\<lambda>b. Inr (JBool b))
         | E_FLOAT8E5M2 \<Rightarrow> float8 (decode_float8 5 2 15 True False)
         | E_FLOAT8E5M2FNUZ \<Rightarrow> float8 (decode_float8 5 2 16 False True)
         | E_FLOAT8E4M3FN \<Rightarrow> float8 (decode_float8 4 3 7 False False)
         | E_FLOAT8E4M3FNUZ \<Rightarrow> float8 (decode_float8 4 3 8 False True)
         | E_FLOAT8E8M0 \<Rightarrow> float8 decode_e8m0
         | E_FLOAT16 \<Rightarrow> andThen (read_uint 2 t i) (\<lambda>b. Inr (JFloat (ort_half E_FLOAT16 b)))
         | E_BFLOAT16 \<Rightarrow> andThen (read_uint 2 t i) (\<lambda>b. Inr (JFloat (ort_half E_BFLOAT16 b)))
         | E_COMPLEX64 \<Rightarrow> andThen (read_float t (2 * i)) (\<lambda>re.
             andThen (read_float t (2 * i + 1)) (\<lambda>im. Inr (complex_json re im)))
         | E_COMPLEX128 \<Rightarrow> andThen (read_double t (2 * i)) (\<lambda>re.
             andThen (read_double t (2 * i + 1)) (\<lambda>im. Inr (complex_json re im)))
         | _ \<Rightarrow> Inr JNull)"

section \<open>The shape\<close>

text \<open>
  One level of \<^verbatim>\<open>values_fit_shape\<close>: consecutive rows of \<open>row\<close> values. A row that would run past
  the end reads outside the vector; rows of length zero are appended until memory runs out.
\<close>

function fit_rows :: "nat \<Rightarrow> json list \<Rightarrow> json list result" where
  "fit_rows row values =
     (if values = [] then Inr []
      else if row = 0 then Inl (Std_exception ''std::bad_alloc'')
      else if length values < row then Inl (Undefined_behaviour ''read outside a vector'')
      else andThen (fit_rows row (drop row values)) (\<lambda>rows. Inr (JArray (take row values) # rows)))"
  by pat_completeness auto
termination by (relation "measure (\<lambda>(_, vs). length vs)") auto

declare fit_rows.simps [simp del]

text \<open>
  The argument \<open>depth\<close> is unsigned: at 0 the decrement wraps, and the shape is read far out of
  its bounds.
\<close>

fun values_fit_shape :: "json list \<Rightarrow> int list \<Rightarrow> nat \<Rightarrow> json list result" where
  "values_fit_shape values shape 0 = Inl (Undefined_behaviour ''read outside a vector'')"
| "values_fit_shape values shape (Suc depth) =
     (if depth = 0 then Inr values
      else if length shape \<le> depth then Inl (Undefined_behaviour ''read outside a vector'')
      else andThen (fit_rows (nat (wrap_unsigned 64 (shape ! depth))) values)
             (\<lambda>result. values_fit_shape result shape depth))"

definition tensor_elements ::
    "(element_type \<Rightarrow> int \<Rightarrow> dbl) \<Rightarrow> element_type \<Rightarrow> ort_value \<Rightarrow> json list result" where
  "tensor_elements ort_half et t =
     (if et = E_UNDEFINED \<or> et = E_OTHER then Inr []
      else mapR (element_json ort_half et t) [0..<elem_count t])"

definition get_tensor_data ::
    "(element_type \<Rightarrow> int \<Rightarrow> dbl) \<Rightarrow> value_info \<Rightarrow> ort_value \<Rightarrow> json list result" where
  "get_tensor_data ort_half info t =
     andThen (tensor_elements ort_half (velement_type info) t)
       (\<lambda>values. values_fit_shape values (dims t) (length (dims t)))"

section \<open>8-bit floats\<close>

fun dbl_less :: "dbl \<Rightarrow> dbl \<Rightarrow> bool" where
  "dbl_less (Finite s p) (Finite t q) = ((if s then - p else p) < (if t then - q else q))"
| "dbl_less (Finite _ _) (Infinite t) = (\<not> t)"
| "dbl_less (Infinite s) (Finite _ _) = s"
| "dbl_less (Infinite s) (Infinite t) = (s \<and> \<not> t)"
| "dbl_less _ _ = False"

fun dbl_negate :: "dbl \<Rightarrow> dbl" where
  "dbl_negate (Finite s q) = Finite (\<not> s) q"
| "dbl_negate (Infinite s) = Infinite (\<not> s)"
| "dbl_negate NaN = NaN"

text \<open>The bytes \<open>0 .. n\<close> decode to increasing values, with the sign bit to the negated ones.\<close>

definition increasing :: "(8 word \<Rightarrow> dbl) \<Rightarrow> nat \<Rightarrow> bool" where
  "increasing f n \<longleftrightarrow> list_all (\<lambda>i. dbl_less (f (word_of_nat i)) (f (word_of_nat (Suc i)))) [0..<n]"

definition sign_bit_negates :: "(8 word \<Rightarrow> dbl) \<Rightarrow> nat \<Rightarrow> bool" where
  "sign_bit_negates f n \<longleftrightarrow>
     list_all (\<lambda>i. f (word_of_nat (i + 128)) = dbl_negate (f (word_of_nat i))) [1..<Suc n]"

lemma e5m2_increasing: "increasing (decode_float8 5 2 15 True False) 0x7C"
  by code_simp

lemma e5m2_sign: "sign_bit_negates (decode_float8 5 2 15 True False) 0x7C"
  by code_simp

lemma e5m2fnuz_increasing: "increasing (decode_float8 5 2 16 False True) 0x7F"
  by code_simp

lemma e5m2fnuz_sign: "sign_bit_negates (decode_float8 5 2 16 False True) 0x7F"
  by code_simp

lemma e4m3fn_increasing: "increasing (decode_float8 4 3 7 False False) 0x7E"
  by code_simp

lemma e4m3fn_sign: "sign_bit_negates (decode_float8 4 3 7 False False) 0x7E"
  by code_simp

lemma e4m3fnuz_increasing: "increasing (decode_float8 4 3 8 False True) 0x7F"
  by code_simp

lemma e4m3fnuz_sign: "sign_bit_negates (decode_float8 4 3 8 False True) 0x7F"
  by code_simp

section \<open>Packed elements\<close>

definition data_of :: "8 word list \<Rightarrow> ort_value" where
  "data_of bs = \<lparr>elem_count = 0, dims = [], bytes = bs, strings = []\<rparr>"

text \<open>The packing the runtime uses: the first element in the lowest bits.\<close>

fun pack_nibbles :: "8 word list \<Rightarrow> 8 word list" where
  "pack_nibbles (a # b # ns) = (a OR push_bit 4 b) # pack_nibbles ns"
| "pack_nibbles [a] = [a]"
| "pack_nibbles [] = []"

fun pack_2bits :: "8 word list \<Rightarrow> 8 word list" where
  "pack_2bits (a # b # c # d # ns) =
     (a OR push_bit 2 b OR push_bit 4 c OR push_bit 6 d) # pack_2bits ns"
| "pack_2bits [a, b, c] = [a OR push_bit 2 b OR push_bit 4 c]"
| "pack_2bits [a, b] = [a OR push_bit 2 b]"
| "pack_2bits [a] = [a]"
| "pack_2bits [] = []"

lemma byte_at_data: "byte_at (data_of bs) i =
    (if i < length bs then Inr (bs ! i) else Inl (Undefined_behaviour ''read outside the tensor buffer''))"
  by (auto simp: byte_at_def read_bytes_def data_of_def hd_drop_conv_nth)

lemma nibble_fields:
  fixes a b :: "8 word"
  assumes "a AND mask 4 = a" and "b AND mask 4 = b"
  shows "(a OR push_bit 4 b) AND 0x0F = a" and "drop_bit 4 (a OR push_bit 4 b) = b"
proof -
  have a: "bit a n \<Longrightarrow> n < 4" and b: "bit b n \<Longrightarrow> n < 4" for n
    using assms by (metis bit_and_iff bit_mask_iff)+
  have m: "(0x0F::8 word) = mask 4" by (simp add: mask_eq_exp_minus_1)
  show "(a OR push_bit 4 b) AND 0x0F = a"
    unfolding m by (rule bit_eqI) (auto simp: bit_simps dest: a b)
  show "drop_bit 4 (a OR push_bit 4 b) = b"
    by (rule bit_eqI) (auto simp: bit_simps dest: a b)
qed

lemma unpack_nibble_Cons:
  "unpack_nibble (data_of (x # bs)) (Suc (Suc i)) = unpack_nibble (data_of bs) i"
  by (simp add: unpack_nibble_def byte_at_data)

lemma unpack_pack_nibbles:
  "\<forall>n \<in> set ns. n AND mask 4 = n \<Longrightarrow> i < length ns \<Longrightarrow>
   unpack_nibble (data_of (pack_nibbles ns)) i = Inr (ns ! i)"
proof (induction ns arbitrary: i rule: pack_nibbles.induct)
  case (1 a b ns)
  note f = nibble_fields[of a b]
  consider "i = 0" | "i = 1" | j where "i = Suc (Suc j)" by (cases i; cases "i - 1") auto
  then show ?case
  proof cases
    case 3
    then show ?thesis using 1 by (simp add: unpack_nibble_Cons)
  qed (use 1 f in \<open>simp_all add: unpack_nibble_def byte_at_data\<close>)
next
  case (2 a)
  have "(0x0F::8 word) = mask 4" by (simp add: mask_eq_exp_minus_1)
  with 2 show ?case by (simp add: unpack_nibble_def byte_at_data)
qed simp

lemma fields_2bit:
  fixes a b c d :: "8 word"
  assumes "a AND mask 2 = a" and "b AND mask 2 = b" and "c AND mask 2 = c" and "d AND mask 2 = d"
  shows "(a OR push_bit 2 b OR push_bit 4 c OR push_bit 6 d) AND 3 = a"
    and "drop_bit 2 (a OR push_bit 2 b OR push_bit 4 c OR push_bit 6 d) AND 3 = b"
    and "drop_bit 4 (a OR push_bit 2 b OR push_bit 4 c OR push_bit 6 d) AND 3 = c"
    and "drop_bit 6 (a OR push_bit 2 b OR push_bit 4 c OR push_bit 6 d) AND 3 = d"
proof -
  have a: "bit a n \<Longrightarrow> n < 2" and b: "bit b n \<Longrightarrow> n < 2" and c: "bit c n \<Longrightarrow> n < 2"
    and d: "bit d n \<Longrightarrow> n < 2" for n
    using assms by (metis bit_and_iff bit_mask_iff)+
  have m: "(3::8 word) = mask 2" by (simp add: mask_eq_exp_minus_1)
  show "(a OR push_bit 2 b OR push_bit 4 c OR push_bit 6 d) AND 3 = a"
    unfolding m by (rule bit_eqI) (auto simp: bit_simps dest: a b c d)
  show "drop_bit 2 (a OR push_bit 2 b OR push_bit 4 c OR push_bit 6 d) AND 3 = b"
    unfolding m by (rule bit_eqI) (auto simp: bit_simps dest: a b c d)
  show "drop_bit 4 (a OR push_bit 2 b OR push_bit 4 c OR push_bit 6 d) AND 3 = c"
    unfolding m by (rule bit_eqI) (auto simp: bit_simps dest: a b c d)
  show "drop_bit 6 (a OR push_bit 2 b OR push_bit 4 c OR push_bit 6 d) AND 3 = d"
    unfolding m by (rule bit_eqI) (auto simp: bit_simps dest: a b c d)
qed

lemma unpack_2bit_Cons:
  "unpack_2bit (data_of (x # bs)) (Suc (Suc (Suc (Suc i)))) = unpack_2bit (data_of bs) i"
proof -
  have "Suc (Suc (Suc (Suc i))) div 4 = Suc (i div 4)" "Suc (Suc (Suc (Suc i))) mod 4 = i mod 4"
    by presburger+
  then show ?thesis by (simp add: unpack_2bit_def byte_at_data)
qed

lemma unpack_pack_2bits:
  "\<forall>n \<in> set ns. n AND mask 2 = n \<Longrightarrow> i < length ns \<Longrightarrow>
   unpack_2bit (data_of (pack_2bits ns)) i = Inr (ns ! i)"
proof (induction ns arbitrary: i rule: pack_2bits.induct)
  case (1 a b c d ns)
  note f = fields_2bit[of a b c d]
  consider "i < 4" | j where "i = Suc (Suc (Suc (Suc j)))" by (metis not_less_eq numeral_eq_Suc pred_numeral_simps(2) pred_numeral_simps(3) BitM.simps(1) BitM.simps(2) old.nat.exhaust zero_less_Suc)
  then show ?case
  proof cases
    case 1
    then have "i = 0 \<or> i = 1 \<or> i = 2 \<or> i = 3" by auto
    then show ?thesis using "1.prems" f by (auto simp: unpack_2bit_def byte_at_data)
  next
    case 2
    then show ?thesis using "1.prems" "1.IH" by (simp add: unpack_2bit_Cons)
  qed
next
  case (2 a b c)
  then have "i = 0 \<or> i = 1 \<or> i = 2" by auto
  then show ?case using 2 fields_2bit[of a b c 0] by (auto simp: unpack_2bit_def byte_at_data)
next
  case (3 a b)
  then have "i = 0 \<or> i = 1" by auto
  then show ?case using 3 fields_2bit[of a b 0 0] by (auto simp: unpack_2bit_def byte_at_data)
next
  case (4 a)
  then show ?case using fields_2bit[of a 0 0 0] by (auto simp: unpack_2bit_def byte_at_data)
qed simp

section \<open>Properties\<close>

text \<open>
  The hand-written 8-bit float decoder is an order embedding for all four formats: the
  positive bytes decode to strictly increasing values up to the largest finite one (for e5m2 up
  to infinity), and setting the sign bit negates the value.
\<close>

theorem float8_order:
  "increasing (decode_float8 5 2 15 True False) 0x7C \<and>
   increasing (decode_float8 5 2 16 False True) 0x7F \<and>
   increasing (decode_float8 4 3 7 False False) 0x7E \<and>
   increasing (decode_float8 4 3 8 False True) 0x7F \<and>
   sign_bit_negates (decode_float8 5 2 15 True False) 0x7C \<and>
   sign_bit_negates (decode_float8 5 2 16 False True) 0x7F \<and>
   sign_bit_negates (decode_float8 4 3 7 False False) 0x7E \<and>
   sign_bit_negates (decode_float8 4 3 8 False True) 0x7F"
  by (intro conjI e5m2_increasing e5m2fnuz_increasing e4m3fn_increasing e4m3fnuz_increasing
      e5m2_sign e5m2fnuz_sign e4m3fn_sign e4m3fnuz_sign)

text \<open>
  C36. The unpacking of 4-bit and 2-bit elements inverts the packing of the runtime, at every
  index and for odd lengths too.
\<close>

theorem packed_elements:
  assumes "i < length ns"
  shows "(list_all (\<lambda>n. n AND mask 4 = n) ns \<longrightarrow>
           unpack_nibble (data_of (pack_nibbles ns)) i = Inr (ns ! i)) \<and>
    (list_all (\<lambda>n. n AND mask 2 = n) ns \<longrightarrow>
           unpack_2bit (data_of (pack_2bits ns)) i = Inr (ns ! i))"
  using assms unpack_pack_nibbles[of ns i] unpack_pack_2bits[of ns i] by (simp add: list_all_iff)

theorem packed_elements_witness:
  "unpack_nibble (data_of (pack_nibbles [1, 2, 3])) 2 = Inr 3 \<and>
   unpack_2bit (data_of (pack_2bits [1, 2, 3])) 1 = Inr 2"
  using packed_elements[of 2 "[1, 2, 3]"] packed_elements[of 1 "[1, 2, 3]"]
  by (simp add: mask_eq_exp_minus_1)

text \<open>
  A scalar output (a tensor of rank 0) is not converted: its depth 0 is decremented as an
  unsigned number, and the shape is read out of bounds.
\<close>

theorem scalar_output:
  assumes "dims t = []" and "tensor_elements h (velement_type info) t = Inr vs"
  shows "get_tensor_data h info t = Inl (Undefined_behaviour ''read outside a vector'')"
  using assms by (simp add: get_tensor_data_def)

theorem scalar_output_witness:
  "get_tensor_data (\<lambda>_ _. NaN) (make_value_info ''y'' E_UINT8 [])
     \<lparr>elem_count = 1, dims = [], bytes = [7], strings = []\<rparr> =
   Inl (Undefined_behaviour ''read outside a vector'')"
  by (rule scalar_output) (code_simp+)

end
