(* ===== verification/Input_Value.thy ===== *)
theory Input_Value
  imports Value_Info
begin

text \<open>
  From JSON to input tensors: the tensor walks of \<^verbatim>\<open>src/src/onnx/execution/context.cpp\<close>
  (\<^verbatim>\<open>flat_json_values\<close>, \<^verbatim>\<open>calcShape\<close>) and \<^verbatim>\<open>src/src/onnx/execution/input_value.cpp\<close>. What
  \<^verbatim>\<open>Ort::Value::CreateTensor\<close> makes of the elements and the shape is a parameter.
\<close>

section \<open>Walking a nested array\<close>

text \<open>\<^verbatim>\<open>context::flat_json_values\<close>: the non-arrays in order.\<close>

fun flat_json_values :: "json \<Rightarrow> json list" where
  "flat_json_values (JArray xs) = concat (map flat_json_values xs)"
| "flat_json_values v = [v]"

text \<open>
  \<^verbatim>\<open>context::calcShape\<close>: down the first elements, at most \<open>count\<close> levels. On the way back a 1 is
  pushed when the shape is one short of the count of that level; for \<open>count = 0\<close> the comparison
  is with an unsigned -1 and never holds.
\<close>

fun calcShape :: "json \<Rightarrow> nat \<Rightarrow> int list \<Rightarrow> int list" where
  "calcShape data 0 input_shape = input_shape"
| "calcShape data (Suc count) input_shape =
     (let sh = (case data of
                  JArray (item # items) \<Rightarrow>
                    calcShape item count (input_shape @ [int (length (item # items))])
                | _ \<Rightarrow> input_shape)
      in if length sh = count then sh @ [1] else sh)"

section \<open>Building a tensor\<close>

datatype cell =
    C_float dbl | C_double dbl | C_int int | C_bool bool | C_bfloat16 dbl | C_float16 dbl
  | C_string string

type_synonym 'v create_tensor = "element_type \<Rightarrow> cell list \<Rightarrow> int list \<Rightarrow> 'v result"

text \<open>
  \<^verbatim>\<open>val.get<t>()\<close> for the element type; \<^const>\<open>None\<close> for a type that is not supported. The types
  \<^verbatim>\<open>float_t\<close> and \<^verbatim>\<open>double_t\<close> are \<^verbatim>\<open>float\<close> and \<^verbatim>\<open>double\<close>.
\<close>

definition cell_of :: "element_type \<Rightarrow> (json \<Rightarrow> cell result) option" where
  "cell_of et =
     (let as = (\<lambda>get con. Some (\<lambda>j. andThen (get j) (\<lambda>x. Inr (con x))))
      in case et of
           E_FLOAT \<Rightarrow> Some (\<lambda>j. andThen (get_float j) (\<lambda>x. Inr (C_float x)))
         | E_DOUBLE \<Rightarrow> Some (\<lambda>j. andThen (get_double j) (\<lambda>x. Inr (C_double x)))
         | E_INT8 \<Rightarrow> as (get_signed 8) C_int
         | E_INT16 \<Rightarrow> as (get_signed 16) C_int
         | E_INT32 \<Rightarrow> as (get_signed 32) C_int
         | E_INT64 \<Rightarrow> as get_int64 C_int
         | E_UINT8 \<Rightarrow> as (get_unsigned 8) C_int
         | E_UINT16 \<Rightarrow> as (get_unsigned 16) C_int
         | E_UINT32 \<Rightarrow> as (get_unsigned 32) C_int
         | E_UINT64 \<Rightarrow> as get_uint64 C_int
         | E_BOOL \<Rightarrow> Some (\<lambda>j. andThen (get_boolean j) (\<lambda>x. Inr (C_bool x)))
         | E_BFLOAT16 \<Rightarrow> Some (\<lambda>j. andThen (get_float j) (\<lambda>x. Inr (C_bfloat16 x)))
         | E_FLOAT16 \<Rightarrow> Some (\<lambda>j. andThen (get_float j) (\<lambda>x. Inr (C_float16 x)))
         | E_STRING \<Rightarrow> Some (\<lambda>j. andThen (get_string j) (\<lambda>x. Inr (C_string x)))
         | _ \<Rightarrow> None)"

text \<open>
  One step of the batch computation, \<^verbatim>\<open>max(1.0, ceil((double) batch / (double) s))\<close> converted
  to \<^verbatim>\<open>int64_t\<close>. Doubles hold counts below \<open>2 ^ 53\<close> exactly, and the quotient of two of them
  rounds to a double with the same ceiling. Dividing by zero gives an infinity, whose conversion
  is undefined, or a NaN, which \<^verbatim>\<open>max\<close> drops.
\<close>

definition batch_step :: "int \<Rightarrow> int \<Rightarrow> int result" where
  "batch_step s batch =
     (if s = -1 then Inr batch
      else if s = 0
      then (if batch = 0 then Inr 1
            else Inl (Undefined_behaviour ''float to integer''))
      else Inr (max 1 \<lceil>rat_of_int batch / rat_of_int s\<rceil>))"

fun replace_first :: "int \<Rightarrow> int \<Rightarrow> int list \<Rightarrow> int list" where
  "replace_first x y [] = []"
| "replace_first x y (s # ss) = (if s = x then y # ss else s # replace_first x y ss)"

definition batched_shape :: "int list \<Rightarrow> nat \<Rightarrow> int list result" where
  "batched_shape shape value_count =
     (if -1 \<notin> set shape then Inr shape
      else andThen (foldR batch_step shape (int value_count)) (\<lambda>batch.
        Inr (replace_first (-1) batch shape)))"

definition make_input_value ::
    "'v create_tensor \<Rightarrow> value_info \<Rightarrow> json list \<Rightarrow> 'v result" where
  "make_input_value create info json_values =
     (case cell_of (velement_type info) of
        None \<Rightarrow> Inl (Orts_exception bad_request_error
          (''Not supported type: '' @ element_type_name (velement_type info)))
      | Some get \<Rightarrow>
          andThen (mapR get json_values) (\<lambda>cells.
            if velement_type info = E_BOOL
            then andThen (batched_shape (vshape info) (length json_values))
                   (create E_BOOL cells)
            else create (velement_type info) cells (vinput_shape info)))"

section \<open>Fitting values to a shape\<close>

fun array_items :: "json \<Rightarrow> json list" where
  "array_items (JArray xs) = xs"
| "array_items _ = []"

lemma fit_rows_ok:
  assumes "0 < row"
  shows "length vs = n * row \<Longrightarrow> \<exists>rows. fit_rows row vs = Inr rows \<and> length rows = n \<and>
    concat (map array_items rows) = vs \<and>
    (\<forall>r \<in> set rows. \<exists>xs. r = JArray xs \<and> length xs = row)"
proof (induction n arbitrary: vs)
  case (Suc n)
  then have len: "row \<le> length vs" "length (drop row vs) = n * row" by simp_all
  from Suc.IH[OF len(2)] obtain rows where r: "fit_rows row (drop row vs) = Inr rows"
    "length rows = n" "concat (map array_items rows) = drop row vs"
    "\<forall>r \<in> set rows. \<exists>xs. r = JArray xs \<and> length xs = row" by auto
  have "vs \<noteq> []" using assms len by auto
  then have "fit_rows row vs = Inr (JArray (take row vs) # rows)"
    using assms len r by (subst fit_rows.simps) simp
  then show ?case using r len by auto
qed (simp add: fit_rows.simps)

text \<open>A value of the given shape: arrays of exactly these lengths around non-arrays.\<close>

fun has_shape :: "int list \<Rightarrow> json \<Rightarrow> bool" where
  "has_shape [] v = (\<not> is_array v)"
| "has_shape (d # ds) v = (case v of JArray xs \<Rightarrow> int (length xs) = d \<and> (\<forall>x \<in> set xs. has_shape ds x) | _ \<Rightarrow> False)"

definition dims_ok :: "int list \<Rightarrow> bool" where
  "dims_ok ds \<longleftrightarrow> list_all (\<lambda>d. 0 < d \<and> d < 2 ^ 63) ds"

definition volume :: "int list \<Rightarrow> nat" where
  "volume ds = prod_list (map nat ds)"

lemma flat_concat: "\<forall>r \<in> set rows. is_array r \<Longrightarrow>
  concat (map flat_json_values rows) = concat (map flat_json_values (concat (map array_items rows)))"
proof (induction rows)
  case (Cons r rows)
  then obtain xs where "r = JArray xs" by (cases r) auto
  then show ?case using Cons by simp
qed simp

lemma dims_wrap: "dims_ok ds \<Longrightarrow> i < length ds \<Longrightarrow> nat (wrap_unsigned 64 (ds ! i)) = nat (ds ! i) \<and> 0 < ds ! i"
  by (auto simp: dims_ok_def list_all_length wrap_unsigned_def)

lemma values_fit_shape_ok:
  assumes "dims_ok ds"
  shows "k < length ds \<Longrightarrow> length vs = volume (take (Suc k) ds) \<Longrightarrow>
    \<forall>v \<in> set vs. has_shape (drop (Suc k) ds) v \<Longrightarrow>
    \<exists>rows. values_fit_shape vs ds (Suc k) = Inr rows \<and> has_shape ds (JArray rows) \<and>
      concat (map flat_json_values rows) = concat (map flat_json_values vs)"
proof (induction k arbitrary: vs)
  case 0
  then obtain d ds' where ds: "ds = d # ds'" by (cases ds) auto
  then show ?case using 0 assms by (auto simp: volume_def dims_ok_def)
next
  case (Suc k)
  let ?d = "nat (ds ! Suc k)"
  have d: "nat (wrap_unsigned 64 (ds ! Suc k)) = ?d" "0 < ?d"
    using dims_wrap[OF assms Suc.prems(1)] by auto
  have "length vs = volume (take (Suc k) ds) * ?d"
    using Suc.prems(1,2) by (simp add: volume_def take_Suc_conv_app_nth del: take_Suc)
  from fit_rows_ok[OF d(2) this] obtain rows where rows: "fit_rows ?d vs = Inr rows"
    "length rows = volume (take (Suc k) ds)" "concat (map array_items rows) = vs"
    "\<forall>r \<in> set rows. \<exists>xs. r = JArray xs \<and> length xs = ?d" by auto
  have drop: "drop (Suc k) ds = ds ! Suc k # drop (Suc (Suc k)) ds"
    using Suc.prems(1) by (simp add: Cons_nth_drop_Suc)
  have "has_shape (drop (Suc k) ds) r" if r: "r \<in> set rows" for r
  proof -
    from rows(4) r obtain xs where xs: "r = JArray xs" "length xs = ?d" by blast
    have "set vs = (\<Union>r \<in> set rows. set (array_items r))" by (simp flip: rows(3))
    then have "set xs \<subseteq> set vs" using r xs(1) by force
    then show ?thesis using Suc.prems(3) drop xs d(2) by auto
  qed
  moreover have "\<forall>r \<in> set rows. is_array r" using rows(4) by auto
  ultimately show ?case
    using Suc.IH[of rows] Suc.prems(1) rows d(1) flat_concat[of rows] by auto
qed

lemma element_json_scalar: "element_json h et t i = Inr v \<Longrightarrow> \<not> is_array v"
  by (cases et) (auto simp: element_json_def Let_def andThen_eq_Inr complex_json_def)

lemma tensor_elements_scalar:
  "tensor_elements h et t = Inr vs \<Longrightarrow> \<forall>v \<in> set vs. \<not> is_array v"
  by (auto simp: tensor_elements_def dest: mapR_set element_json_scalar split: if_splits)

lemma flat_scalars: "\<forall>v \<in> set vs. \<not> is_array v \<Longrightarrow> concat (map flat_json_values vs) = vs"
proof (induction vs)
  case (Cons v vs)
  then show ?case by (cases v) auto
qed simp

lemma get_tensor_data_ok:
  assumes vs: "tensor_elements h (velement_type info) t = Inr vs"
    and "dims_ok (dims t)" and "dims t \<noteq> []" and "length vs = volume (dims t)"
  shows "\<exists>rows. get_tensor_data h info t = Inr rows \<and> has_shape (dims t) (JArray rows) \<and>
    flat_json_values (JArray rows) = vs"
proof -
  obtain k where k: "length (dims t) = Suc k" using assms(3) by (cases "dims t") auto
  note sc = tensor_elements_scalar[OF vs]
  show ?thesis
    using values_fit_shape_ok[OF assms(2), of k vs] k sc assms(4) vs flat_scalars[OF sc]
    by (auto simp: get_tensor_data_def)
qed

section \<open>Shapes of nested arrays\<close>

lemma calcShape_has_shape:
  "has_shape ds j \<Longrightarrow> dims_ok ds \<Longrightarrow> calcShape j (length ds) acc = acc @ ds"
proof (induction ds arbitrary: j acc)
  case (Cons d ds)
  from Cons.prems(1) obtain xs where xs: "j = JArray xs" "int (length xs) = d"
    "\<forall>x \<in> set xs. has_shape ds x" by (cases j) auto
  then obtain y ys where "xs = y # ys" using Cons.prems(2) by (cases xs) (auto simp: dims_ok_def)
  then show ?case using xs Cons.IH[of y "acc @ [d]"] Cons.prems(2) by (simp add: dims_ok_def)
qed simp

lemma length_concat_const: "\<forall>x \<in> set xs. length (f x) = n \<Longrightarrow> length (concat (map f xs)) = length xs * n"
  by (induction xs) auto

lemma length_flat: "has_shape ds j \<Longrightarrow> length (flat_json_values j) = volume ds"
proof (induction ds arbitrary: j)
  case Nil
  then show ?case by (cases j) (auto simp: volume_def)
next
  case (Cons d ds)
  then obtain xs where xs: "j = JArray xs" "nat d = length xs" "\<forall>x \<in> set xs. has_shape ds x"
    by (cases j) auto
  then show ?case
    using Cons.IH length_concat_const[of xs flat_json_values "volume ds"] by (simp add: volume_def)
qed

text \<open>The lengths met on the way down the first elements.\<close>

fun first_path :: "json \<Rightarrow> nat \<Rightarrow> int list" where
  "first_path data 0 = []"
| "first_path data (Suc count) =
     (case data of
        JArray (item # items) \<Rightarrow> int (length (item # items)) # first_path item count
      | _ \<Rightarrow> [])"

lemma length_first_path: "length (first_path j n) \<le> n"
  by (induction j n rule: first_path.induct) (auto split: json.split list.split)

lemma calcShape_path:
  "calcShape j n acc = acc @ first_path j n @
     (if n \<le> length acc + 2 * length (first_path j n) + 1 \<and>
         length acc + length (first_path j n) < n
      then replicate (n - (length acc + length (first_path j n))) 1 else [])"
proof (induction j n arbitrary: acc rule: first_path.induct)
  case (2 data count)
  show ?case
  proof (cases "\<exists>item items. data = JArray (item # items)")
    case True
    then obtain item items where d: "data = JArray (item # items)" by auto
    let ?l = "int (length (item # items))"
    let ?k = "length acc + length (first_path item count)"
    have ih: "calcShape item count (acc @ [?l]) = acc @ ?l # first_path item count @
      (if count \<le> length acc + 2 * length (first_path item count) + 2 \<and> Suc ?k < count
       then replicate (count - Suc ?k) 1 else [])"
      using "2.IH"[OF d refl, of "acc @ [?l]"] by simp
    consider "Suc ?k < count" | "Suc ?k = count" | "count < Suc ?k" by linarith
    then show ?thesis
    proof cases
      case 1
      then have "count - ?k = Suc (count - Suc ?k)" by simp
      then show ?thesis
        using d ih 1 by (auto simp: Let_def replicate_append_same[symmetric])
    qed (use d ih in \<open>auto simp: Let_def Suc_diff_le\<close>)
  next
    case False
    moreover have "Suc count - length acc = 1" if "count \<le> length acc" "length acc < Suc count"
      using that by simp
    ultimately show ?thesis by (cases data) (auto simp: Let_def neq_Nil_conv split: list.split)
  qed
qed simp

section \<open>Batch sizes\<close>

lemma ceiling_ceiling_div:
  fixes x :: rat
  assumes "0 < s"
  shows "\<lceil>rat_of_int \<lceil>x\<rceil> / rat_of_int s\<rceil> = \<lceil>x / rat_of_int s\<rceil>"
proof (rule antisym)
  have "x \<le> of_int (\<lceil>x / rat_of_int s\<rceil> * s)"
    using iffD1[OF pos_divide_le_eq le_of_int_ceiling[of "x / rat_of_int s"]] assms by simp
  then have "\<lceil>x\<rceil> \<le> \<lceil>x / rat_of_int s\<rceil> * s" by (simp only: ceiling_le_iff)
  then show "\<lceil>rat_of_int \<lceil>x\<rceil> / rat_of_int s\<rceil> \<le> \<lceil>x / rat_of_int s\<rceil>"
    using assms by (simp add: ceiling_le_iff pos_divide_le_eq flip: of_int_mult)
  show "\<lceil>x / rat_of_int s\<rceil> \<le> \<lceil>rat_of_int \<lceil>x\<rceil> / rat_of_int s\<rceil>"
    using assms by (intro ceiling_mono divide_right_mono) auto
qed

lemma batch_steps:
  "list_all (\<lambda>s. s = -1 \<or> 0 < s) ss \<Longrightarrow>
   foldR batch_step ss (max b \<lceil>x\<rceil>) = Inr (max b \<lceil>x / rat_of_int (prod_list (filter (\<lambda>s. s \<noteq> -1) ss))\<rceil>)"
  if "b = 1"
  using that
proof (induction ss arbitrary: x)
  case (Cons s ss)
  show ?case
  proof (cases "s = -1")
    case False
    then have s: "0 < s" using Cons.prems by auto
    have "max 1 \<lceil>rat_of_int (max 1 \<lceil>x\<rceil>) / rat_of_int s\<rceil> = max 1 \<lceil>x / rat_of_int s\<rceil>"
    proof (cases "\<lceil>x\<rceil> \<le> 1")
      case True
      then have "x \<le> 1" by (simp add: ceiling_le_iff)
      then have "\<lceil>x / rat_of_int s\<rceil> \<le> 1" and "\<lceil>1 / rat_of_int s\<rceil> \<le> 1"
        using s by (auto simp: ceiling_le_iff pos_divide_le_eq)
      then show ?thesis using True by simp
    next
      case False
      then show ?thesis using ceiling_ceiling_div[OF s, of x] by (simp add: max_def)
    qed
    then show ?thesis using Cons s by (simp add: batch_step_def divide_divide_eq_left)
  qed (use Cons in \<open>simp add: batch_step_def\<close>)
qed simp

lemma replace_first_split: "x \<notin> set xs \<Longrightarrow> replace_first x y (xs @ x # ys) = xs @ y # ys"
  by (induction xs) auto

lemma prod_list_pos: "\<forall>s \<in> set ss. 0 < s \<Longrightarrow> 0 < prod_list (ss :: int list)"
  by (induction ss) auto

lemma batched_shape_dynamic:
  assumes xs: "list_all (\<lambda>s. 0 < s) xs" and ys: "list_all (\<lambda>s. 0 < s) ys" and n: "0 < n"
  shows "batched_shape (xs @ -1 # ys) n =
    Inr (xs @ \<lceil>rat_of_nat n / rat_of_int (prod_list xs * prod_list ys)\<rceil> # ys)"
proof -
  let ?ss = "xs @ -1 # ys"
  have "list_all (\<lambda>s. s = -1 \<or> 0 < s) ?ss" and m: "-1 \<notin> set xs" "-1 \<notin> set ys"
    using xs ys by (auto simp: list_all_iff)
  from batch_steps[OF refl this(1), of "of_nat n"]
  have "foldR batch_step ?ss (int n) =
      Inr (max 1 \<lceil>rat_of_nat n / rat_of_int (prod_list (filter (\<lambda>s. s \<noteq> -1) ?ss))\<rceil>)"
    using n by (simp add: max_absorb2)
  moreover have "filter (\<lambda>s. s \<noteq> -1) xs = xs" "filter (\<lambda>s. s \<noteq> -1) ys = ys"
    using m by (auto intro!: filter_True)
  moreover have "0 < prod_list xs * prod_list ys"
    using xs ys by (auto simp: list_all_iff intro!: prod_list_pos mult_pos_pos)
  then have "1 \<le> \<lceil>rat_of_nat n / rat_of_int (prod_list xs * prod_list ys)\<rceil>"
    using n by (simp add: one_le_ceiling zero_less_divide_iff flip: of_int_mult)
  ultimately show ?thesis
    using replace_first_split[OF m(1)] by (simp add: batched_shape_def max_absorb2)
qed

section \<open>Integer elements\<close>

definition int_width :: "element_type \<Rightarrow> nat option" where
  "int_width et = (case et of E_INT8 \<Rightarrow> Some 8 | E_INT16 \<Rightarrow> Some 16 | E_INT32 \<Rightarrow> Some 32
     | E_INT64 \<Rightarrow> Some 64 | _ \<Rightarrow> None)"

definition uint_width :: "element_type \<Rightarrow> nat option" where
  "uint_width et = (case et of E_UINT8 \<Rightarrow> Some 8 | E_UINT16 \<Rightarrow> Some 16 | E_UINT32 \<Rightarrow> Some 32
     | E_UINT64 \<Rightarrow> Some 64 | _ \<Rightarrow> None)"

lemma cell_of_signed:
  assumes "int_width et = Some w" and "j = JInt n \<or> j = JUInt n"
  shows "\<exists>get. cell_of et = Some get \<and> get j = Inr (C_int (wrap_signed w n))"
  using assms by (cases et) (auto simp: int_width_def cell_of_def get_signed_def get_int64_def)

lemma cell_of_unsigned:
  assumes "uint_width et = Some w" and "j = JInt n \<or> j = JUInt n"
  shows "\<exists>get. cell_of et = Some get \<and> get j = Inr (C_int (wrap_unsigned w n))"
  using assms by (cases et) (auto simp: uint_width_def cell_of_def get_unsigned_def get_uint64_def)

section \<open>Properties\<close>

text \<open>
  C35. Output tensors of positive dimensions come out as nested arrays of exactly the tensor's
  shape, their elements in storage order; and read back as an input they give the same
  shape and the same elements.
\<close>

theorem output_tensor_shape:
  assumes "tensor_elements h (velement_type info) t = Inr vs"
    and "dims_ok (dims t)" and "dims t \<noteq> []" and "length vs = volume (dims t)"
  shows "\<exists>rows. get_tensor_data h info t = Inr rows \<and> has_shape (dims t) (JArray rows) \<and>
    flat_json_values (JArray rows) = vs \<and>
    calcShape (JArray rows) (length (dims t)) [] = dims t"
  using get_tensor_data_ok[OF assms] calcShape_has_shape[OF _ assms(2), of _ "[]"] by auto

theorem output_tensor_shape_witness:
  "\<exists>rows. get_tensor_data (\<lambda>_ _. NaN) (make_value_info ''y'' E_INT8 [])
       \<lparr>elem_count = 4, dims = [2, 2], bytes = [1, 2, 3, 255], strings = []\<rparr> = Inr rows \<and>
     flat_json_values (JArray rows) = [JInt 1, JInt 2, JInt 3, JInt (- 1)] \<and>
     calcShape (JArray rows) 2 [] = [2, 2]"
proof -
  let ?t = "\<lparr>elem_count = 4, dims = [2, 2], bytes = [1, 2, 3, 255], strings = []\<rparr>"
  have "tensor_elements (\<lambda>_ _. NaN) (velement_type (make_value_info ''y'' E_INT8 [])) ?t =
      Inr [JInt 1, JInt 2, JInt 3, JInt (- 1)]" by code_simp
  from output_tensor_shape[OF this] show ?thesis
    by (simp add: dims_ok_def volume_def numeral_2_eq_2
        del: calcShape.simps flat_json_values.simps has_shape.simps) blast
qed

text \<open>
  C37. What the shape computed from a nested array is: the lengths along the first elements,
  followed by ones up to the wanted rank when that rank is at most one more than twice their
  number. So the rank check of the \<^verbatim>\<open>context\<close> constructor accepts an array that is nested too
  little exactly in these cases.
\<close>

theorem calcShape_rank:
  "calcShape j n [] = first_path j n @
     (if n \<le> 2 * length (first_path j n) + 1
      then replicate (n - length (first_path j n)) 1 else []) \<and>
   (length (calcShape j n []) = n) = (n \<le> 2 * length (first_path j n) + 1)"
  using calcShape_path[of j n "[]"] length_first_path[of j n] by auto

text \<open>
  The batch dimension of a boolean input: with one dynamic dimension among positive ones,
  the successive rounded divisions give the least batch size that holds all values.
\<close>

theorem bool_batch_size:
  assumes "list_all (\<lambda>s. 0 < s) xs" and "list_all (\<lambda>s. 0 < s) ys" and "0 < n"
  shows "batched_shape (xs @ -1 # ys) n =
    Inr (xs @ \<lceil>rat_of_nat n / rat_of_int (prod_list xs * prod_list ys)\<rceil> # ys)"
  using assms by (rule batched_shape_dynamic)

theorem bool_batch_size_witness: "batched_shape [2, -1, 3] 13 = Inr [2, 3, 3]"
proof -
  have "\<lceil>(13::rat) / 6\<rceil> = 3" by (simp add: ceiling_eq_iff)
  then show ?thesis using bool_batch_size[of "[2]" "[3]" 13] by simp
qed

text \<open>
  C38. Integer inputs: an element is taken modulo \<open>2 ^ w\<close> into the range of the model's \<open>w\<close>-bit
  type, so it arrives unchanged exactly when it fits; one that does not fit is no error.
\<close>

theorem integer_elements:
  assumes "int_width et = Some w" and "uint_width ut = Some v" and "j = JInt n \<or> j = JUInt n"
  shows "(\<exists>get m. cell_of et = Some get \<and> get j = Inr (C_int m) \<and>
      in_signed w m \<and> m mod 2 ^ w = n mod 2 ^ w \<and> (m = n \<longleftrightarrow> in_signed w n)) \<and>
    (\<exists>get m. cell_of ut = Some get \<and> get j = Inr (C_int m) \<and>
      in_unsigned v m \<and> m mod 2 ^ v = n mod 2 ^ v \<and> (m = n \<longleftrightarrow> in_unsigned v n))"
proof -
  have w: "0 < w" using assms(1) by (cases et) (auto simp: int_width_def)
  have "wrap_signed w n mod 2 ^ w = n mod 2 ^ w"
    by (simp add: wrap_signed_def mod_diff_left_eq)
  moreover have "in_unsigned v (wrap_unsigned v n)"
    by (simp add: wrap_unsigned_def in_unsigned_def)
  moreover have "wrap_unsigned v n mod 2 ^ v = n mod 2 ^ v"
    by (simp add: wrap_unsigned_def)
  ultimately show ?thesis
    using cell_of_signed[OF assms(1,3)] wrap_signed_range[OF w, of n] wrap_signed_id[OF w, of n]
      cell_of_unsigned[OF assms(2,3)] wrap_unsigned_id[of v n] by metis
qed

theorem integer_elements_witness:
  "\<exists>get m. cell_of E_INT8 = Some get \<and> get (JUInt 300) = Inr (C_int m) \<and> m mod 256 = 44"
proof -
  have "int_width E_INT8 = Some 8" "uint_width E_UINT8 = Some 8"
    by (simp_all add: int_width_def uint_width_def)
  from integer_elements[OF this, of "JUInt 300" 300] show ?thesis by auto
qed

end
