(* ===== verification/Session.thy ===== *)
theory Session
  imports Session_Key_Option Grisu Input_Value
begin

text \<open>
  A loaded model: \<^verbatim>\<open>src/src/onnx/session.cpp\<close> and
  \<^verbatim>\<open>src/src/onnx/cuda/session_options.cpp\<close>. ONNX Runtime is a record of functions, the
  parameter of everything here: the setters of its option object, extension libraries, CUDA
  provider options, loading a model, its inputs and outputs, running it. The time is an
  argument. The code on Windows differs in the type of paths only.
\<close>

section \<open>ONNX Runtime\<close>

datatype graph_level =
  ORT_DISABLE_ALL | ORT_ENABLE_BASIC | ORT_ENABLE_EXTENDED | ORT_ENABLE_LAYOUT | ORT_ENABLE_ALL

datatype execution_mode = ORT_SEQUENTIAL | ORT_PARALLEL

datatype setter =
    SetIntraOpNumThreads int
  | SetInterOpNumThreads int
  | SetExecutionMode execution_mode
  | SetGraphOptimizationLevel graph_level
  | EnableCpuMemArena | DisableCpuMemArena
  | EnableMemPattern | DisableMemPattern
  | SetLogSeverityLevel int
  | SetLogId string
  | EnableProfiling string
  | SetOptimizedModelFilePath string
  | AddFreeDimensionOverrideByName string int
  | AddConfigEntry string string

datatype model_source = Model_path string | Model_data string

text \<open>A setter that throws is \<^const>\<open>None\<close>; a status that is not null is its message.\<close>

record ('so, 'c, 'm, 'v) ort =
  default_options :: 'so
  set_option :: "setter \<Rightarrow> 'so \<Rightarrow> 'so option"
  config_size :: "'so \<Rightarrow> string \<Rightarrow> nat option"
  config_read :: "'so \<Rightarrow> string \<Rightarrow> nat \<Rightarrow> string option"
  register_library :: "string \<Rightarrow> 'so \<Rightarrow> string + 'so"
  available_providers :: "string list"
  built_with_cuda :: bool
  create_cuda :: "'c result"
  update_cuda :: "(string \<times> string) list \<Rightarrow> 'c \<Rightarrow> string + 'c"
  append_cuda :: "'c \<Rightarrow> 'so \<Rightarrow> string + 'so"
  cuda_as_string :: "'c \<Rightarrow> string option"
  load_model :: "model_source \<Rightarrow> 'so \<Rightarrow> 'm result"
  model_inputs :: "'m \<Rightarrow> (string \<times> element_type \<times> int list) result list" \<comment> \<open>one call for each\<close>
  model_outputs :: "'m \<Rightarrow> (string \<times> element_type \<times> int list) result list"
  create_tensor :: "element_type \<Rightarrow> cell list \<Rightarrow> int list \<Rightarrow> 'v result"
  run_model :: "'m \<Rightarrow> 'v list \<Rightarrow> ort_value list result"
  half_to_float :: "element_type \<Rightarrow> int \<Rightarrow> dbl"

definition has_cuda :: "('so, 'c, 'm, 'v) ort \<Rightarrow> bool" where
  "has_cuda ort \<longleftrightarrow> ''CUDAExecutionProvider'' \<in> set (available_providers ort)"

section \<open>Session options\<close>

text \<open>What a function that takes a C string sees: the text up to the first NUL.\<close>

definition c_str :: "string \<Rightarrow> string" where
  "c_str s = takeWhile (\<lambda>c. c \<noteq> CHR 0x00) s"

definition parse_graph_opt_level :: "string \<Rightarrow> graph_level option" where
  "parse_graph_opt_level v =
     (if v = ''disable'' \<or> v = ''disabled'' \<or> v = ''off'' then Some ORT_DISABLE_ALL
      else if v = ''basic'' then Some ORT_ENABLE_BASIC
      else if v = ''extended'' then Some ORT_ENABLE_EXTENDED
      else if v = ''layout'' then Some ORT_ENABLE_LAYOUT
      else if v = ''all'' then Some ORT_ENABLE_ALL
      else None)"

definition parse_execution_mode :: "string \<Rightarrow> execution_mode option" where
  "parse_execution_mode v =
     (if v = ''parallel'' then Some ORT_PARALLEL
      else if v = ''sequential'' then Some ORT_SEQUENTIAL
      else None)"

type_synonym 'so applied = "'so \<times> (string \<times> json) list"

text \<open>\<^verbatim>\<open>try_apply\<close> and the echo: the setter accepts and the value is echoed, or neither.\<close>

definition try_apply ::
    "('so, 'c, 'm, 'v) ort \<Rightarrow> setter \<Rightarrow> (string \<times> json) list \<Rightarrow> 'so applied \<Rightarrow> 'so applied" where
  "try_apply ort call echo st =
     (case set_option ort call (fst st) of
        None \<Rightarrow> st
      | Some so \<Rightarrow> (so, foldl (\<lambda>m kv. om_put (fst kv) (snd kv) m) (snd st) echo))"

definition member :: "json \<Rightarrow> string \<Rightarrow> json option" where
  "member input k = (case input of JObject m \<Rightarrow> map_of m k | _ \<Rightarrow> None)"

definition apply_int :: "('so, 'c, 'm, 'v) ort \<Rightarrow> json \<Rightarrow> string \<Rightarrow> (int \<Rightarrow> setter) \<Rightarrow>
    'so applied \<Rightarrow> 'so applied" where
  "apply_int ort input k call st =
     (case member input k of
        Some j \<Rightarrow>
          (if is_number_integer j
           then (case get_signed 32 j of
                   Inr v \<Rightarrow> try_apply ort (call v) [(k, JInt v)] st
                 | Inl _ \<Rightarrow> st)
           else st)
      | None \<Rightarrow> st)"

definition apply_bool :: "('so, 'c, 'm, 'v) ort \<Rightarrow> json \<Rightarrow> string \<Rightarrow> setter \<Rightarrow> setter \<Rightarrow>
    'so applied \<Rightarrow> 'so applied" where
  "apply_bool ort input k enable disable st =
     (case member input k of
        Some (JBool v) \<Rightarrow> try_apply ort (if v then enable else disable) [(k, JBool v)] st
      | _ \<Rightarrow> st)"

definition apply_string :: "('so, 'c, 'm, 'v) ort \<Rightarrow> json \<Rightarrow> string \<Rightarrow>
    (string \<Rightarrow> (setter \<times> string) option) \<Rightarrow> 'so applied \<Rightarrow> 'so applied" where
  "apply_string ort input k parse st =
     (case member input k of
        Some (JString s) \<Rightarrow>
          (case parse s of
             Some (call, echo) \<Rightarrow> try_apply ort call [(k, JString echo)] st
           | None \<Rightarrow> st)
      | _ \<Rightarrow> st)"

definition apply_profiling :: "('so, 'c, 'm, 'v) ort \<Rightarrow> json \<Rightarrow> 'so applied \<Rightarrow> 'so applied" where
  "apply_profiling ort input st =
     (case member input ''enable_profiling'' of
        Some (JBool True) \<Rightarrow>
          (let prefix = (case member input ''profile_file_prefix'' of Some (JString p) \<Rightarrow> p | _ \<Rightarrow> [])
           in try_apply ort (EnableProfiling (c_str prefix))
                [(''enable_profiling'', JBool True), (''profile_file_prefix'', JString prefix)] st)
      | _ \<Rightarrow> st)"

definition apply_dimension :: "('so, 'c, 'm, 'v) ort \<Rightarrow> string \<times> json \<Rightarrow> 'so applied \<Rightarrow> 'so applied" where
  "apply_dimension ort kv st =
     (if is_number_integer (snd kv)
      then (case get_int64 (snd kv) of
              Inr v \<Rightarrow> try_apply ort (AddFreeDimensionOverrideByName (c_str (fst kv)) v) [(fst kv, JInt v)] st
            | Inl _ \<Rightarrow> st)
      else st)"

definition config_text :: "json \<Rightarrow> string option" where
  "config_text v =
     (case v of
        JString s \<Rightarrow> Some s
      | JBool b \<Rightarrow> Some (if b then ''1'' else ''0'')
      | JInt n \<Rightarrow> Some (int_to_string (wrap_signed 64 n))
      | JUInt n \<Rightarrow> Some (int_to_string (wrap_signed 64 n))
      | _ \<Rightarrow> None)"

definition drop_nul :: "string \<Rightarrow> string" where
  "drop_nul s = (if s \<noteq> [] \<and> last s = CHR 0x00 then butlast s else s)"

text \<open>The echo of a configuration entry is what is read back, in two calls.\<close>

definition apply_config :: "('so, 'c, 'm, 'v) ort \<Rightarrow> string \<times> json \<Rightarrow> 'so applied \<Rightarrow> 'so applied" where
  "apply_config ort kv st =
     (case config_text (snd kv) of
        None \<Rightarrow> st
      | Some sv \<Rightarrow>
          (case set_option ort (AddConfigEntry (c_str (fst kv)) (c_str sv)) (fst st) of
             None \<Rightarrow> st
           | Some so \<Rightarrow>
               (case config_size ort so (c_str (fst kv)) of
                  None \<Rightarrow> (so, snd st)
                | Some needed \<Rightarrow>
                    (case config_read ort so (c_str (fst kv)) needed of
                       None \<Rightarrow> (so, snd st)
                     | Some out \<Rightarrow> (so, om_put (fst kv) (JString (drop_nul out)) (snd st))))))"

text \<open>A nested object of entries: the accepted ones are echoed under its key, if there are any.\<close>

definition apply_entries :: "(string \<times> json \<Rightarrow> 'so applied \<Rightarrow> 'so applied) \<Rightarrow> json \<Rightarrow> string \<Rightarrow>
    'so applied \<Rightarrow> 'so applied" where
  "apply_entries step input k st =
     (case member input k of
        Some (JObject entries) \<Rightarrow>
          (let (so, normalized) = fold step entries (fst st, [])
           in (so, if normalized \<noteq> [] then om_put k (JObject normalized) (snd st) else snd st))
      | _ \<Rightarrow> st)"

definition apply_session_options :: "('so, 'c, 'm, 'v) ort \<Rightarrow> json \<Rightarrow> 'so \<Rightarrow> 'so applied" where
  "apply_session_options ort input so =
     (if \<not> is_object input then (so, [])
      else let st = (so, []);
        st = apply_int ort input ''intra_op_num_threads'' SetIntraOpNumThreads st;
        st = apply_int ort input ''inter_op_num_threads'' SetInterOpNumThreads st;
        st = apply_string ort input ''execution_mode'' (\<lambda>s.
               case parse_execution_mode s of
                 Some mode \<Rightarrow> Some (SetExecutionMode mode,
                   if mode = ORT_PARALLEL then ''parallel'' else ''sequential'')
               | None \<Rightarrow> None) st;
        st = apply_string ort input ''graph_optimization_level'' (\<lambda>s.
               case parse_graph_opt_level s of
                 Some lvl \<Rightarrow> Some (SetGraphOptimizationLevel lvl, s)
               | None \<Rightarrow> None) st;
        st = apply_bool ort input ''enable_cpu_mem_arena'' EnableCpuMemArena DisableCpuMemArena st;
        st = apply_bool ort input ''enable_mem_pattern'' EnableMemPattern DisableMemPattern st;
        st = apply_int ort input ''log_severity_level'' SetLogSeverityLevel st;
        st = apply_string ort input ''logid'' (\<lambda>s. Some (SetLogId (c_str s), s)) st;
        st = apply_profiling ort input st;
        st = apply_string ort input ''optimized_model_filepath''
               (\<lambda>s. Some (SetOptimizedModelFilePath (c_str s), s)) st;
        st = apply_entries (apply_dimension ort) input ''free_dimension_overrides'' st
      in apply_entries (apply_config ort) input ''config_entries'' st)"

section \<open>Extensions\<close>

text \<open>The paths in the order of their first occurrence; a path already there is not added.\<close>

definition add_path :: "string \<Rightarrow> string list \<Rightarrow> string list" where
  "add_path path result = (if path \<in> set result then result else result @ [path])"

fun string_items :: "json list \<Rightarrow> string list" where
  "string_items [] = []"
| "string_items (JString s # js) = s # string_items js"
| "string_items (_ # js) = string_items js"

definition collect_extensions :: "json \<Rightarrow> string list" where
  "collect_extensions option =
     (let result = (case member option ''extensions'' of
                      Some (JArray es) \<Rightarrow> fold add_path (string_items es) []
                    | _ \<Rightarrow> [])
      in case member option ''ortextensions_path'' of
           Some (JString p) \<Rightarrow> add_path p result
         | _ \<Rightarrow> result)"

definition register_extension :: "('so, 'c, 'm, 'v) ort \<Rightarrow> string \<Rightarrow> 'so \<Rightarrow> 'so result" where
  "register_extension ort path so =
     (case register_library ort (c_str path) so of
        Inl msg \<Rightarrow> Inl (Orts_exception runtime_error
          (''Failed to register ORT extensions ('' @ path @ ''): '' @ msg))
      | Inr so \<Rightarrow> Inr so)"

section \<open>CUDA provider options\<close>

definition to_provider_string :: "('so, 'c, 'm, 'v) ort \<Rightarrow> json \<Rightarrow> string result" where
  "to_provider_string ort v =
     (if is_boolean v then andThen (get_boolean v) (\<lambda>b. Inr (if b then ''1'' else ''0''))
      else if is_number_integer v then andThen (get_int64 v) (\<lambda>i. Inr (int_to_string i))
      else if is_number_unsigned v then andThen (get_uint64 v) (\<lambda>i. Inr (int_to_string i))
      else if is_string v then get_string v
      else dump float_chars v)"

definition is_digit_text :: "string \<Rightarrow> bool" where
  "is_digit_text cs \<longleftrightarrow> list_all is_digit cs"

text \<open>\<^verbatim>\<open>std::stoll\<close> throws on a lone minus sign and out of range: the value stays a string.\<close>

definition infer_readback_value :: "string \<Rightarrow> json" where
  "infer_readback_value raw =
     (if raw = ''true'' then JBool True
      else if raw = ''false'' then JBool False
      else if raw \<noteq> [] \<and> (hd raw = CHR ''-'' \<or> is_digit (hd raw)) \<and> is_digit_text (tl raw) \<and>
        raw \<noteq> ''-''
      then (case stoll raw of Some i \<Rightarrow> JInt i | None \<Rightarrow> JString raw)
      else JString raw)"

text \<open>The loop of \<^verbatim>\<open>parse_options_string\<close> on the text from \<^verbatim>\<open>pos\<close> on.\<close>

function parse_options_from :: "string \<Rightarrow> (string \<times> json) list \<Rightarrow> (string \<times> json) list" where
  "parse_options_from s out =
     (let k = takeWhile (\<lambda>c. c \<noteq> CHR ''='') s; r = dropWhile (\<lambda>c. c \<noteq> CHR ''='') s
      in if r = [] then out
         else let v = takeWhile (\<lambda>c. c \<noteq> CHR '';'') (tl r);
                  rest = tl (dropWhile (\<lambda>c. c \<noteq> CHR '';'') (tl r));
                  out = (if k \<noteq> [] then om_put k (infer_readback_value v) out else out)
              in parse_options_from rest out)"
  by pat_completeness auto
termination
proof (relation "measure (\<lambda>(s, _). length s)", goal_cases)
  case (2 s out k r v rest out')
  have "length (tl (dropWhile (\<lambda>c. c \<noteq> CHR '';'') (tl r))) \<le> length (tl r)"
    using length_dropWhile_le[of "\<lambda>c. c \<noteq> CHR '';''" "tl r"] by simp
  also have "length (tl r) < length r" using 2 by (cases r) auto
  also have "length r \<le> length s" using 2 length_dropWhile_le by simp
  finally show ?case using 2 by simp
qed simp

declare parse_options_from.simps [simp del]

definition parse_options_string :: "string \<Rightarrow> (string \<times> json) list" where
  "parse_options_string s = parse_options_from s []"

definition cuda_settings :: "('so, 'c, 'm, 'v) ort \<Rightarrow> json \<Rightarrow> (string \<times> string) list result" where
  "cuda_settings ort cuda =
     (case cuda of
        JObject m \<Rightarrow> mapR (\<lambda>kv. andThen (to_provider_string ort (snd kv)) (\<lambda>v. Inr (fst kv, v))) m
      | _ \<Rightarrow>
          (if is_number_integer cuda
           then andThen (get_signed 32 cuda) (\<lambda>i. Inr [(''device_id'', int_to_string i)])
           else Inr []))"

definition update_all :: "('so, 'c, 'm, 'v) ort \<Rightarrow> (string \<times> string) list \<Rightarrow> 'c \<Rightarrow> 'c result" where
  "update_all ort settings c =
     (if settings = [] then Inr c
      else case update_cuda ort (map (\<lambda>kv. (c_str (fst kv), c_str (snd kv))) settings) c of
             Inl msg \<Rightarrow> Inl (Orts_exception runtime_error (''Failed to update CUDA provider options: '' @ msg))
           | Inr c \<Rightarrow> Inr c)"

definition append_cuda_session_options ::
    "('so, 'c, 'm, 'v) ort \<Rightarrow> json \<Rightarrow> 'so \<Rightarrow> ('so \<times> json) result" where
  "append_cuda_session_options ort option so =
     andThen (at_const option ''cuda'') (\<lambda>cuda.
     andThen (create_cuda ort) (\<lambda>c.
     let requested = ''device_id'' # (case cuda of JObject m \<Rightarrow> map fst m | _ \<Rightarrow> [])
     in andThen (cuda_settings ort cuda) (\<lambda>settings.
        andThen (update_all ort settings c) (\<lambda>c.
        case append_cuda ort c so of
          Inl msg \<Rightarrow> Inl (Orts_exception runtime_error (''Failed to append CUDA EP: '' @ msg))
        | Inr so \<Rightarrow>
            Inr (so, JObject (case cuda_as_string ort c of
                       None \<Rightarrow> []
                     | Some text \<Rightarrow>
                         filter (\<lambda>kv. fst kv \<in> set requested) (parse_options_string (c_str text))))))))"

section \<open>The session\<close>

record 'm session =
  ses_key :: session_key
  ses_option :: "(string \<times> json) list"
  model :: 'm
  sinputs :: "value_info list"
  soutputs :: "value_info list"
  execution_count :: int
  created_at :: int
  last_executed_at :: int

text \<open>The delegating constructor: option object, extensions, CUDA; what it leaves in \<^verbatim>\<open>_option\<close>.\<close>

definition put_if :: "bool \<Rightarrow> string \<Rightarrow> json \<Rightarrow> (string \<times> json) list \<Rightarrow> (string \<times> json) list" where
  "put_if b k v m = (if b then om_put k v m else m)"

definition wants_cuda :: "('so, 'c, 'm, 'v) ort \<Rightarrow> json \<Rightarrow> bool" where
  "wants_cuda ort option \<longleftrightarrow> has_cuda ort \<and>
     (case member option ''cuda'' of
        None \<Rightarrow> False
      | Some (JBool b) \<Rightarrow> b
      | Some _ \<Rightarrow> True)"

definition copy_shape :: "json \<Rightarrow> string \<Rightarrow> (string \<times> json) list \<Rightarrow> (string \<times> json) list" where
  "copy_shape option k opt =
     (case member option k of
        Some (JObject m) \<Rightarrow> om_put k (JObject m) opt
      | _ \<Rightarrow> opt)"

definition session_base ::
    "('so, 'c, 'm, 'v) ort \<Rightarrow> json \<Rightarrow> ('so \<times> (string \<times> json) list) result" where
  "session_base ort option =
     (let opt = [(''cuda'', JBool False)];
          (so, applied) = (case member option ''session_options'' of
                             Some (JObject m) \<Rightarrow>
                               apply_session_options ort (JObject m) (default_options ort)
                           | _ \<Rightarrow> (default_options ort, []));
          opt = put_if (applied \<noteq> []) ''session_options'' (JObject applied) opt;
          extensions = collect_extensions option
      in andThen (foldR (register_extension ort) extensions so) (\<lambda>so.
         let opt = put_if (extensions \<noteq> []) ''extensions'' (JArray (map JString extensions)) opt
         in andThen
              (if \<not> wants_cuda ort option then Inr (so, opt)
               else if built_with_cuda ort
               then andThen (append_cuda_session_options ort option so) (\<lambda>(so, cuda).
                      Inr (so, om_put ''cuda'' cuda opt))
               else Inl (Orts_exception runtime_error ''CUDA is not supported''))
              (\<lambda>(so, opt). Inr (so, copy_shape option ''output_shape''
                (copy_shape option ''input_shape'' opt)))))"

text \<open>
  \<^verbatim>\<open>override_shape\<close>: a given shape replaces that of the model, dimension by dimension; another
  rank is an error, as is a dimension that is no number.
\<close>

definition override_shape ::
    "('so, 'c, 'm, 'v) ort \<Rightarrow> (string \<times> json) list \<Rightarrow> string \<Rightarrow> value_info \<Rightarrow> value_info result" where
  "override_shape ort opt option_key info =
     (case map_of opt option_key of
        Some shapes \<Rightarrow>
          (case member shapes (vname info) of
             Some (JArray ds) \<Rightarrow>
               (if length ds \<noteq> length (vshape info)
                then andThen (dump float_chars (JArray ds)) (\<lambda>text.
                  Inl (Orts_exception runtime_error (option_key @ '' override size mismatch: '' @ text)))
                else andThen (mapR get_int64 ds) (\<lambda>sh. Inr (info\<lparr>vshape := sh\<rparr>)))
           | _ \<Rightarrow> Inr info)
      | None \<Rightarrow> Inr info)"

definition value_infos :: "('so, 'c, 'm, 'v) ort \<Rightarrow> (string \<times> json) list \<Rightarrow> string \<Rightarrow>
    (string \<times> element_type \<times> int list) result list \<Rightarrow> value_info list result" where
  "value_infos ort opt option_key metas =
     mapR (\<lambda>meta. andThen meta (\<lambda>(n, t, sh).
       override_shape ort opt option_key (make_value_info n t sh))) metas"

text \<open>
  The two public constructors; \<^verbatim>\<open>init\<close> reads the inputs and the outputs of the model one by one
  and overrides the shape of each before it reads the next.
\<close>

definition make_session :: "('so, 'c, 'm, 'v) ort \<Rightarrow> int \<Rightarrow> session_key \<Rightarrow> model_source \<Rightarrow> json \<Rightarrow>
    'm session result" where
  "make_session ort now k source option =
     andThen (session_base ort option) (\<lambda>(so, opt).
     andThen (load_model ort source so) (\<lambda>m.
     andThen (value_infos ort opt ''input_shape'' (model_inputs ort m)) (\<lambda>inputs.
     let opt = om_del ''input_shape'' opt
     in andThen (value_infos ort opt ''output_shape'' (model_outputs ort m)) (\<lambda>outputs.
        Inr \<lparr>ses_key = k, ses_option = om_del ''output_shape'' opt, model = m, sinputs = inputs,
             soutputs = outputs, execution_count = 0, created_at = now, last_executed_at = 0\<rparr>))))"

definition touch :: "int \<Rightarrow> 'm session \<Rightarrow> 'm session" where
  "touch now s = s\<lparr>last_executed_at := now, execution_count := execution_count s + 1\<rparr>"

definition run_session :: "('so, 'c, 'm, 'v) ort \<Rightarrow> 'm session \<Rightarrow> 'v list \<Rightarrow> ort_value list result" where
  "run_session ort s input_values =
     (if length input_values \<noteq> length (sinputs s)
      then Inl (Orts_exception runtime_error
        (''params size is not same as: '' @ nat_to_string (length (sinputs s))))
      else run_model ort (model s) input_values)"

definition infos_json :: "value_info list \<Rightarrow> json" where
  "infos_json infos =
     JObject (foldl (\<lambda>m i. om_put (vname i) (JString (type_to_string i)) m) [] infos)"

definition session_json :: "'m session \<Rightarrow> json" where
  "session_json s =
     JObject (foldl (\<lambda>m kv. om_put (fst kv) (snd kv) m) []
       [(''model'', JString (model_name (ses_key s))),
        (''version'', JString (model_version (ses_key s))),
        (''created_at'', JInt (created_at s)),
        (''last_executed_at'', JInt (last_executed_at s)),
        (''execution_count'', JInt (execution_count s)),
        (''inputs'', infos_json (sinputs s)),
        (''outputs'', infos_json (soutputs s)),
        (''option'', JObject (ses_option s))])"

section \<open>A concrete runtime, for the witnesses\<close>

definition demo_ort :: "(unit, unit, string, cell list) ort" where
  "demo_ort =
     \<lparr>default_options = (), set_option = (\<lambda>_ so. Some so), config_size = (\<lambda>_ _. Some 2),
      config_read = (\<lambda>_ _ _. Some ''1''), register_library = (\<lambda>_ so. Inr so),
      available_providers = [''CPUExecutionProvider''], built_with_cuda = False, create_cuda = Inr (),
      update_cuda = (\<lambda>_ c. Inr c), append_cuda = (\<lambda>_ so. Inr so), cuda_as_string = (\<lambda>_. None),
      load_model = (\<lambda>_ _. Inr ''m''), model_inputs = (\<lambda>_. [Inr (''x'', E_INT8, [-1, 2])]),
      model_outputs = (\<lambda>_. [Inr (''y'', E_UINT8, [2])]),
      create_tensor = (\<lambda>_ cells _. Inr cells),
      run_model = (\<lambda>_ _. Inr [\<lparr>elem_count = 2, dims = [2], bytes = [1, 2], strings = []\<rparr>]),
      half_to_float = (\<lambda>_ _. NaN)\<rparr>"

definition demo_session :: "string session" where
  "demo_session =
     \<lparr>ses_key = Session_key ''m'' ''1'', ses_option = [(''cuda'', JBool False)], model = ''m'',
      sinputs = [make_value_info ''x'' E_INT8 [-1, 2]], soutputs = [make_value_info ''y'' E_UINT8 [2]],
      execution_count = 0, created_at = 5, last_executed_at = 0\<rparr>"

end
