(* ===== verification/Doubles.thy ===== *)
theory Doubles
  imports Json
begin

text \<open>
  IEEE doubles as integers times powers of two: which rationals are doubles (\<^const>\<open>is_double\<close> of
  \<^verbatim>\<open>Json\<close>), that rounding yields doubles, and which numbers round to a given one.
\<close>

section \<open>Powers of two\<close>

lemma pow2_powi: "pow2 k = 2 powi k"
  by (simp add: pow2_def power_int_def power_one_over inverse_eq_divide)

lemma pow2_add: "pow2 (a + b) = pow2 a * pow2 b"
  by (simp add: pow2_powi power_int_add)

lemma pow2_not_0 [simp]: "pow2 k \<noteq> 0"
  using pow2_pos[of k] by linarith

lemma pow2_Suc: "pow2 (k + 1) = 2 * pow2 k" "pow2 (k - 1) = pow2 k / 2"
  using pow2_add[of k 1] pow2_add[of "k - 1" 1] by (simp_all add: pow2_def)

lemma pow2_less_iff [simp]: "pow2 a < pow2 b \<longleftrightarrow> a < b"
  using power_int_strict_increasing[of a b "2::rat"] power_int_increasing[of b a "2::rat"]
  by (fastforce simp: pow2_powi)

lemma pow2_le_iff [simp]: "pow2 a \<le> pow2 b \<longleftrightarrow> a \<le> b"
  using pow2_less_iff[of b a] by linarith

lemma pow2_nat: "pow2 (int n) = 2 ^ n"
  by (simp add: pow2_def)

lemma pow2_diff: "pow2 (a - b) = pow2 a / pow2 b"
  by (simp add: pow2_powi power_int_diff)

lemma bitlen_pow2: "0 < a \<Longrightarrow> pow2 (bitlen a - 1) \<le> of_int a \<and> of_int a < pow2 (bitlen a)"
proof -
  assume a: "0 < a"
  then have b: "0 < bitlen a" using bitlen_nonneg[of a] bitlen_eq_zero_iff[of a] by linarith
  have "(2::int) ^ nat (bitlen a - 1) \<le> a" "a < 2 ^ nat (bitlen a)"
    using bitlen_bounds[OF a] by simp_all
  then have "(of_int (2 ^ nat (bitlen a - 1)) :: rat) \<le> of_int a" "(of_int a :: rat) < of_int (2 ^ nat (bitlen a))"
    by (simp_all only: of_int_le_iff of_int_less_iff)
  then show ?thesis using b by (simp add: pow2_def)
qed

lemma floor_log2_bounds:
  assumes "0 < q"
  shows "pow2 (floor_log2 q) \<le> q" "q < pow2 (floor_log2 q + 1)"
proof -
  obtain a b where ab: "quotient_of q = (a, b)" by (cases "quotient_of q")
  then have q: "q = of_int a / of_int b" "0 < b" using quotient_of_div quotient_of_denom_pos by auto
  then have a: "0 < a" using assms by (simp add: zero_less_divide_iff)
  have bp: "(0::rat) < of_int b" using q(2) by simp
  note A = bitlen_pow2[OF a] and B = bitlen_pow2[OF q(2)]
  define k where "k = bitlen a - bitlen b"
  have 1: "q < pow2 (k + 1)"
  proof -
    have "q < pow2 (bitlen a) / of_int b" unfolding q using A bp by (simp add: divide_strict_right_mono)
    also have "\<dots> \<le> pow2 (bitlen a) / pow2 (bitlen b - 1)"
      using B bp pow2_pos by (intro divide_left_mono mult_pos_pos) (auto simp: less_imp_le)
    also have "\<dots> = pow2 (k + 1)" by (simp add: pow2_diff[symmetric] k_def algebra_simps)
    finally show ?thesis .
  qed
  have 2: "pow2 (k - 1) \<le> q"
  proof -
    have "pow2 (k - 1) = pow2 (bitlen a - 1) / pow2 (bitlen b)" by (simp add: pow2_diff[symmetric] k_def algebra_simps)
    also have "\<dots> \<le> pow2 (bitlen a - 1) / of_int b"
      using B bp pow2_pos by (intro divide_left_mono mult_pos_pos) (auto simp: less_imp_le)
    also have "\<dots> \<le> q" unfolding q using A bp by (simp add: divide_right_mono)
    finally show ?thesis .
  qed
  show "pow2 (floor_log2 q) \<le> q" "q < pow2 (floor_log2 q + 1)"
    using 1 2 by (auto simp: floor_log2_def ab k_def[symmetric] Let_def)
qed

lemma floor_log2_unique: "pow2 k \<le> q \<Longrightarrow> q < pow2 (k + 1) \<Longrightarrow> floor_log2 q = k"
proof -
  assume k: "pow2 k \<le> q" "q < pow2 (k + 1)"
  then have q: "0 < q" using pow2_pos[of k] by linarith
  have "pow2 k < pow2 (floor_log2 q + 1)" "pow2 (floor_log2 q) < pow2 (k + 1)"
    using floor_log2_bounds[OF q] k by linarith+
  then show ?thesis by simp
qed

section \<open>The doubles\<close>

text \<open>A positive double is an integer significand times a power of two.\<close>

definition double_parts :: "int \<Rightarrow> int \<Rightarrow> bool" where
  "double_parts n u \<longleftrightarrow> 0 < n \<and> n < 2 ^ 53 \<and> - 1074 \<le> u \<and> u \<le> 971 \<and> (n < 2 ^ 52 \<longrightarrow> u = - 1074)"

lemma is_double_parts:
  assumes "is_double (Finite s q)" and "q \<noteq> 0"
  shows "\<exists>n u. double_parts n u \<and> q = of_int n * pow2 u"
proof -
  have q: "0 < q" and t: "to_double s q = Finite s q" using assms by (auto simp: is_double_def)
  define k where "k = floor_log2 q"
  define u where "u = max (k - 52) (- 1074)"
  define n where "n = round_half_even (q / pow2 u)"
  have v: "q = of_int n * pow2 u" and b: "q < pow2 1024"
    using t assms(2) by (auto simp: to_double_def round_to_def Let_def n_def u_def k_def split: if_splits)
  note kb = floor_log2_bounds[OF q, folded k_def]
  have n: "0 < n" using q v pow2_pos[of u] by (auto simp: zero_less_mult_iff)
  have "q < pow2 (u + 53)" using kb(2) by (rule less_le_trans) (simp add: u_def)
  then have "of_int n < (2 :: rat) ^ 53" using v pow2_pos[of u] by (simp add: pow2_add pow2_def[of 53])
  then have n53: "n < 2 ^ 53" using of_int_less_iff[of n "2 ^ 53", where 'a = rat] by simp
  have "pow2 k < pow2 1024" using kb(1) b by (rule le_less_trans)
  then have u: "u \<le> 971" by (simp add: u_def)
  have "u = - 1074" if "n < 2 ^ 52"
  proof (rule ccontr)
    assume "u \<noteq> - 1074"
    then have "k = u + 52" by (simp add: u_def split: if_splits)
    then have "pow2 u * 2 ^ 52 \<le> of_int n * pow2 u" using kb(1) v by (simp add: pow2_add pow2_def[of 52])
    then have "(2 :: rat) ^ 52 \<le> of_int n" by (simp add: mult.commute)
    then show False using that of_int_le_iff[of "2 ^ 52" n, where 'a = rat] by simp
  qed
  moreover have "- 1074 \<le> u" by (simp add: u_def)
  ultimately have "double_parts n u" using n n53 u by (auto simp: double_parts_def)
  with v show ?thesis by blast
qed

lemma round_half_even_near:
  assumes "of_int n - 1 / 2 < y" and "y < of_int n + (1 / 2 :: rat)"
  shows "round_half_even y = n"
proof (cases "of_int n \<le> y")
  case True
  then have "\<lfloor>y\<rfloor> = n" using assms(2) by (intro floor_unique) linarith+
  then show ?thesis using assms True by (simp add: round_half_even_def Let_def)
next
  case False
  then have "\<lfloor>y\<rfloor> = n - 1" using assms(1) by (intro floor_unique) simp_all
  then show ?thesis using assms False by (simp add: round_half_even_def Let_def)
qed

text \<open>Half the distance to the double below.\<close>

definition lower_gap :: "int \<Rightarrow> int \<Rightarrow> rat" where
  "lower_gap n u = (if n = 2 ^ 52 \<and> - 1074 < u then pow2 u / 4 else pow2 u / 2)"

lemma to_double_at:
  assumes "0 < x" and "max (floor_log2 x - 52) (- 1074) = u"
    and "of_int m * pow2 u - pow2 u / 2 < x" and "x < of_int m * pow2 u + pow2 u / 2" and "of_int m * pow2 u < pow2 1024"
  shows "to_double s x = Finite s (of_int m * pow2 u)"
proof -
  have "of_int m - 1 / 2 < x / pow2 u" "x / pow2 u < of_int m + 1 / 2"
    using assms(3,4) by (simp_all only: pos_less_divide_eq pos_divide_less_eq pow2_pos) (simp_all add: algebra_simps)
  from round_half_even_near[OF this] show ?thesis
    using assms(1,2,5) by (simp add: to_double_def round_to_def Let_def)
qed

text \<open>Every number closer to a double than half the gaps around it rounds to that double.\<close>

lemma rounds_back:
  assumes p: "double_parts n u" and lo: "of_int n * pow2 u - lower_gap n u < x" and hi: "x < of_int n * pow2 u + pow2 u / 2"
  shows "to_double s x = Finite s (of_int n * pow2 u)"
proof -
  note pos = pow2_pos[of u]
  have n: "(1 :: rat) \<le> of_int n" "of_int n \<le> (2 ^ 53 - 1 :: rat)" and u: "- 1074 \<le> u" "u \<le> 971"
    using p of_int_le_iff[of n "2 ^ 53 - 1", where 'a = rat] by (auto simp: double_parts_def)
  have gap: "lower_gap n u \<le> pow2 u / 2" using pos by (simp add: lower_gap_def)
  have x0: "0 < x"
  proof -
    have "pow2 u \<le> of_int n * pow2 u" using n(1) pos by simp
    then show ?thesis using lo gap pos by linarith
  qed
  have top: "of_int n * pow2 u \<le> 2 ^ 53 * pow2 u - pow2 u"
    using mult_right_mono[OF n(2) less_imp_le[OF pos]] by (simp only: left_diff_distrib mult_1_left)
  have e: "pow2 (u + 53) = 2 ^ 53 * pow2 u" "pow2 (u + 52) = 2 ^ 52 * pow2 u" "pow2 (u + 51) = 2 ^ 51 * pow2 u"
    by (simp_all add: pow2_add pow2_def[of 53] pow2_def[of 52] pow2_def[of 51])
  have big: "of_int n * pow2 u < pow2 1024"
  proof -
    have "of_int n * pow2 u < pow2 (u + 53)" using top pos unfolding e by linarith
    also have "\<dots> \<le> pow2 1024" using u by simp
    finally show ?thesis .
  qed
  note fl = floor_log2_bounds[OF x0]
  have xt: "x < pow2 (u + 53)" using hi top pos unfolding e by linarith
  have "pow2 (floor_log2 x) < pow2 (u + 53)" using fl(1) xt by linarith
  then have flu: "floor_log2 x \<le> u + 52" by simp
  have here: ?thesis if U: "max (floor_log2 x - 52) (- 1074) = u"
  proof (rule to_double_at[OF x0 U _ _ big])
    show "x < of_int n * pow2 u + pow2 u / 2" by (rule hi)
    show "of_int n * pow2 u - pow2 u / 2 < x" using lo gap by linarith
  qed
  show ?thesis
  proof (cases "u = - 1074 \<or> pow2 (u + 52) \<le> x")
    case True
    then have "floor_log2 x = u + 52 \<or> u = - 1074"
      using floor_log2_unique[of "u + 52" x] xt by (auto simp: add.assoc)
    then show ?thesis using flu u by (intro here) auto
  next
    case False
    then have n52: "2 ^ 52 \<le> n" and xl: "x < 2 ^ 52 * pow2 u" and u1: "- 1074 < u"
      using p u by (auto simp: double_parts_def e)
    have eq: "n = 2 ^ 52"
    proof (rule ccontr)
      assume "n \<noteq> 2 ^ 52"
      then have "(2 ^ 52 + 1 :: rat) \<le> of_int n" using n52 of_int_le_iff[of "2 ^ 52 + 1" n, where 'a = rat] by simp
      from mult_right_mono[OF this less_imp_le[OF pos]]
      have "2 ^ 52 * pow2 u + pow2 u \<le> of_int n * pow2 u" by (simp only: ring_distribs mult_1_left)
      then show False using lo xl pos gap by linarith
    qed
    have gap2: "2 ^ 52 * pow2 u - pow2 u / 4 < x" using lo eq u1 by (simp add: lower_gap_def)
    have "floor_log2 x = u + 51"
      using gap2 xl pos by (intro floor_log2_unique) (simp_all add: e add.assoc)
    then have U: "max (floor_log2 x - 52) (- 1074) = u - 1" using u1 by simp
    have m: "of_int (2 * n) * pow2 (u - 1) = 2 ^ 52 * pow2 u" and h: "pow2 (u - 1) / 2 = pow2 u / 4"
      by (simp_all add: pow2_Suc eq)
    have "to_double s x = Finite s (of_int (2 * n) * pow2 (u - 1))"
    proof (rule to_double_at[OF x0 U], unfold m h)
      show "2 ^ 52 * pow2 u - pow2 u / 4 < x" by (rule gap2)
      show "x < 2 ^ 52 * pow2 u + pow2 u / 4" using xl pos by linarith
      show "2 ^ 52 * pow2 u < pow2 1024" using big eq by simp
    qed
    then show ?thesis by (simp add: pow2_Suc)
  qed
qed

text \<open>A small integer times a power of two in range is a double, and so is whatever rounding returns.\<close>

lemma exact_double:
  assumes n: "0 \<le> n" "n < 2 ^ 53" and u: "- 1074 \<le> u" "u \<le> 971"
  shows "is_double (Finite s (of_int n * pow2 u))"
proof (cases "n = 0")
  case True
  then show ?thesis by (simp add: is_double_def to_double_def round_to_def)
next
  case False
  define q where "q = of_int n * pow2 u"
  have q: "0 < q" using n False by (simp add: q_def)
  have "(of_int n :: rat) < 2 ^ 53" using n of_int_less_iff[of n "2 ^ 53", where 'a = rat] by simp
  from mult_strict_right_mono[OF this pow2_pos[of u]]
  have top: "q < pow2 (53 + u)" by (simp add: q_def pow2_add pow2_def[of 53])
  have "pow2 (floor_log2 q) < pow2 (53 + u)" using floor_log2_bounds(1)[OF q] top by linarith
  define U where "U = max (floor_log2 q - 52) (- 1074)"
  then have U: "U \<le> u" using \<open>pow2 (floor_log2 q) < pow2 (53 + u)\<close> u by simp
  have "q / pow2 U = of_int (n * 2 ^ nat (u - U))"
  proof -
    have "u = int (nat (u - U)) + U" using U by simp
    then have "pow2 u = 2 ^ nat (u - U) * pow2 U" by (metis pow2_add pow2_nat)
    then show ?thesis by (simp add: q_def)
  qed
  moreover have "round_half_even (of_int m) = m" for m by (simp add: round_half_even_def)
  ultimately have r: "of_int (round_half_even (q / pow2 U)) * pow2 U = q" by (metis nonzero_eq_divide_eq pow2_not_0)
  have "pow2 (53 + u) \<le> pow2 1024" using u by simp
  then have "q < pow2 1024" using top by linarith
  then show ?thesis
    using q r by (simp add: is_double_def to_double_def round_to_def Let_def U_def q_def[symmetric])
qed

lemma round_half_even_le: "y \<le> of_int m \<Longrightarrow> round_half_even y \<le> m"
proof -
  assume y: "y \<le> of_int m"
  then have "\<lfloor>y\<rfloor> \<le> m" by linarith
  moreover have "round_half_even y \<le> \<lfloor>y\<rfloor> + 1" by (simp add: round_half_even_def Let_def)
  moreover have "round_half_even y = \<lfloor>y\<rfloor>" if "\<lfloor>y\<rfloor> = m"
    using that y by (simp add: round_half_even_def Let_def)
  ultimately show ?thesis by linarith
qed

lemma round_half_even_ge: "of_int m \<le> y \<Longrightarrow> m \<le> round_half_even y"
proof -
  assume "of_int m \<le> y"
  then have "m \<le> \<lfloor>y\<rfloor>" by linarith
  then show ?thesis by (simp add: round_half_even_def Let_def)
qed

lemma to_double_is_double:
  assumes q: "0 \<le> q"
  shows "is_double (to_double s q)"
proof (cases "q = 0")
  case True
  then show ?thesis by (simp add: is_double_def to_double_def round_to_def)
next
  case False
  then have q: "0 < q" using q by simp
  define k where "k = floor_log2 q"
  define u where "u = max (k - 52) (- 1074)"
  define n where "n = round_half_even (q / pow2 u)"
  note kb = floor_log2_bounds[OF q, folded k_def]
  have d: "to_double s q = (if pow2 1024 \<le> of_int n * pow2 u then Infinite s else Finite s (of_int n * pow2 u))"
    using q by (simp add: to_double_def round_to_def Let_def n_def u_def k_def)
  have "q < pow2 (53 + u)" using kb(2) by (rule less_le_trans) (simp add: u_def)
  then have "q / pow2 u \<le> of_int (2 ^ 53)"
    by (simp add: pow2_add pow2_def[of 53] pos_divide_le_eq less_imp_le)
  then have n1: "n \<le> 2 ^ 53" unfolding n_def by (rule round_half_even_le)
  have "of_int 0 \<le> q / pow2 u" using q by (simp add: divide_nonneg_pos less_imp_le)
  then have n0: "0 \<le> n" unfolding n_def by (rule round_half_even_ge)
  have big: "2 ^ 52 \<le> n" if "u \<noteq> - 1074"
  proof -
    have "k = 52 + u" using that by (simp add: u_def split: if_splits)
    then have "2 ^ 52 * pow2 u \<le> q" using kb(1) by (simp add: pow2_add pow2_def[of 52])
    then have "of_int (2 ^ 52) \<le> q / pow2 u" by (simp add: pos_le_divide_eq)
    then show ?thesis unfolding n_def by (rule round_half_even_ge)
  qed
  show ?thesis
  proof (cases "pow2 1024 \<le> of_int n * pow2 u")
    case True
    then show ?thesis unfolding d by (simp add: is_double_def)
  next
    case False
    have u971: "u \<le> 971 \<and> (n = 2 ^ 53 \<longrightarrow> u \<le> 970)"
    proof (cases "u = - 1074")
      case u: False
      have "(2 ^ 52 :: rat) \<le> of_int n" using big[OF u] of_int_le_iff[of "2 ^ 52" n, where 'a = rat] by simp
      from mult_right_mono[OF this less_imp_le[OF pow2_pos[of u]]]
      have "2 ^ 52 * pow2 u < pow2 1024" using False by linarith
      then have "pow2 (52 + u) < pow2 1024" by (simp add: pow2_add pow2_def[of 52])
      moreover have "pow2 (53 + u) < pow2 1024" if "n = 2 ^ 53" using False that by (simp add: pow2_add pow2_def[of 53])
      ultimately show ?thesis by auto
    qed simp
    have u1074: "- 1074 \<le> u" by (simp add: u_def)
    have "is_double (Finite s (of_int n * pow2 u))"
    proof (cases "n = 2 ^ 53")
      case True
      have e: "of_int n * pow2 u = of_int (2 ^ 52) * pow2 (u + 1)" unfolding pow2_Suc(1) True by simp
      show ?thesis unfolding e by (rule exact_double) (use u971 u1074 True in simp_all)
    next
      case n: False
      show ?thesis by (rule exact_double) (use u971 u1074 n0 n1 n in simp_all)
    qed
    then show ?thesis unfolding d using False by simp
  qed
qed

end
