(* ===== verification/Json_Parser.thy ===== *)
theory Json_Parser
  imports Json_Lexer Doubles
begin

text \<open>
  The parser of \<^verbatim>\<open>src/src/utils/json.hpp\<close> (classes \<^verbatim>\<open>parser\<close> and
  \<^verbatim>\<open>json_sax_dom_callback_parser\<close>) and \<^verbatim>\<open>parse_request_json\<close> of
  \<^verbatim>\<open>src/src/onnxruntime_server.hpp\<close>. The values under construction are a stack of frames,
  innermost first; a container is attached to its parent when it ends. The callback either
  throws or returns \<open>true\<close>, so no value is discarded.
\<close>

section \<open>State\<close>

datatype frame = FArr "json list" | FObj "(string \<times> json) list" string

record parser =
  m_lexer :: lexer
  last_token :: token_type
  states :: "bool list"
  ref_stack :: "frame list"
  root :: json

type_synonym callback = "nat \<Rightarrow> unit result"

definition get_token :: "parser \<Rightarrow> parser" where
  "get_token p = p\<lparr>m_lexer := fst (scan (m_lexer p)), last_token := snd (scan (m_lexer p))\<rparr>"

section \<open>Building the value\<close>

definition attach :: "json \<Rightarrow> parser \<Rightarrow> parser" where
  "attach v p =
     (case ref_stack p of
        [] \<Rightarrow> p\<lparr>root := v\<rparr>
      | FArr xs # fs \<Rightarrow> p\<lparr>ref_stack := FArr (xs @ [v]) # fs\<rparr>
      | FObj m k # fs \<Rightarrow> p\<lparr>ref_stack := FObj (om_put k v m) k # fs\<rparr>)"

definition sax_value :: "callback \<Rightarrow> json \<Rightarrow> parser \<Rightarrow> parser result" where
  "sax_value cb v p = andThen (cb (length (ref_stack p))) (\<lambda>_. Inr (attach v p))"

definition sax_start :: "callback \<Rightarrow> frame \<Rightarrow> parser \<Rightarrow> parser result" where
  "sax_start cb f p =
     andThen (cb (length (ref_stack p))) (\<lambda>_. Inr (p\<lparr>ref_stack := f # ref_stack p\<rparr>))"

definition sax_key :: "callback \<Rightarrow> string \<Rightarrow> parser \<Rightarrow> parser result" where
  "sax_key cb key p =
     andThen (cb (length (ref_stack p))) (\<lambda>_.
       Inr (case ref_stack p of
              FObj m _ # fs \<Rightarrow> p\<lparr>ref_stack := FObj m key # fs\<rparr>
            | _ \<Rightarrow> p))"

fun frame_json :: "frame \<Rightarrow> json" where
  "frame_json (FArr xs) = JArray xs"
| "frame_json (FObj m _) = JObject m"

definition sax_end :: "callback \<Rightarrow> parser \<Rightarrow> parser result" where
  "sax_end cb p =
     (case ref_stack p of
        [] \<Rightarrow> Inl (Assert_failure ''!ref_stack.empty()'')
      | f # fs \<Rightarrow>
          andThen (cb (length (ref_stack p) - 1)) (\<lambda>_.
            Inr (attach (frame_json f) (p\<lparr>ref_stack := fs\<rparr>))))"

section \<open>Error messages\<close>

definition exception_message :: "parser \<Rightarrow> token_type \<Rightarrow> string \<Rightarrow> string" where
  "exception_message p expected ctx =
     ''syntax error '' @
     (if ctx = [] then [] else ''while parsing '' @ ctx @ '' '') @ ''- '' @
     (if last_token p = T_parse_error
      then error_message (m_lexer p) @ ''; last read: '' @ [CHR 0x27] @ get_token_string (m_lexer p) @ [CHR 0x27]
      else ''unexpected '' @ token_type_name (last_token p)) @
     (if expected = T_uninitialized then [] else ''; expected '' @ token_type_name expected)"

definition position_string :: "lexer \<Rightarrow> string" where
  "position_string s = '' at line '' @ nat_to_string (lines_read s + 1) @
     '', column '' @ nat_to_string (chars_read_current_line s)"

definition parse_error :: "parser \<Rightarrow> token_type \<Rightarrow> string \<Rightarrow> error" where
  "parse_error p expected ctx =
     Json_exception ''parse_error'' 101
       (''parse error'' @ position_string (m_lexer p) @ '': '' @ exception_message p expected ctx)"

section \<open>The loop\<close>

datatype parse_next = Next_value | Next_state | Done

text \<open>An object key and the separator after it; then the first token of the value.\<close>

definition parse_key :: "callback \<Rightarrow> parser \<Rightarrow> parser result" where
  "parse_key cb p =
     (if last_token p \<noteq> T_value_string
      then Inl (parse_error p T_value_string ''object key'')
      else andThen (sax_key cb (token_buffer (m_lexer p)) p) (\<lambda>p.
        let p = get_token p
        in if last_token p \<noteq> T_name_separator
           then Inl (parse_error p T_name_separator ''object separator'')
           else Inr p))"

text \<open>The \<^verbatim>\<open>switch (last_token)\<close>; \<^const>\<open>Next_state\<close> is the \<^verbatim>\<open>break\<close>.\<close>

definition parse_value :: "callback \<Rightarrow> parser \<Rightarrow> (parser \<times> parse_next) result" where
  "parse_value cb p =
     (let value = (\<lambda>v. andThen (sax_value cb v p) (\<lambda>p. Inr (p, Next_state)))
      in case last_token p of
           T_begin_object \<Rightarrow>
             andThen (sax_start cb (FObj [] []) p) (\<lambda>p.
               let p = get_token p
               in if last_token p = T_end_object
                  then andThen (sax_end cb p) (\<lambda>p. Inr (p, Next_state))
                  else andThen (parse_key cb p) (\<lambda>p.
                    Inr (get_token (p\<lparr>states := False # states p\<rparr>), Next_value)))
         | T_begin_array \<Rightarrow>
             andThen (sax_start cb (FArr []) p) (\<lambda>p.
               let p = get_token p
               in if last_token p = T_end_array
                  then andThen (sax_end cb p) (\<lambda>p. Inr (p, Next_state))
                  else Inr (p\<lparr>states := True # states p\<rparr>, Next_value))
         | T_value_float \<Rightarrow>
             (case value_float (m_lexer p) of
                Finite s q \<Rightarrow> value (JFloat (Finite s q))
              | _ \<Rightarrow> Inl (Json_exception ''out_of_range'' 406
                  (''number overflow parsing '' @ [CHR 0x27] @ get_token_string (m_lexer p) @ [CHR 0x27])))
         | T_literal_false \<Rightarrow> value (JBool False)
         | T_literal_null \<Rightarrow> value JNull
         | T_literal_true \<Rightarrow> value (JBool True)
         | T_value_integer \<Rightarrow> value (JInt (value_integer (m_lexer p)))
         | T_value_string \<Rightarrow> value (JString (token_buffer (m_lexer p)))
         | T_value_unsigned \<Rightarrow> value (JUInt (value_unsigned (m_lexer p)))
         | T_parse_error \<Rightarrow> Inl (parse_error p T_uninitialized ''value'')
         | _ \<Rightarrow> Inl (parse_error p T_literal_or_value ''value''))"

text \<open>The part below it: what follows a value in an array, in an object, at the top.\<close>

definition parse_state :: "callback \<Rightarrow> parser \<Rightarrow> (parser \<times> parse_next) result" where
  "parse_state cb p =
     (let finish = (\<lambda>p. andThen (sax_end cb p) (\<lambda>p. Inr (p\<lparr>states := tl (states p)\<rparr>, Next_state)))
      in case states p of
           [] \<Rightarrow> Inr (p, Done)
         | True # _ \<Rightarrow>
             (let p = get_token p
              in if last_token p = T_value_separator then Inr (get_token p, Next_value)
                 else if last_token p = T_end_array then finish p
                 else Inl (parse_error p T_end_array ''array''))
         | False # _ \<Rightarrow>
             (let p = get_token p
              in if last_token p = T_value_separator
                 then andThen (parse_key cb (get_token p)) (\<lambda>p. Inr (get_token p, Next_value))
                 else if last_token p = T_end_object then finish p
                 else Inl (parse_error p T_end_object ''object'')))"

definition parse_measure :: "parser \<Rightarrow> nat" where
  "parse_measure p = 2 * remaining (m_lexer p) +
     (if last_token p = T_end_of_input \<or> last_token p = T_parse_error then 0 else 1)"

section \<open>Termination\<close>

lemma attach_sel [simp]:
  "m_lexer (attach v p) = m_lexer p" "last_token (attach v p) = last_token p"
  "states (attach v p) = states p"
  by (simp_all add: attach_def split: list.split frame.split)

lemma sax_Inr:
  "sax_value cb v p = Inr p' \<Longrightarrow> m_lexer p' = m_lexer p \<and> last_token p' = last_token p \<and> states p' = states p"
  "sax_start cb f p = Inr p' \<Longrightarrow> m_lexer p' = m_lexer p \<and> last_token p' = last_token p \<and> states p' = states p"
  "sax_key cb k p = Inr p' \<Longrightarrow> m_lexer p' = m_lexer p \<and> last_token p' = last_token p \<and> states p' = states p"
  "sax_end cb p = Inr p' \<Longrightarrow> m_lexer p' = m_lexer p \<and> last_token p' = last_token p \<and> states p' = states p"
  by (auto simp: sax_value_def sax_start_def sax_key_def sax_end_def andThen_eq_Inr
      split: list.splits frame.splits)

lemma get_token_sel [simp]:
  "states (get_token p) = states p" "ref_stack (get_token p) = ref_stack p" "root (get_token p) = root p"
  by (simp_all add: get_token_def)

abbreviation left :: "parser \<Rightarrow> nat" where
  "left p \<equiv> remaining (m_lexer p)"

lemma left_get_token: "left (get_token p) \<le> left p"
  by (simp add: get_token_def remaining_scan)

lemma left_get_token_less:
  "last_token (get_token p) \<noteq> T_end_of_input \<Longrightarrow> last_token (get_token p) \<noteq> T_parse_error \<Longrightarrow>
   left (get_token p) < left p"
  by (simp add: get_token_def remaining_scan_less)

lemma measure_get_token: "left p < n \<Longrightarrow> parse_measure (get_token p) < 2 * n"
  using left_get_token[of p] by (auto simp: parse_measure_def)

lemma parse_key_left: "parse_key cb p = Inr p' \<Longrightarrow> left p' \<le> left p"
  by (auto simp: parse_key_def andThen_eq_Inr Let_def split: if_splits dest!: sax_Inr(3)
      intro: order_trans[OF left_get_token])

lemma parse_value_left: "parse_value cb p = Inr (p', n) \<Longrightarrow> left p' \<le> left p"
proof -
  assume r: "parse_value cb p = Inr (p', n)"
  have tok: "left (get_token q) \<le> left p" if "left q \<le> left p" for q
    using left_get_token[of q] that by simp
  show ?thesis
    using r
    by (auto simp: parse_value_def andThen_eq_Inr Let_def dest!: sax_Inr parse_key_left
        split: token_type.splits if_splits dbl.splits intro!: tok)
      (metis left_get_token order_trans select_convs)+
qed

lemma parse_value_measure:
  assumes r: "parse_value cb p = Inr (p', Next_value)"
  shows "parse_measure p' < parse_measure p"
proof -
  consider (obj) "last_token p = T_begin_object" | (arr) "last_token p = T_begin_array"
    using r by (cases "last_token p") (auto simp: parse_value_def andThen_eq_Inr split: dbl.splits)
  then show ?thesis
  proof cases
    case obj
    then have 1: "parse_measure p = 2 * left p + 1" by (simp add: parse_measure_def)
    obtain q1 q2 where "sax_start cb (FObj [] []) p = Inr q1"
      and key: "parse_key cb (get_token q1) = Inr q2"
      and p': "p' = get_token (q2\<lparr>states := False # states q2\<rparr>)"
      using r obj by (auto simp: parse_value_def andThen_eq_Inr Let_def split: if_splits)
    then have "left q1 = left p" by (simp add: sax_Inr(2))
    moreover have "last_token (get_token q1) = T_value_string"
      using key by (simp add: parse_key_def split: if_splits)
    ultimately have "left q2 < left p"
      using left_get_token_less[of q1] parse_key_left[OF key] by simp
    then show ?thesis
      using p' measure_get_token[of "q2\<lparr>states := False # states q2\<rparr>" "left p"] 1 by simp
  next
    case arr
    then have 1: "parse_measure p = 2 * left p + 1" by (simp add: parse_measure_def)
    obtain q1 where "sax_start cb (FArr []) p = Inr q1"
      and p': "p' = (get_token q1)\<lparr>states := True # states q1\<rparr>"
      using r arr by (auto simp: parse_value_def andThen_eq_Inr Let_def split: if_splits)
    then have "left q1 = left p" by (simp add: sax_Inr(2))
    then show ?thesis
      using p' left_get_token_less[of q1] left_get_token[of q1] 1
      by (auto simp: parse_measure_def)
  qed
qed

lemma parse_state_left:
  assumes r: "parse_state cb p = Inr (p', n)" and "n \<noteq> Done"
  shows "left p' < left p"
proof -
  consider (fin) q where "sax_end cb (get_token p) = Inr q" "left p' = left q"
        "last_token (get_token p) \<in> {T_end_array, T_end_object}"
    | (sep) "last_token (get_token p) = T_value_separator" "p' = get_token (get_token p)"
    | (key) q where "last_token (get_token p) = T_value_separator"
        "parse_key cb (get_token (get_token p)) = Inr q" "p' = get_token q"
    using r assms(2)
    by (auto simp: parse_state_def andThen_eq_Inr Let_def split: list.splits bool.splits if_splits)
  then show ?thesis
  proof cases
    case fin
    then show ?thesis using left_get_token_less[of p] sax_Inr(4)[OF fin(1)] by auto
  next
    case sep
    then show ?thesis using left_get_token_less[of p] left_get_token[of "get_token p"] by simp
  next
    case key
    then show ?thesis
      using left_get_token_less[of p] left_get_token[of "get_token p"] left_get_token[of q]
        parse_key_left[OF key(2)] by simp
  qed
qed

lemma parse_measure_less: "left p' < left p \<Longrightarrow> parse_measure p' < parse_measure p"
  by (auto simp: parse_measure_def)

text \<open>
  \<^verbatim>\<open>sax_parse_internal\<close>: the argument \<open>skip\<close> is \<^verbatim>\<open>skip_to_state_evaluation\<close>.
\<close>

function parse_loop :: "callback \<Rightarrow> bool \<Rightarrow> parser \<Rightarrow> parser result" where
  "parse_loop cb skip p =
     (case (if skip then Inr (p, Next_state) else parse_value cb p) of
        Inl e \<Rightarrow> Inl e
      | Inr (p', Next_value) \<Rightarrow> parse_loop cb False p'
      | Inr (p', _) \<Rightarrow>
          (case parse_state cb p' of
             Inl e \<Rightarrow> Inl e
           | Inr (p'', Next_value) \<Rightarrow> parse_loop cb False p''
           | Inr (p'', Next_state) \<Rightarrow> parse_loop cb True p''
           | Inr (p'', Done) \<Rightarrow> Inr p''))"
  by pat_completeness auto
termination
proof (relation "measure (\<lambda>(_, _, p). parse_measure p)", goal_cases)
  case (2 cb skip p x p' n)
  then show ?case by (auto split: if_splits dest: parse_value_measure)
qed (auto split: if_splits dest!: parse_value_left parse_state_left
    intro!: parse_measure_less)

declare parse_loop.simps [simp del]

text \<open>\<^verbatim>\<open>basic_json::parse\<close> with a callback, exceptions on, comments off.\<close>

definition init_parser :: "string \<Rightarrow> parser" where
  "init_parser text = get_token
     \<lparr>m_lexer = init_lexer text, last_token = T_uninitialized, states = [], ref_stack = [], root = JNull\<rparr>"

definition json_parse :: "callback \<Rightarrow> string \<Rightarrow> json result" where
  "json_parse cb text =
     andThen (parse_loop cb False (init_parser text)) (\<lambda>p.
       let p = get_token p
       in if last_token p \<noteq> T_end_of_input
          then Inl (parse_error p T_end_of_input ''value'')
          else Inr (root p))"

definition MAX_JSON_NESTING_DEPTH :: nat where "MAX_JSON_NESTING_DEPTH = 64"

definition depth_callback :: callback where
  "depth_callback depth =
     (if depth > MAX_JSON_NESTING_DEPTH
      then Inl (Orts_exception bad_request_error ''Request JSON nesting exceeds the maximum depth'')
      else Inr ())"

definition parse_request_json :: "string \<Rightarrow> json result" where
  "parse_request_json body = json_parse depth_callback body"

section \<open>Values of tokens\<close>

definition tok_ok :: "lexer \<times> token_type \<Rightarrow> bool" where
  "tok_ok r \<longleftrightarrow>
     (snd r = T_value_unsigned \<longrightarrow> in_unsigned 64 (value_unsigned (fst r))) \<and>
     (snd r = T_value_integer \<longrightarrow> in_signed 64 (value_integer (fst r))) \<and>
     (snd r = T_value_float \<longrightarrow> is_double (value_float (fst r)))"

lemma tok_ok_simple [simp]: "tok_ok (fail msg s)"
  "t \<noteq> T_value_unsigned \<Longrightarrow> t \<noteq> T_value_integer \<Longrightarrow> t \<noteq> T_value_float \<Longrightarrow> tok_ok (s, t)"
  by (simp_all add: tok_ok_def fail_def)

lemma digit_value_nonneg: "is_digit c \<Longrightarrow> 0 \<le> digit_value c"
  unfolding is_digit_def digit_value_def of_nat_of_char[symmetric, where ?'a = int] Let_def
  by (simp del: of_nat_of_char)

lemma digits_value_nonneg: "\<forall>c \<in> set t. is_digit c \<Longrightarrow> 0 \<le> digits_value t"
  by (induction t rule: rev_induct) (auto simp: digits_value_def digit_value_nonneg)

lemma strtod_double: "is_double (strtod t)"
proof -
  have n: "0 \<le> digits_value (takeWhile is_digit a @ takeWhile is_digit b)" "0 \<le> digits_value (takeWhile is_digit a)" for a b
    by (auto intro!: digits_value_nonneg dest: set_takeWhileD)
  show ?thesis
    unfolding strtod_def Let_def
    by (intro to_double_is_double) (auto simp: n split: list.split)
qed

lemma tok_ok_done: "tok_ok (scan_number_done nt s)"
  by (simp add: scan_number_done_def tok_ok_def Let_def strtod_double)

lemma tok_ok_any2: "tok_ok (scan_number_any2 nt s)"
  by (induction nt s rule: scan_number_any2.induct)
    (subst scan_number_any2.simps, simp add: Let_def tok_ok_done)

lemma tok_ok_exponent: "tok_ok (scan_number_exponent s)"
  by (simp add: scan_number_exponent_def scan_number_sign_def Let_def tok_ok_any2)

lemma tok_ok_decimal2: "tok_ok (scan_number_decimal2 nt s)"
  by (induction nt s rule: scan_number_decimal2.induct)
    (subst scan_number_decimal2.simps, simp add: Let_def tok_ok_done tok_ok_exponent)

lemma tok_ok_decimal1: "tok_ok (scan_number_decimal1 s)"
  by (simp add: scan_number_decimal1_def Let_def tok_ok_decimal2)

lemma tok_ok_any1: "tok_ok (scan_number_any1 nt s)"
  by (induction nt s rule: scan_number_any1.induct)
    (subst scan_number_any1.simps, simp add: Let_def tok_ok_done tok_ok_exponent tok_ok_decimal1)

lemma tok_ok_number: "tok_ok (scan_number s)"
  by (simp add: scan_number_def scan_number_minus_def scan_number_zero_def Let_def tok_ok_done
      tok_ok_exponent tok_ok_decimal1 tok_ok_any1)

lemma scan_unicode_token: "scan_unicode s = (s', Some t) \<Longrightarrow> t = T_parse_error"
  by (auto simp: scan_unicode_def Let_def split: prod.splits option.splits if_splits)

lemma scan_string_step_token:
  "scan_string_step s = (s', Some t) \<Longrightarrow> t = T_value_string \<or> t = T_parse_error"
  by (auto simp: scan_string_step_def scan_escape_def Let_def dest: scan_unicode_token
      split: prod.splits if_splits)

lemma tok_ok_string: "tok_ok (scan_string_loop s)"
proof (induction s rule: scan_string_loop.induct)
  case (1 s)
  then show ?case
    by (subst scan_string_loop.simps)
      (auto split: prod.splits option.splits dest: scan_string_step_token)
qed

lemma tok_ok_literal: "t \<noteq> T_value_unsigned \<Longrightarrow> t \<noteq> T_value_integer \<Longrightarrow> t \<noteq> T_value_float \<Longrightarrow> tok_ok (scan_literal_rest cs t s)"
  by (induction cs t s rule: scan_literal_rest.induct) (simp_all add: Let_def)

lemma tok_ok_scan: "tok_ok (scan s)"
  by (simp add: scan_def scan_token_def scan_literal_def scan_string_def Let_def case_prod_unfold
      tok_ok_literal tok_ok_string tok_ok_number del: scan_literal_rest.simps)

section \<open>The invariant of the loop\<close>

text \<open>
  With at most \<open>D\<close> as the depth the callback lets pass: a frame lies inside at most \<open>D\<close> others,
  and what it holds, counted from the outermost frame, is no deeper than \<open>D\<close>.
\<close>

fun frame_values :: "frame \<Rightarrow> json list" where
  "frame_values (FArr xs) = xs"
| "frame_values (FObj m _) = map snd m"

fun frame_inv :: "frame \<Rightarrow> bool" where
  "frame_inv (FArr _) = True"
| "frame_inv (FObj m _) = om_inv m"

fun frame_is_array :: "frame \<Rightarrow> bool" where
  "frame_is_array (FArr _) = True"
| "frame_is_array (FObj _ _) = False"

fun frames_ok :: "nat \<Rightarrow> frame list \<Rightarrow> bool" where
  "frames_ok D [] = True"
| "frames_ok D (f # fs) =
     (length fs \<le> D \<and> frame_inv f \<and>
      (\<forall>v \<in> set (frame_values f). json_wf v \<and> json_depth v + Suc (length fs) \<le> D) \<and>
      frames_ok D fs)"

definition parser_ok :: "nat \<Rightarrow> parser \<Rightarrow> bool" where
  "parser_ok D p \<longleftrightarrow> frames_ok D (ref_stack p) \<and> json_wf (root p) \<and> json_depth (root p) \<le> D \<and>
     tok_ok (m_lexer p, last_token p)"

definition stacks_match :: "parser \<Rightarrow> bool" where
  "stacks_match p \<longleftrightarrow> states p = map frame_is_array (ref_stack p)"

definition bounds :: "callback \<Rightarrow> nat \<Rightarrow> bool" where
  "bounds cb D \<longleftrightarrow> (\<forall>d. cb d = Inr () \<longrightarrow> d \<le> D)"

lemma frame_json_ok:
  assumes "frames_ok D (f # fs)"
  shows "json_wf (frame_json f) \<and> json_depth (frame_json f) + length fs \<le> D"
proof (cases f)
  case (FArr xs)
  have "max_list (map (\<lambda>x. Suc (json_depth x)) xs) \<le> D - length fs"
    using assms FArr by (fastforce simp: max_list_le)
  then show ?thesis using assms FArr by auto
next
  case (FObj m k)
  have "max_list (map (\<lambda>kv. Suc (json_depth (snd kv))) m) \<le> D - length fs"
    using assms FObj by (fastforce simp: max_list_le)
  then show ?thesis using assms FObj by auto
qed

lemma parser_ok_attach:
  assumes "parser_ok D p" and "json_wf v" and "json_depth v + length (ref_stack p) \<le> D"
  shows "parser_ok D (attach v p)"
  using assms
  by (auto simp: parser_ok_def attach_def dest!: snd_om_put split: list.split frame.split)
    (force dest: bspec)+

lemma stacks_match_attach [simp]: "stacks_match (attach v p) = stacks_match p"
  by (auto simp: stacks_match_def attach_def split: list.split frame.split)

lemma parser_ok_get_token: "parser_ok D p \<Longrightarrow> parser_ok D (get_token p)"
  using tok_ok_scan[of "m_lexer p"] by (simp add: parser_ok_def) (simp add: get_token_def)

lemma parser_ok_states [simp]: "parser_ok D (p\<lparr>states := st\<rparr>) = parser_ok D p"
  by (simp add: parser_ok_def)

lemma stacks_match_get_token [simp]: "stacks_match (get_token p) = stacks_match p"
  by (simp add: stacks_match_def)

lemma sax_value_ok:
  assumes "sax_value cb v p = Inr p'" and "bounds cb D" and "parser_ok D p"
    and "json_wf v" and "json_depth v = 0"
  shows "parser_ok D p' \<and> (stacks_match p \<longrightarrow> stacks_match p')"
  using assms by (auto simp: sax_value_def andThen_eq_Inr bounds_def intro!: parser_ok_attach)

lemma sax_start_ok:
  assumes "sax_start cb f p = Inr p'" and "bounds cb D" and "parser_ok D p" and "frame_values f = []"
    and "frame_inv f"
  shows "parser_ok D p' \<and> ref_stack p' = f # ref_stack p \<and> states p' = states p"
  using assms by (auto simp: sax_start_def andThen_eq_Inr bounds_def parser_ok_def)

lemma sax_key_ok:
  assumes "sax_key cb k p = Inr p'" and "parser_ok D p"
  shows "parser_ok D p' \<and> map frame_is_array (ref_stack p') = map frame_is_array (ref_stack p) \<and>
    states p' = states p"
  using assms by (auto simp: sax_key_def andThen_eq_Inr parser_ok_def split: list.splits frame.splits)

lemma sax_end_ok:
  assumes "sax_end cb p = Inr p'" and "parser_ok D p"
  shows "parser_ok D p' \<and>
    map frame_is_array (ref_stack p') = tl (map frame_is_array (ref_stack p)) \<and>
    states p' = states p"
proof -
  obtain f fs where f: "ref_stack p = f # fs" and p': "p' = attach (frame_json f) (p\<lparr>ref_stack := fs\<rparr>)"
    using assms(1) by (auto simp: sax_end_def andThen_eq_Inr split: list.splits)
  have "frames_ok D (f # fs)" using assms(2) f by (simp add: parser_ok_def)
  from frame_json_ok[OF this] have j: "json_wf (frame_json f)" "json_depth (frame_json f) + length fs \<le> D"
    by auto
  have "parser_ok D (p\<lparr>ref_stack := fs\<rparr>)" using assms(2) f by (auto simp: parser_ok_def)
  from parser_ok_attach[OF this] j have "parser_ok D p'" using p' by simp
  moreover have "map frame_is_array (ref_stack p') = map frame_is_array fs"
    using p' by (auto simp: attach_def split: list.split frame.split)
  ultimately show ?thesis using f p' by simp
qed

lemma parse_key_ok:
  assumes "parse_key cb p = Inr p'" and "parser_ok D p"
  shows "parser_ok D p' \<and> map frame_is_array (ref_stack p') = map frame_is_array (ref_stack p) \<and>
    states p' = states p"
  using assms
  by (auto simp: parse_key_def andThen_eq_Inr Let_def split: if_splits
      dest!: sax_key_ok[of cb _ p _ D] intro: parser_ok_get_token)

lemma parse_value_ok:
  assumes r: "parse_value cb p = Inr (p', n)" and b: "bounds cb D" and p: "parser_ok D p"
    and m: "stacks_match p"
  shows "parser_ok D p' \<and> stacks_match p'"
proof -
  consider (obj) "last_token p = T_begin_object" | (arr) "last_token p = T_begin_array"
    | (val) v where "sax_value cb v p = Inr p'" "json_wf v" "json_depth v = 0"
    using r p
    by (cases "last_token p") (auto simp: parse_value_def andThen_eq_Inr parser_ok_def tok_ok_def
        split: dbl.splits)
  then show ?thesis
  proof cases
    case obj
    then obtain q1 where q1: "sax_start cb (FObj [] []) p = Inr q1"
      and r1: "(if last_token (get_token q1) = T_end_object
            then andThen (sax_end cb (get_token q1)) (\<lambda>p. Inr (p, Next_state))
            else andThen (parse_key cb (get_token q1)) (\<lambda>p.
              Inr (get_token (p\<lparr>states := False # states p\<rparr>), Next_value))) = Inr (p', n)"
      using r by (auto simp: parse_value_def andThen_eq_Inr Let_def)
    from sax_start_ok[OF q1 b p] have s: "parser_ok D (get_token q1)"
        "ref_stack q1 = FObj [] [] # ref_stack p" "states q1 = states p"
      by (auto intro: parser_ok_get_token)
    show ?thesis
      using r1 s m
      by (auto simp: andThen_eq_Inr stacks_match_def split: if_splits dest!: sax_end_ok[of cb _ _ D]
          parse_key_ok[of cb _ _ D] intro!: parser_ok_get_token)
  next
    case arr
    then obtain q1 where q1: "sax_start cb (FArr []) p = Inr q1"
      and r1: "(if last_token (get_token q1) = T_end_array
            then andThen (sax_end cb (get_token q1)) (\<lambda>p. Inr (p, Next_state))
            else Inr ((get_token q1)\<lparr>states := True # states (get_token q1)\<rparr>, Next_value)) = Inr (p', n)"
      using r by (auto simp: parse_value_def andThen_eq_Inr Let_def)
    from sax_start_ok[OF q1 b p] have s: "parser_ok D (get_token q1)"
        "ref_stack q1 = FArr [] # ref_stack p" "states q1 = states p"
      by (auto intro: parser_ok_get_token)
    show ?thesis
      using r1 s m
      by (auto simp: andThen_eq_Inr stacks_match_def split: if_splits dest!: sax_end_ok[of cb _ _ D]
         )
  next
    case val
    then show ?thesis using sax_value_ok[OF val(1) b p] m by simp
  qed
qed

lemma parse_state_ok:
  assumes r: "parse_state cb p = Inr (p', n)" and p: "parser_ok D p" and m: "stacks_match p"
  shows "parser_ok D p' \<and> stacks_match p' \<and> (n = Done \<longrightarrow> p' = p \<and> ref_stack p = [])"
  using r m parser_ok_get_token[OF p] p
  by (auto simp: parse_state_def andThen_eq_Inr Let_def stacks_match_def
      split: list.splits bool.splits if_splits dest!: sax_end_ok[of cb _ _ D]
      parse_key_ok[of cb _ _ D] intro!: parser_ok_get_token)

lemma parse_loop_ok:
  "parse_loop cb skip p = Inr p' \<Longrightarrow> bounds cb D \<Longrightarrow> parser_ok D p \<Longrightarrow> stacks_match p \<Longrightarrow>
   parser_ok D p' \<and> ref_stack p' = []"
proof (induction cb skip p rule: parse_loop.induct)
  case (1 cb skip p)
  obtain p1 n1 where v: "(if skip then Inr (p, Next_state) else parse_value cb p) = Inr (p1, n1)"
    using "1.prems"(1) by (subst (asm) parse_loop.simps) (auto split: sum.splits)
  have ok1: "parser_ok D p1" "stacks_match p1"
    using v "1.prems" parse_value_ok[of cb p p1 n1 D] by (auto split: if_splits)
  show ?case
  proof (cases "n1 = Next_value")
    case True
    then show ?thesis
      using "1.IH"(1)[OF v refl True] "1.prems" ok1 v by (subst (asm) parse_loop.simps) simp
  next
    case False
    then obtain p2 n2 where s: "parse_state cb p1 = Inr (p2, n2)"
      using "1.prems"(1) v
      by (subst (asm) parse_loop.simps) (auto split: sum.splits parse_next.splits)
    from parse_state_ok[OF s ok1] have ok2: "parser_ok D p2" "stacks_match p2"
        "n2 = Done \<longrightarrow> p2 = p1 \<and> ref_stack p1 = []" by auto
    have loop: "parse_loop cb skip p = (case n2 of
        Next_value \<Rightarrow> parse_loop cb False p2 | Next_state \<Rightarrow> parse_loop cb True p2 | Done \<Rightarrow> Inr p2)"
      using v s False
      by (subst parse_loop.simps) (cases n1; auto split: parse_next.split)
    show ?thesis
    proof (cases n2)
      case Next_value
      then show ?thesis
        using "1.IH" v s "1.prems" ok2 loop False by (cases n1) auto
    next
      case Next_state
      then show ?thesis
        using "1.IH" v s "1.prems" ok2 loop False by (cases n1) auto
    next
      case Done
      then show ?thesis using ok1 ok2 loop "1.prems" by simp
    qed
  qed
qed

section \<open>The guard only adds an outcome\<close>

definition free_callback :: callback where
  "free_callback depth = Inr ()"

definition guards :: "callback \<Rightarrow> error \<Rightarrow> bool" where
  "guards cb e \<longleftrightarrow> (\<forall>d. cb d = Inr () \<or> cb d = Inl e)"

definition guarded :: "error \<Rightarrow> 'a result \<Rightarrow> 'a result \<Rightarrow> bool" where
  "guarded e r r' \<longleftrightarrow> r = r' \<or> r = Inl e"

lemma guarded_refl: "guarded e r r"
  by (simp add: guarded_def)

lemma guarded_andThen:
  "guarded e r r' \<Longrightarrow> (\<And>x. r' = Inr x \<Longrightarrow> guarded e (f x) (f' x)) \<Longrightarrow>
   guarded e (andThen r f) (andThen r' f')"
  by (cases r') (force simp: guarded_def)+

lemma guarded_if:
  "(b \<Longrightarrow> guarded e r r') \<Longrightarrow> (\<not> b \<Longrightarrow> guarded e s s') \<Longrightarrow>
   guarded e (if b then r else s) (if b then r' else s')"
  by simp

lemma guarded_callback: "guards cb e \<Longrightarrow> guarded e (cb d) (free_callback d)"
  by (auto simp: guards_def guarded_def free_callback_def)

lemma guards_sax:
  assumes "guards cb e"
  shows "guarded e (sax_value cb v p) (sax_value free_callback v p)"
    and "guarded e (sax_start cb f p) (sax_start free_callback f p)"
    and "guarded e (sax_key cb k p) (sax_key free_callback k p)"
    and "guarded e (sax_end cb p) (sax_end free_callback p)"
  unfolding sax_value_def sax_start_def sax_key_def sax_end_def
  by (auto intro!: guarded_andThen guarded_callback[OF assms] guarded_refl split: list.split)

lemma parse_key_guard: "guards cb e \<Longrightarrow> guarded e (parse_key cb p) (parse_key free_callback p)"
  unfolding parse_key_def Let_def by (intro guarded_if guarded_andThen guards_sax guarded_refl)

lemmas guarded_intros = guarded_if guarded_andThen guards_sax parse_key_guard

lemma parse_value_guard:
  assumes "guards cb e"
  shows "guarded e (parse_value cb p) (parse_value free_callback p)"
  unfolding parse_value_def Let_def
  by (cases "last_token p"; cases "value_float (m_lexer p)"; simp only: token_type.case dbl.case)
    (intro guarded_intros assms guarded_refl)+

lemma parse_state_guard:
  assumes "guards cb e"
  shows "guarded e (parse_state cb p) (parse_state free_callback p)"
proof (cases "states p")
  case (Cons b bs)
  show ?thesis
    unfolding parse_state_def Let_def Cons
    by (cases b; simp only: list.case bool.case) (intro guarded_intros assms guarded_refl)+
qed (simp add: parse_state_def guarded_refl)

lemma parse_loop_step:
  "parse_loop cb skip p =
     andThen (if skip then Inr (p, Next_state) else parse_value cb p) (\<lambda>(p1, n1).
       if n1 = Next_value then parse_loop cb False p1
       else andThen (parse_state cb p1) (\<lambda>(p2, n2).
         if n2 = Done then Inr p2 else parse_loop cb (n2 = Next_state) p2))"
proof -
  have "(case parse_state cb q of
      Inl e \<Rightarrow> Inl e | Inr (p'', Next_value) \<Rightarrow> parse_loop cb False p''
    | Inr (p'', Next_state) \<Rightarrow> parse_loop cb True p'' | Inr (p'', Done) \<Rightarrow> Inr p'') =
    andThen (parse_state cb q) (\<lambda>(p2, n2).
       if n2 = Done then Inr p2 else parse_loop cb (n2 = Next_state) p2)" for q
    by (cases "parse_state cb q") (auto split: parse_next.split)
  then show ?thesis
    by (subst parse_loop.simps) (auto simp: andThen_def split: sum.split parse_next.split)
qed

lemma parse_loop_induct:
  assumes step: "\<And>skip p.
    (\<And>p1. (if skip then Inr (p, Next_state) else parse_value cb p) = Inr (p1, Next_value) \<Longrightarrow>
       P False p1) \<Longrightarrow>
    (\<And>p1 n1 p2 n2. (if skip then Inr (p, Next_state) else parse_value cb p) = Inr (p1, n1) \<Longrightarrow>
       n1 \<noteq> Next_value \<Longrightarrow> parse_state cb p1 = Inr (p2, n2) \<Longrightarrow> n2 \<noteq> Done \<Longrightarrow>
       P (n2 = Next_state) p2) \<Longrightarrow> P skip p"
  shows "P skip p"
proof (induction p arbitrary: skip rule: measure_induct_rule[of parse_measure])
  case (less p)
  show ?case
  proof (rule step)
    fix p1
    assume "(if skip then Inr (p, Next_state) else parse_value cb p) = Inr (p1, Next_value)"
    then show "P False p1" using less parse_value_measure[of cb p p1] by (auto split: if_splits)
  next
    fix p1 n1 p2 n2
    assume v: "(if skip then Inr (p, Next_state) else parse_value cb p) = Inr (p1, n1)"
      and s: "parse_state cb p1 = Inr (p2, n2)" "n2 \<noteq> Done"
    have "left p2 < left p"
      using parse_state_left[OF s] parse_value_left[of cb p p1 n1] v by (auto split: if_splits)
    then show "P (n2 = Next_state) p2" using less parse_measure_less by blast
  qed
qed

lemma parse_loop_guard:
  assumes g: "guards cb e"
  shows "cb' = free_callback \<Longrightarrow> guarded e (parse_loop cb skip p) (parse_loop cb' skip p)"
proof (induction cb' skip p rule: parse_loop.induct)
  case (1 cb' skip p)
  have val: "guarded e (if skip then Inr (p, Next_state) else parse_value cb p)
      (if skip then Inr (p, Next_state) else parse_value cb' p)"
    using parse_value_guard[OF g] guarded_refl "1.prems" by auto
  have state: "guarded e (parse_state cb q) (parse_state cb' q)" for q
    using parse_state_guard[OF g] "1.prems" by simp
  have rest: "guarded e
      (if n2 = Done then Inr p2 else parse_loop cb (n2 = Next_state) p2)
      (if n2 = Done then Inr p2 else parse_loop cb' (n2 = Next_state) p2)"
    if "(if skip then Inr (p, Next_state) else parse_value cb' p) = Inr (p1, n1)"
      and "n1 \<noteq> Next_value" and "parse_state cb' p1 = Inr (p2, n2)" for p1 n1 p2 n2
    using that "1.IH" "1.prems" guarded_refl
    by (cases n1; cases n2) auto
  show ?case
    using "1.IH"(1) "1.prems" rest
    by (subst parse_loop_step[of cb], subst parse_loop_step[of cb'], intro guarded_andThen val)
      (auto intro!: guarded_andThen state[unfolded "1.prems"])
qed

lemma json_parse_guard:
  assumes "guards cb e"
  shows "json_parse cb text = json_parse free_callback text \<or> json_parse cb text = Inl e"
proof -
  have "guarded e (json_parse cb text) (json_parse free_callback text)"
    unfolding json_parse_def
    by (intro guarded_andThen parse_loop_guard[OF assms refl] guarded_refl)
  then show ?thesis by (simp add: guarded_def)
qed

section \<open>What a failed parse throws\<close>

fun parse_failure :: "error \<Rightarrow> bool" where
  "parse_failure (Json_exception n i t) \<longleftrightarrow>
     n = ''parse_error'' \<and> i = 101 \<or> n = ''out_of_range'' \<and> i = 406"
| "parse_failure _ \<longleftrightarrow> False"

lemma parse_failure_parse_error [simp]: "parse_failure (parse_error p x c)"
  by (simp add: parse_error_def)

definition fails_with :: "error \<Rightarrow> 'a result \<Rightarrow> bool" where
  "fails_with e r \<longleftrightarrow> (\<forall>e'. r = Inl e' \<longrightarrow> e' = e \<or> parse_failure e')"

lemma fails_Inr: "fails_with e (Inr x)"
  by (simp add: fails_with_def)

lemma fails_parse_error: "fails_with e (Inl (parse_error p x c))"
  by (simp add: fails_with_def)

lemma fails_andThen:
  "fails_with e r \<Longrightarrow> (\<And>x. r = Inr x \<Longrightarrow> fails_with e (f x)) \<Longrightarrow> fails_with e (andThen r f)"
  by (cases r) (auto simp: fails_with_def)

lemma fails_if: "(b \<Longrightarrow> fails_with e r) \<Longrightarrow> (\<not> b \<Longrightarrow> fails_with e s) \<Longrightarrow> fails_with e (if b then r else s)"
  by simp

lemma fails_callback: "guards cb e \<Longrightarrow> fails_with e (cb d)"
  unfolding guards_def fails_with_def by (metis Inl_inject Inr_not_Inl)

lemma fails_sax:
  assumes "guards cb e"
  shows "fails_with e (sax_value cb v p)" and "fails_with e (sax_start cb f p)"
    and "fails_with e (sax_key cb k p)" and "ref_stack p \<noteq> [] \<Longrightarrow> fails_with e (sax_end cb p)"
  unfolding sax_value_def sax_start_def sax_key_def sax_end_def
  by (auto intro!: fails_andThen fails_callback[OF assms] fails_Inr split: list.split)

lemma fails_key: "guards cb e \<Longrightarrow> fails_with e (parse_key cb p)"
  unfolding parse_key_def Let_def by (intro fails_if fails_andThen fails_sax fails_parse_error fails_Inr)

lemma fails_value:
  assumes g: "guards cb e"
  shows "fails_with e (parse_value cb p)"
proof -
  have start: "fails_with e (sax_end cb (get_token q))" if "sax_start cb f p = Inr q" for q f
    using that by (intro fails_sax g) (auto simp: sax_start_def andThen_eq_Inr)
  show ?thesis
    unfolding parse_value_def Let_def
    by (cases "last_token p"; cases "value_float (m_lexer p)"; simp only: token_type.case dbl.case)
      ((intro fails_if fails_andThen fails_sax(1,2) fails_key g fails_parse_error fails_Inr start,
        assumption?)+ | simp add: fails_with_def)+
qed

lemma fails_state:
  assumes g: "guards cb e" and "stacks_match p"
  shows "fails_with e (parse_state cb p)"
proof (cases "states p")
  case (Cons b bs)
  then have "ref_stack p \<noteq> []" using assms(2) by (auto simp: stacks_match_def)
  then show ?thesis
    unfolding parse_state_def Let_def Cons
    by (cases b; simp only: list.case bool.case)
      (intro fails_if fails_andThen fails_sax(4) fails_key g fails_parse_error fails_Inr; simp)+
qed (simp add: parse_state_def fails_Inr)

lemma fails_loop:
  assumes g: "guards cb e" and b: "bounds cb D"
  shows "parser_ok D p \<Longrightarrow> stacks_match p \<Longrightarrow> fails_with e (parse_loop cb skip p)"
proof (induction skip p rule: parse_loop_induct[of cb])
  case (1 skip p)
  let ?v = "if skip then Inr (p, Next_state) else parse_value cb p"
  have val: "fails_with e ?v"
    using fails_value[OF g] by (simp add: fails_Inr)
  have ok1: "parser_ok D p1 \<and> stacks_match p1" if "?v = Inr (p1, n1)" for p1 n1
    using that "1.prems" parse_value_ok[of cb p p1 n1 D] b by (auto split: if_splits)
  have rest: "fails_with e (if n2 = Done then Inr p2 else parse_loop cb (n2 = Next_state) p2)"
    if "?v = Inr (p1, n1)" "n1 \<noteq> Next_value" and s: "parse_state cb p1 = Inr (p2, n2)" for p1 n1 p2 n2
    using "1.IH"(2)[OF that] ok1[OF that(1)] parse_state_ok[OF s, of D] by (simp add: fails_Inr)
  show ?case
    using "1.IH"(1) rest ok1
    by (subst parse_loop_step, intro fails_andThen val)
      (auto intro!: fails_andThen fails_state[OF g])
qed

section \<open>Properties\<close>

definition nesting_error :: error where
  "nesting_error =
     Orts_exception bad_request_error ''Request JSON nesting exceeds the maximum depth''"

lemma depth_callback_guards: "guards depth_callback nesting_error"
  by (auto simp: guards_def depth_callback_def nesting_error_def)

lemma depth_callback_bounds: "bounds depth_callback MAX_JSON_NESTING_DEPTH"
  by (auto simp: bounds_def depth_callback_def split: if_splits)

lemma init_parser_ok: "parser_ok D (init_parser text)" "stacks_match (init_parser text)"
  unfolding init_parser_def
  by (auto intro!: parser_ok_get_token) (auto simp: parser_ok_def stacks_match_def)

lemma parse_request_result:
  "case parse_request_json body of
     Inr j \<Rightarrow> json_wf j \<and> json_depth j \<le> MAX_JSON_NESTING_DEPTH
   | Inl e \<Rightarrow> e = nesting_error \<or> parse_failure e"
proof (cases "parse_request_json body")
  case (Inl e)
  have "fails_with nesting_error (parse_request_json body)"
    unfolding parse_request_json_def json_parse_def Let_def
    by (intro fails_andThen fails_if fails_Inr fails_parse_error
        fails_loop[OF depth_callback_guards depth_callback_bounds] init_parser_ok)
  with Inl show ?thesis by (simp add: fails_with_def)
next
  case (Inr j)
  then obtain p where p: "parse_loop depth_callback False (init_parser body) = Inr p"
    and j: "j = root p"
    by (auto simp: parse_request_json_def json_parse_def andThen_eq_Inr Let_def split: if_splits)
  from parse_loop_ok[OF p depth_callback_bounds init_parser_ok] j Inr show ?thesis
    by (simp add: parser_ok_def)
qed

lemma parse_request_depth:
  "parse_request_json body = Inr j \<Longrightarrow> json_wf j \<and> json_depth j \<le> MAX_JSON_NESTING_DEPTH"
  using parse_request_result[of body] by simp

text \<open>
  C2. \<^verbatim>\<open>parse_request_json\<close> returns for every body. A value it accepts is well-formed (objects
  are ordered maps, integers fit their 64 bits) and nested at most 64 deep, the bound the
  recursive tensor walks rely on; otherwise it throws either the \<^verbatim>\<open>bad_request_error\<close> of the
  nesting limit or a parse error of the library, never an assertion.
\<close>

theorem parse_request_outcome:
  "case parse_request_json body of
     Inr j \<Rightarrow> json_wf j \<and> json_depth j \<le> MAX_JSON_NESTING_DEPTH
   | Inl e \<Rightarrow> e = nesting_error \<or> parse_failure e"
  by (rule parse_request_result)

text \<open>
  C30. The depth limit changes nothing else: the outcome is that of the same parser without a
  callback, value or error, or it is the \<^verbatim>\<open>bad_request_error\<close> of the nesting limit.
\<close>

theorem nesting_guard:
  "parse_request_json body \<in> {json_parse free_callback body, Inl nesting_error}"
  using json_parse_guard[OF depth_callback_guards, of body] by (simp add: parse_request_json_def)

end
