(* ===== verification/Context.thy ===== *)
theory Context
  imports Session Json_Parser
begin

text \<open>
  One inference request (\<^verbatim>\<open>src/src/onnx/execution/context.cpp\<close>): the data set is checked
  against the inputs of the session, the tensors are built, the model is run and its outputs
  are turned into JSON. ONNX Runtime gives the inputs of a model distinct names.
\<close>

definition not_array_error :: "string \<Rightarrow> error" where
  "not_array_error n = Orts_exception bad_request_error (''Input '' @ n @ '' is not array'')"

definition rank_error :: "string \<Rightarrow> nat \<Rightarrow> nat \<Rightarrow> error" where
  "rank_error n got expected = Orts_exception bad_request_error
     (''Input '' @ n @ '' has tensor rank '' @ nat_to_string got @
      '' but the model expects rank '' @ nat_to_string expected)"

text \<open>
  The body of the loop over the inputs: the data set, which \<^verbatim>\<open>operator[]\<close> extends by a null
  member for an input it lacks, and the tensors so far.
\<close>

definition context_input :: "('so, 'c, 'm, 'v) ort \<Rightarrow> value_info \<Rightarrow>
    json \<times> (string \<times> 'v) list \<Rightarrow> (json \<times> (string \<times> 'v) list) result" where
  "context_input ort input st =
     andThen (at_mut (fst st) (vname input)) (\<lambda>(dataset, data).
       if \<not> is_array data then Inl (not_array_error (vname input))
       else let json_values = flat_json_values data;
                input_shape = calcShape data (length (vshape input)) []
            in if length input_shape \<noteq> length (vshape input)
               then Inl (rank_error (vname input) (length input_shape) (length (vshape input)))
               else andThen (make_input_value (create_tensor ort)
                              (set_input_shape input_shape input) json_values)
                      (\<lambda>t. Inr (dataset, om_put (vname input) t (snd st))))"

text \<open>A data set given as a string is parsed by the same bounded parser.\<close>

definition dataset_of :: "json \<Rightarrow> json result" where
  "dataset_of json_str =
     (case json_str of JString text \<Rightarrow> parse_request_json text | _ \<Rightarrow> Inr json_str)"

text \<open>The constructor.\<close>

definition make_context :: "('so, 'c, 'm, 'v) ort \<Rightarrow> 'm session \<Rightarrow> json \<Rightarrow> (string \<times> 'v) list result" where
  "make_context ort s json_str =
     andThen (dataset_of json_str) (\<lambda>dataset.
       if \<not> is_object dataset
       then Inl (Orts_exception bad_request_error ''Top-level JSON dataset is not object'')
       else andThen (foldR (context_input ort) (sinputs s) (dataset, [])) (\<lambda>(_, inputs). Inr inputs))"

text \<open>The tensors are handed over in the order of the session's inputs, not of the map.\<close>

definition input_tensors :: "'m session \<Rightarrow> (string \<times> 'v) list \<Rightarrow> 'v list result" where
  "input_tensors s inputs =
     mapR (\<lambda>i. case map_of inputs (vname i) of
                 Some t \<Rightarrow> Inr t
               | None \<Rightarrow> Inl (Undefined_behaviour ''null input'')) (sinputs s)"

definition context_run :: "('so, 'c, 'm, 'v) ort \<Rightarrow> 'm session \<Rightarrow> (string \<times> 'v) list \<Rightarrow>
    ort_value list result" where
  "context_run ort s inputs = andThen (input_tensors s inputs) (run_session ort s)"

fun tensors_to_json :: "('so, 'c, 'm, 'v) ort \<Rightarrow> value_info list \<Rightarrow> ort_value list \<Rightarrow>
    (string \<times> json) list \<Rightarrow> (string \<times> json) list result" where
  "tensors_to_json ort infos [] output = Inr output"
| "tensors_to_json ort [] (t # ts) output = Inl (Undefined_behaviour ''read outside a vector'')"
| "tensors_to_json ort (info # infos) (t # ts) output =
     andThen (get_tensor_data (half_to_float ort) info t) (\<lambda>data.
       tensors_to_json ort infos ts (om_put (vname info) (JArray data) output))"

definition infer :: "('so, 'c, 'm, 'v) ort \<Rightarrow> 'm session \<Rightarrow> json \<Rightarrow> json result" where
  "infer ort s data =
     andThen (make_context ort s data) (\<lambda>inputs.
     andThen (context_run ort s inputs) (\<lambda>result.
     andThen (tensors_to_json ort (soutputs s) result []) (\<lambda>output. Inr (JObject output))))"

section \<open>What a context holds\<close>

definition input_ok :: "('so, 'c, 'm, 'v) ort \<Rightarrow> json \<Rightarrow> value_info \<Rightarrow> 'v \<Rightarrow> bool" where
  "input_ok ort dataset input t \<longleftrightarrow>
     (case member dataset (vname input) of
        Some (JArray xs) \<Rightarrow>
          (let sh = calcShape (JArray xs) (length (vshape input)) []
           in length sh = length (vshape input) \<and>
              make_input_value (create_tensor ort) (set_input_shape sh input)
                (flat_json_values (JArray xs)) = Inr t)
      | _ \<Rightarrow> False)"

lemma context_input_Inr:
  assumes "context_input ort input (dataset, acc) = Inr (dataset', acc')"
  shows "dataset' = dataset \<and> (\<exists>t. input_ok ort dataset input t \<and> acc' = om_put (vname input) t acc)"
proof -
  from assms obtain data where m: "at_mut dataset (vname input) = Inr (dataset', data)"
    and a: "is_array data"
    and r: "length (calcShape data (length (vshape input)) []) = length (vshape input)"
    and t: "andThen (make_input_value (create_tensor ort)
        (set_input_shape (calcShape data (length (vshape input)) []) input) (flat_json_values data))
        (\<lambda>t. Inr (dataset', om_put (vname input) t acc)) = Inr (dataset', acc')"
    by (auto simp: context_input_def andThen_eq_Inr Let_def split: if_splits)
  from a obtain xs where xs: "data = JArray xs" by (cases data) auto
  from m xs have "dataset' = dataset" "member dataset (vname input) = Some (JArray xs)"
    by (cases dataset; auto simp: member_def split: option.splits)+
  then show ?thesis
    using t r xs by (auto simp: input_ok_def andThen_eq_Inr Let_def)
qed

lemma context_inputs_Inr:
  "foldR (context_input ort) inputs (dataset, acc) = Inr (dataset', acc') \<Longrightarrow>
   distinct (map vname inputs) \<Longrightarrow>
   (\<forall>i \<in> set inputs. \<exists>t. input_ok ort dataset i t \<and> map_of acc' (vname i) = Some t) \<and>
   (\<forall>k. k \<notin> vname ` set inputs \<longrightarrow> map_of acc' k = map_of acc k)"
proof (induction inputs arbitrary: acc)
  case (Cons i inputs)
  obtain d1 acc1 where 1: "context_input ort i (dataset, acc) = Inr (d1, acc1)"
    and 2: "foldR (context_input ort) inputs (d1, acc1) = Inr (dataset', acc')"
    using Cons.prems(1) by (auto simp: andThen_eq_Inr)
  from context_input_Inr[OF 1] obtain t where t: "d1 = dataset" "input_ok ort dataset i t"
    "acc1 = om_put (vname i) t acc" by auto
  from Cons.IH[of acc1] 2 t Cons.prems(2) show ?case by auto
qed simp

lemma input_tensors_ok:
  "\<forall>i \<in> set is. \<exists>t. P i t \<and> map_of m (vname i) = Some t \<Longrightarrow>
   \<exists>ts. mapR (\<lambda>i. case map_of m (vname i) of Some t \<Rightarrow> Inr t | None \<Rightarrow> Inl e) is = Inr ts \<and>
     list_all2 P is ts"
  by (induction "is") auto

lemma member_depth: "member j k = Some v \<Longrightarrow> json_depth v < json_depth j"
proof (cases j)
  case (JObject m)
  assume "member j k = Some v"
  then have kv: "(k, v) \<in> set m" using JObject by (auto simp: member_def dest: map_of_SomeD)
  have "max_list (map (\<lambda>kv. Suc (json_depth (snd kv))) m) \<le> json_depth j" by (simp add: JObject)
  then have "Suc (json_depth v) \<le> json_depth j" using kv by (fastforce simp: max_list_le)
  then show ?thesis by simp
qed (auto simp: member_def)

section \<open>Properties\<close>

text \<open>
  C10. When a data set is accepted, every input of the session is present in it as an array of
  the right rank, and the tensors are handed to ONNX Runtime one per input in the order of the
  session's inputs, each built from the member of its own name; so the parameter count that
  \<^verbatim>\<open>session::run\<close> checks always agrees.
\<close>

theorem inputs_in_order:
  assumes "distinct (map vname (sinputs s))" and "is_object dataset"
    and "make_context ort s dataset = Inr inputs"
  shows "\<exists>ts. input_tensors s inputs = Inr ts \<and> list_all2 (input_ok ort dataset) (sinputs s) ts \<and>
    context_run ort s inputs = run_model ort (model s) ts"
proof -
  from assms(2) obtain m where d: "dataset = JObject m" by (cases dataset) auto
  obtain d' where "foldR (context_input ort) (sinputs s) (dataset, []) = Inr (d', inputs)"
    using assms(3) d by (auto simp: make_context_def dataset_of_def andThen_eq_Inr)
  from context_inputs_Inr[OF this assms(1)]
  have "\<forall>i \<in> set (sinputs s). \<exists>t. input_ok ort dataset i t \<and> map_of inputs (vname i) = Some t" by simp
  from input_tensors_ok[OF this, of "Undefined_behaviour ''null input''"] obtain ts where ts: "input_tensors s inputs = Inr ts"
    "list_all2 (input_ok ort dataset) (sinputs s) ts" by (auto simp: input_tensors_def)
  then show ?thesis
    by (auto simp: context_run_def run_session_def dest: list_all2_lengthD)
qed

theorem inputs_in_order_witness:
  "context_run demo_ort demo_session [(''x'', [C_int 1, C_int 2])] =
     run_model demo_ort ''m'' [[C_int 1, C_int 2]]"
proof -
  let ?d = "JObject [(''x'', JArray [JArray [JInt 1, JInt 2]])]"
  have "make_context demo_ort demo_session ?d = Inr [(''x'', [C_int 1, C_int 2])]" by code_simp
  from inputs_in_order[OF _ _ this] show ?thesis
    by (simp add: demo_session_def make_value_info_def input_tensors_def)
qed

end
