(* ===== verification/Session_Manager.thy ===== *)
theory Session_Manager
  imports Context
begin

text \<open>
  The registry of loaded models (\<^verbatim>\<open>src/src/onnx/session_manager.cpp\<close>): an ordered map from
  keys to sessions. Every operation here holds the mutex for its whole duration, so operations are
  atomic state transformers; \<^verbatim>\<open>get_sessions\<close>, which hands out the map itself, takes no lock. How a model file is found is a parameter, set by the command-line
  program.
\<close>

type_synonym 'm sessions = "(session_key \<times> 'm session) list"

type_synonym model_bin_getter = "string \<Rightarrow> string \<Rightarrow> string result"

definition find_session :: "session_key \<Rightarrow> 'm sessions \<Rightarrow> 'm session option" where
  "find_session k ss = map_of ss k"

definition get_session :: "string \<Rightarrow> string \<Rightarrow> 'm sessions \<Rightarrow> 'm session option result" where
  "get_session name version ss =
     andThen (make_session_key name version) (\<lambda>k. Inr (find_session k ss))"

definition model_source_of :: "model_bin_getter \<Rightarrow> string \<Rightarrow> string \<Rightarrow> json \<Rightarrow> string option \<Rightarrow>
    model_source result" where
  "model_source_of getter name version option model_data =
     (case model_data of
        Some (b # bs) \<Rightarrow> Inr (Model_data (b # bs))
      | _ \<Rightarrow>
          (case member option ''path'' of
             Some (JString p) \<Rightarrow> Inr (Model_path (c_str p))
           | _ \<Rightarrow> andThen (getter name version) (\<lambda>bin. Inr (Model_data bin))))"

definition create_session :: "('so, 'c, 'm, 'v) ort \<Rightarrow> model_bin_getter \<Rightarrow> int \<Rightarrow> string \<Rightarrow> string \<Rightarrow>
    json \<Rightarrow> string option \<Rightarrow> 'm sessions \<Rightarrow> ('m session \<times> 'm sessions) result" where
  "create_session ort getter now name version option model_data ss =
     andThen (make_session_key name version) (\<lambda>k.
       if find_session k ss \<noteq> None
       then Inl (Orts_exception conflict_error ''session already exists'')
       else andThen (model_source_of getter name version option model_data) (\<lambda>source.
            andThen (make_session ort now k source option) (\<lambda>s.
            Inr (s, om_put k s ss))))"

definition remove_session :: "string \<Rightarrow> string \<Rightarrow> 'm sessions \<Rightarrow> 'm sessions result" where
  "remove_session name version ss =
     andThen (make_session_key name version) (\<lambda>k.
       if find_session k ss = None
       then Inl (Orts_exception not_found_error ''session not found'')
       else Inr (om_del k ss))"

end
