(* ===== verification/Task.thy ===== *)
theory Task
  imports Session_Manager
begin

text \<open>
  The requests of a client (\<^verbatim>\<open>src/src/task/\<close>): how a task is built from request JSON, and
  what running it does to the registry of sessions. A task object has no state of its own
  besides its arguments, so it is a value of a datatype; \<^verbatim>\<open>run\<close> maps a registry to the outcome
  and the registry after it. The thread pool runs an inference and hands its result or its
  exception back unchanged. Listing copies the map without the mutex; as one step it leaves out what
  a task of another connection does to the map meanwhile, which is a data race. The argument \<open>ndebug\<close> says whether assertions are compiled out.
\<close>

section \<open>Tasks\<close>

datatype task =
    Create_session string string json "string option"
  | Execute_session string string json
  | Get_session string string
  | List_session
  | Destroy_session string string

fun task_name :: "task \<Rightarrow> string" where
  "task_name (Create_session _ _ _ _) = ''CREATE_SESSION''"
| "task_name (Execute_session _ _ _) = ''EXECUTE_SESSION''"
| "task_name (Get_session _ _) = ''GET_SESSION''"
| "task_name List_session = ''LIST_SESSION''"
| "task_name (Destroy_session _ _) = ''DESTROY_SESSION''"

definition session_task :: "bool \<Rightarrow> json \<Rightarrow> (string \<times> string) result" where
  "session_task ndebug request_json =
     (case (member request_json ''model'', member request_json ''version'') of
        (Some (JString name), Some (JString version)) \<Rightarrow>
          (if \<not> ndebug \<and> (name = [] \<or> version = [])
           then Inl (Assert_failure ''length() > 0'')
           else Inr (name, version))
      | _ \<Rightarrow> Inl (Orts_exception bad_request_error
          ''Invalid session task. Must be a JSON object with model(string) and version(string) fields''))"

definition create_session_task :: "bool \<Rightarrow> json \<Rightarrow> string option \<Rightarrow> task result" where
  "create_session_task ndebug request_json model_data =
     andThen (session_task ndebug request_json) (\<lambda>(name, version).
       Inr (Create_session name version
         (case member request_json ''option'' of Some (JObject m) \<Rightarrow> JObject m | _ \<Rightarrow> JObject [])
         model_data))"

definition execute_session_task :: "bool \<Rightarrow> json \<Rightarrow> task result" where
  "execute_session_task ndebug request_json =
     andThen (session_task ndebug request_json) (\<lambda>(name, version).
       case member request_json ''data'' of
         Some (JObject m) \<Rightarrow> Inr (Execute_session name version (JObject m))
       | _ \<Rightarrow> Inl (Orts_exception bad_request_error
           ''Invalid session task. Must be a JSON object with data(object) field''))"

definition get_session_task :: "bool \<Rightarrow> json \<Rightarrow> task result" where
  "get_session_task ndebug request_json =
     andThen (session_task ndebug request_json) (\<lambda>(name, version). Inr (Get_session name version))"

definition destroy_session_task :: "bool \<Rightarrow> json \<Rightarrow> task result" where
  "destroy_session_task ndebug request_json =
     andThen (session_task ndebug request_json) (\<lambda>(name, version). Inr (Destroy_session name version))"

section \<open>Running a task\<close>

definition session_not_found :: error where
  "session_not_found = Orts_exception not_found_error ''session not found''"

fun run_task :: "('so, 'c, 'm, 'v) ort \<Rightarrow> model_bin_getter \<Rightarrow> int \<Rightarrow> task \<Rightarrow> 'm sessions \<Rightarrow>
    json result \<times> 'm sessions" where
  "run_task ort getter now (Create_session name version option model_data) ss =
     (case create_session ort getter now name version option model_data ss of
        Inl e \<Rightarrow> (Inl e, ss)
      | Inr (s, ss') \<Rightarrow> (Inr (session_json s), ss'))"
| "run_task ort getter now (Execute_session name version data) ss =
     (case get_session name version ss of
        Inl e \<Rightarrow> (Inl e, ss)
      | Inr None \<Rightarrow> (Inl session_not_found, ss)
      | Inr (Some s) \<Rightarrow> (infer ort (touch now s) data, om_put (ses_key s) (touch now s) ss))"
| "run_task ort getter now (Get_session name version) ss =
     (case get_session name version ss of
        Inl e \<Rightarrow> (Inl e, ss)
      | Inr None \<Rightarrow> (Inl session_not_found, ss)
      | Inr (Some s) \<Rightarrow> (Inr (session_json s), ss))"
| "run_task ort getter now List_session ss =
     (Inr (JArray (map (\<lambda>ks. session_json (snd ks)) ss)), ss)"
| "run_task ort getter now (Destroy_session name version) ss =
     (case remove_session name version ss of
        Inl e \<Rightarrow> (Inl e, ss)
      | Inr ss' \<Rightarrow> (Inr (JBool True), ss'))"

section \<open>The registry\<close>

definition manager_ok :: "'m sessions \<Rightarrow> bool" where
  "manager_ok ss \<longleftrightarrow> om_inv ss \<and> (\<forall>ks \<in> set ss. ses_key (snd ks) = fst ks \<and> key_valid (fst ks))"

lemma manager_ok_Nil [simp]: "manager_ok []"
  by (simp add: manager_ok_def)

lemma manager_ok_lookup:
  "manager_ok ss \<Longrightarrow> map_of ss k = Some s \<Longrightarrow> ses_key s = k \<and> key_valid k"
  by (fastforce simp: manager_ok_def dest: map_of_SomeD)

lemma manager_ok_put:
  "manager_ok ss \<Longrightarrow> ses_key s = k \<Longrightarrow> key_valid k \<Longrightarrow> manager_ok (om_put k s ss)"
  by (auto simp: manager_ok_def dest!: snd_om_put)

lemma manager_ok_del: "manager_ok ss \<Longrightarrow> manager_ok (om_del k ss)"
  by (auto simp: manager_ok_def om_del_def intro: om_inv_filter)

lemma make_session_key_of: "make_session ort now k source option = Inr s \<Longrightarrow> ses_key s = k"
  by (auto simp: make_session_def andThen_eq_Inr Let_def)

lemma touch_sel [simp]:
  "ses_key (touch now s) = ses_key s" "sinputs (touch now s) = sinputs s"
  "soutputs (touch now s) = soutputs s" "model (touch now s) = model s"
  "ses_option (touch now s) = ses_option s"
  by (simp_all add: touch_def)

section \<open>Tasks act on one key\<close>

text \<open>
  The abstract registry maps keys to sessions. A task with a valid key looks at the session of
  that key only, and leaves another one, or none, in its place.
\<close>

fun task_names :: "task \<Rightarrow> (string \<times> string) option" where
  "task_names (Create_session n v _ _) = Some (n, v)"
| "task_names (Execute_session n v _) = Some (n, v)"
| "task_names (Get_session n v) = Some (n, v)"
| "task_names (Destroy_session n v) = Some (n, v)"
| "task_names List_session = None"

definition new_session :: "('so, 'c, 'm, 'v) ort \<Rightarrow> model_bin_getter \<Rightarrow> int \<Rightarrow> string \<Rightarrow> string \<Rightarrow>
    json \<Rightarrow> string option \<Rightarrow> 'm session result" where
  "new_session ort getter now n v option d =
     andThen (model_source_of getter n v option d) (\<lambda>source.
       make_session ort now (Session_key n v) source option)"

fun task_effect :: "('so, 'c, 'm, 'v) ort \<Rightarrow> model_bin_getter \<Rightarrow> int \<Rightarrow> task \<Rightarrow> 'm session option \<Rightarrow>
    json result \<times> 'm session option" where
  "task_effect ort getter now (Create_session n v option d) None =
     (case new_session ort getter now n v option d of
        Inl e \<Rightarrow> (Inl e, None)
      | Inr s \<Rightarrow> (Inr (session_json s), Some s))"
| "task_effect ort getter now (Create_session n v option d) (Some s) =
     (Inl (Orts_exception conflict_error ''session already exists''), Some s)"
| "task_effect ort getter now (Execute_session n v data) (Some s) =
     (infer ort (touch now s) data, Some (touch now s))"
| "task_effect ort getter now (Get_session n v) (Some s) = (Inr (session_json s), Some s)"
| "task_effect ort getter now (Destroy_session n v) (Some s) = (Inr (JBool True), None)"
| "task_effect ort getter now t so = (Inl session_not_found, so)"

definition om_set :: "'k::linorder \<Rightarrow> 'v option \<Rightarrow> ('k \<times> 'v) list \<Rightarrow> ('k \<times> 'v) list" where
  "om_set k vo m = (case vo of Some v \<Rightarrow> om_put k v m | None \<Rightarrow> om_del k m)"

lemma om_set_same: "om_inv m \<Longrightarrow> om_set k (map_of m k) m = m"
  by (cases "map_of m k") (auto simp: om_set_def om_laws)

lemma map_of_om_set: "map_of (om_set k vo m) = (map_of m)(k := vo)"
  by (auto simp: om_set_def split: option.split)

lemma om_set_commute:
  "om_inv m \<Longrightarrow> k \<noteq> l \<Longrightarrow> om_set k v (om_set l w m) = om_set l w (om_set k v m)"
proof (cases v; cases w)
  fix a b
  assume "om_inv m" "k \<noteq> l" "v = Some a" "w = Some b"
  then show ?thesis by (simp add: om_set_def om.put_commute)
next
  fix a
  assume "om_inv m" "k \<noteq> l" "v = Some a" "w = None"
  then show ?thesis using om.del_put_other[of m l k a] by (simp add: om_set_def)
next
  fix b
  assume "om_inv m" "k \<noteq> l" "v = None" "w = Some b"
  then show ?thesis using om.del_put_other[of m k l b] by (simp add: om_set_def)
next
  assume "om_inv m" "k \<noteq> l" "v = None" "w = None"
  then show ?thesis by (simp add: om_set_def om.del_commute)
qed

lemma create_session_eq:
  assumes "key_valid (Session_key n v)"
  shows "create_session ort getter now n v option d ss =
    (if map_of ss (Session_key n v) \<noteq> None
     then Inl (Orts_exception conflict_error ''session already exists'')
     else andThen (new_session ort getter now n v option d) (\<lambda>s. Inr (s, om_put (Session_key n v) s ss)))"
  using assms
  by (simp add: create_session_def make_session_key_valid key_valid_def find_session_def
      new_session_def andThen_assoc)

lemma run_task_effect:
  assumes "manager_ok ss" and "task_names t = Some (n, v)" and "key_valid (Session_key n v)"
  shows "run_task ort getter now t ss =
    (fst (task_effect ort getter now t (map_of ss (Session_key n v))),
     om_set (Session_key n v) (snd (task_effect ort getter now t (map_of ss (Session_key n v)))) ss)"
proof -
  let ?k = "Session_key n v"
  have inv: "om_inv ss" using assms(1) by (simp add: manager_ok_def)
  have key: "make_session_key n v = Inr ?k"
    using assms(3) by (simp add: make_session_key_valid key_valid_def)
  have same: "om_set ?k (map_of ss ?k) ss = ss" by (rule om_set_same[OF inv])
  show ?thesis
  proof (cases t)
    case (Create_session n' v' option d)
    then show ?thesis
      using assms(2) same create_session_eq[OF assms(3), of ort getter now option d ss]
      by (cases "map_of ss ?k"; cases "new_session ort getter now n v option d")
        (auto simp: om_set_def)
  next
    case (Execute_session n' v' data)
    then show ?thesis
      using assms(2) same key manager_ok_lookup[OF assms(1), of ?k]
      by (cases "map_of ss ?k") (auto simp: get_session_def find_session_def om_set_def)
  next
    case (Get_session n' v')
    then show ?thesis
      using assms(2) same key
      by (cases "map_of ss ?k") (auto simp: get_session_def find_session_def)
  next
    case (Destroy_session n' v')
    then show ?thesis
      using assms(2) same key
      by (cases "map_of ss ?k") (auto simp: remove_session_def find_session_def om_set_def session_not_found_def)
  qed (use assms(2) in simp)
qed

lemma run_task_invalid:
  assumes "task_names t = Some (n, v)" and "\<not> key_valid (Session_key n v)"
  shows "\<exists>m. run_task ort getter now t ss = (Inl (Orts_exception runtime_error m), ss)"
proof -
  obtain m where "make_session_key n v = Inl (Orts_exception runtime_error m)"
    using assms(2) make_session_key_Inl[of n v] make_session_key_valid[of n v]
    by (cases "make_session_key n v") (auto simp: key_valid_def make_session_key_def split: if_splits)
  then show ?thesis
    using assms(1)
    by (cases t) (auto simp: create_session_def get_session_def remove_session_def)
qed

lemma task_effect_key:
  assumes "task_effect ort getter now t so = (r, Some s)" and "task_names t = Some (n, v)"
    and "\<And>s'. so = Some s' \<Longrightarrow> ses_key s' = Session_key n v"
  shows "ses_key s = Session_key n v"
  using assms
  by (cases t; cases so)
    (auto simp: new_session_def andThen_eq_Inr dest!: make_session_key_of split: sum.splits)

lemma run_task_ok: "manager_ok ss \<Longrightarrow> manager_ok (snd (run_task ort getter now t ss))"
proof (cases "task_names t")
  case None
  assume "manager_ok ss"
  then show ?thesis using None by (cases t) auto
next
  case (Some nv)
  assume ss: "manager_ok ss"
  obtain n v where nv: "task_names t = Some (n, v)" using Some by (cases nv) auto
  show ?thesis
  proof (cases "key_valid (Session_key n v)")
    case True
    let ?e = "task_effect ort getter now t (map_of ss (Session_key n v))"
    have "manager_ok (om_set (Session_key n v) (snd ?e) ss)"
    proof (cases "snd ?e")
      case (Some s)
      then have "?e = (fst ?e, Some s)" by (cases ?e) simp
      from task_effect_key[OF this nv] manager_ok_lookup[OF ss] True ss Some show ?thesis
        by (auto simp: om_set_def intro: manager_ok_put)
    qed (simp add: om_set_def manager_ok_del ss)
    then show ?thesis using run_task_effect[OF ss nv True, of ort getter now] by simp
  next
    case False
    then show ?thesis using run_task_invalid[OF nv False, of ort getter now ss] ss by auto
  qed
qed

lemma run_task_other:
  assumes "manager_ok ss" and "task_names t = Some (n, v)" and "k \<noteq> Session_key n v"
  shows "map_of (snd (run_task ort getter now t ss)) k = map_of ss k"
proof (cases "key_valid (Session_key n v)")
  case True
  then show ?thesis using run_task_effect[OF assms(1,2) True, of ort getter now] assms(3)
    by (simp add: map_of_om_set)
next
  case False
  then show ?thesis using run_task_invalid[OF assms(2) False, of ort getter now ss] by auto
qed

lemma run_task_result:
  assumes "manager_ok ss" "manager_ok ss'" and "task_names t = Some (n, v)"
    and "map_of ss (Session_key n v) = map_of ss' (Session_key n v)"
  shows "fst (run_task ort getter now t ss) = fst (run_task ort getter now t ss')"
proof (cases "key_valid (Session_key n v)")
  case True
  then show ?thesis
    using run_task_effect[OF assms(1,3) True, of ort getter now]
      run_task_effect[OF assms(2,3) True, of ort getter now] assms(4) by simp
next
  case False
  obtain m where "make_session_key n v = Inl m"
    using False make_session_key_Inr by (cases "make_session_key n v") auto
  then show ?thesis
    using assms(3) by (cases t) (auto simp: create_session_def get_session_def remove_session_def)
qed

section \<open>A concrete registry, for the witnesses\<close>

definition demo_getter :: model_bin_getter where
  "demo_getter n v = Inr ''bin''"

definition demo_registry :: "string sessions" where
  "demo_registry = [(Session_key ''m'' ''1'', demo_session)]"

lemma demo_registry_ok: "manager_ok demo_registry" "key_valid (Session_key ''m'' ''1'')"
  by code_simp+

lemma demo_create:
  "run_task demo_ort demo_getter 5 (Create_session ''m'' ''1'' (JObject []) None) [] =
   (Inr (session_json demo_session), demo_registry)"
  by code_simp

section \<open>Properties\<close>

text \<open>
  C12. Whatever tasks are run in whatever order, starting from the empty registry, every
  session is registered under its own valid key, and the keys are strictly ordered.
\<close>

theorem registry_invariant:
  "manager_ok (foldl (\<lambda>ss (now, t). snd (run_task ort getter now t ss)) [] ts)"
proof -
  have "manager_ok ss \<Longrightarrow> manager_ok (foldl (\<lambda>ss (now, t). snd (run_task ort getter now t ss)) ss ts)" for ss
    by (induction ts arbitrary: ss) (auto simp: run_task_ok split: prod.split)
  then show ?thesis by simp
qed

text \<open>
  C1. Refinement: the registry implements a partial map from keys to sessions on which a task
  with a valid key replaces the session of that key, and no other, by what the per-key
  transition \<^const>\<open>task_effect\<close> says, and returns the result it says.
\<close>

theorem registry_refines:
  assumes "manager_ok ss" and "task_names t = Some (n, v)" and "key_valid (Session_key n v)"
    and "task_effect ort getter now t (map_of ss (Session_key n v)) = (r, s)"
  shows "fst (run_task ort getter now t ss) = r \<and>
    map_of (snd (run_task ort getter now t ss)) = (map_of ss)(Session_key n v := s)"
  using run_task_effect[OF assms(1-3), of ort getter now] assms(4) by (simp add: map_of_om_set)

theorem registry_refines_witness:
  "fst (run_task demo_ort demo_getter 7 (Get_session ''m'' ''1'') demo_registry) =
     Inr (session_json demo_session)"
proof -
  have "task_effect demo_ort demo_getter 7 (Get_session ''m'' ''1'')
      (map_of demo_registry (Session_key ''m'' ''1'')) = (Inr (session_json demo_session), Some demo_session)"
    by (simp add: demo_registry_def)
  from registry_refines[OF demo_registry_ok(1) _ demo_registry_ok(2) this] show ?thesis by simp
qed

text \<open>
  C31. The life of a session: after a successful creation it can be read with the same JSON, a
  second creation is a conflict and changes nothing, and removing it restores the registry
  as it was, where reading, running or removing it is the not-found error.
\<close>

theorem session_lifecycle:
  assumes "manager_ok ss"
    and "run_task ort getter now (Create_session n v option d) ss = (Inr j, ss1)"
  shows "run_task ort getter now1 (Get_session n v) ss1 = (Inr j, ss1) \<and>
    run_task ort getter now1 (Create_session n v option1 d1) ss1 =
      (Inl (Orts_exception conflict_error ''session already exists''), ss1) \<and>
    run_task ort getter now1 (Destroy_session n v) ss1 = (Inr (JBool True), ss) \<and>
    run_task ort getter now1 (Get_session n v) ss = (Inl session_not_found, ss) \<and>
    run_task ort getter now1 (Execute_session n v data) ss = (Inl session_not_found, ss) \<and>
    run_task ort getter now1 (Destroy_session n v) ss = (Inl session_not_found, ss)"
proof -
  let ?k = "Session_key n v"
  have inv: "om_inv ss" using assms(1) by (simp add: manager_ok_def)
  have k: "key_valid ?k"
    using run_task_invalid[of "Create_session n v option d" n v ort getter now ss] assms(2) by fastforce
  obtain s where none: "map_of ss ?k = None" and j: "j = session_json s"
    and ss1: "ss1 = om_put ?k s ss"
    using assms(2) create_session_eq[OF k, of ort getter now option d ss]
    by (cases "new_session ort getter now n v option d") (auto split: if_splits)
  have ok1: "manager_ok ss1" using run_task_ok[OF assms(1), of ort getter now] assms(2)
    by (metis snd_conv)
  note ef = run_task_effect[OF ok1[unfolded ss1] _ k, of _ ort getter now1] run_task_effect[OF assms(1) _ k, of _ ort getter now1]
  show ?thesis
    using inv none j ss1 by (simp add: ef om_set_def om_laws del: run_task.simps)
qed

theorem session_lifecycle_witness:
  "run_task demo_ort demo_getter 7 (Get_session ''m'' ''1'') demo_registry =
     (Inr (session_json demo_session), demo_registry) \<and>
   run_task demo_ort demo_getter 7 (Destroy_session ''m'' ''1'') demo_registry = (Inr (JBool True), [])"
  using session_lifecycle[OF manager_ok_Nil demo_create] by blast

text \<open>
  C32. A task that fails leaves the registry as it was, with one exception: an inference counts
  and stamps its session before it looks at the request.
\<close>

theorem failed_task:
  assumes "manager_ok ss" and "fst (run_task ort getter now t ss) = Inl e"
  shows "snd (run_task ort getter now t ss) = ss \<or>
    (\<exists>n v data s. t = Execute_session n v data \<and> map_of ss (Session_key n v) = Some s \<and>
       snd (run_task ort getter now t ss) = om_put (Session_key n v) (touch now s) ss)"
  using assms manager_ok_lookup[OF assms(1)]
  by (cases t) (auto simp: get_session_def find_session_def andThen_eq_Inr make_session_key_Inr
      split: sum.splits option.splits)

theorem failed_task_witness:
  "snd (run_task demo_ort demo_getter 7 (Destroy_session ''m'' ''2'') demo_registry) = demo_registry"
proof -
  have "fst (run_task demo_ort demo_getter 7 (Destroy_session ''m'' ''2'') demo_registry) =
      Inl session_not_found" by code_simp
  from failed_task[OF demo_registry_ok(1) this] show ?thesis by simp
qed

text \<open>
  C18. Tasks on different sessions are independent: run in either order they end with the same
  registry and the same results.
\<close>

theorem tasks_commute:
  assumes "manager_ok ss" and "task_names t = Some (n, v)" and "task_names u = Some (m, w)"
    and "(n, v) \<noteq> (m, w)"
  shows "snd (run_task ort getter now' u (snd (run_task ort getter now t ss))) =
      snd (run_task ort getter now t (snd (run_task ort getter now' u ss))) \<and>
    fst (run_task ort getter now' u (snd (run_task ort getter now t ss))) =
      fst (run_task ort getter now' u ss) \<and>
    fst (run_task ort getter now t (snd (run_task ort getter now' u ss))) =
      fst (run_task ort getter now t ss)"
proof -
  let ?k = "Session_key n v" and ?l = "Session_key m w"
  let ?t = "\<lambda>ss. run_task ort getter now t ss" and ?u = "\<lambda>ss. run_task ort getter now' u ss"
  have kl: "?k \<noteq> ?l" using assms(4) by simp
  have inv: "om_inv ss" using assms(1) by (simp add: manager_ok_def)
  note okt = run_task_ok[OF assms(1), of ort getter now t]
    and oku = run_task_ok[OF assms(1), of ort getter now' u]
  have mt: "map_of (snd (?t ss)) ?l = map_of ss ?l"
    and mu: "map_of (snd (?u ss)) ?k = map_of ss ?k"
    using run_task_other[OF assms(1,2), of ?l ort getter now]
      run_task_other[OF assms(1,3), of ?k ort getter now'] kl by auto
  have "snd (?u (snd (?t ss))) = snd (?t (snd (?u ss)))"
  proof (cases "key_valid ?k \<and> key_valid ?l")
    case True
    then show ?thesis
      using run_task_effect[OF assms(1,2), of ort getter now]
        run_task_effect[OF assms(1,3), of ort getter now']
        run_task_effect[OF okt assms(3), of ort getter now']
        run_task_effect[OF oku assms(2), of ort getter now] mt mu
        om_set_commute[OF inv kl] by simp
  next
    case False
    then show ?thesis
      using run_task_invalid[OF assms(2), of ort getter now]
        run_task_invalid[OF assms(3), of ort getter now'] by (metis snd_conv)
  qed
  then show ?thesis
    using run_task_result[OF okt assms(1,3) mt, of ort getter now']
      run_task_result[OF oku assms(1,2) mu, of ort getter now] by simp
qed

theorem tasks_commute_witness:
  "fst (run_task demo_ort demo_getter 7 (Get_session ''m'' ''1'')
     (snd (run_task demo_ort demo_getter 6 (Destroy_session ''n'' ''1'') demo_registry))) =
   fst (run_task demo_ort demo_getter 7 (Get_session ''m'' ''1'') demo_registry)"
  using tasks_commute[OF demo_registry_ok(1), of "Destroy_session ''n'' ''1''" "''n''" "''1''"
      "Get_session ''m'' ''1''" "''m''" "''1''" demo_ort demo_getter 7 6] by simp

end
