(* ===== verification/Json_Roundtrip.thy ===== *)
theory Json_Roundtrip
  imports Json_Parser Json_Dump
begin

text \<open>
  What \<^verbatim>\<open>dump\<close> writes, \<^verbatim>\<open>parse\<close> reads back. The scanner is followed through the input that is
  before it (\<open>inp\<close>), forgetting positions and texts for messages; the parser is followed value by
  value. The texts of floats follow in \<^verbatim>\<open>Float_Text\<close>.
\<close>

section \<open>The input a scanner has before it\<close>

definition inp :: "lexer \<Rightarrow> string" where
  "inp s = (if next_unget s then (case current s of Some c \<Rightarrow> c # ia s | None \<Rightarrow> ia s) else ia s)"

text \<open>At the end of the input the character put back is none, and nothing is left.\<close>

definition sane :: "lexer \<Rightarrow> bool" where
  "sane s \<longleftrightarrow> (next_unget s \<and> current s = None \<longrightarrow> ia s = [])"

lemma get_char_Cons:
  assumes "inp s = c # r" and "sane s"
  shows "current (get_char s) = Some c" "inp (get_char s) = r" "sane (get_char s)"
    "cur (get_char s) = of_char c"
  using assms
  by (auto simp: inp_def sane_def get_char_sel cur_def split: if_splits option.splits list.splits)

lemma get_char_Nil:
  assumes "inp s = []" and "sane s"
  shows "current (get_char s) = None" "inp (get_char s) = []" "sane (get_char s)"
    "cur (get_char s) = -1"
  using assms
  by (auto simp: inp_def sane_def get_char_sel cur_def split: if_splits option.splits list.splits)

lemma inp_unget_get: "sane s \<Longrightarrow> inp (unget (get_char s)) = inp s \<and> sane (unget (get_char s))"
  by (auto simp: inp_def sane_def get_char_sel split: if_splits option.splits list.splits)

lemma inp_updates [simp]:
  "inp (reset s) = inp s" "inp (add c s) = inp s" "inp (add_current s) = inp s"
  "inp (s\<lparr>value_unsigned := i\<rparr>) = inp s" "inp (s\<lparr>value_integer := i\<rparr>) = inp s"
  "inp (s\<lparr>value_float := d\<rparr>) = inp s"
  "sane (reset s) = sane s" "sane (add c s) = sane s" "sane (add_current s) = sane s"
  "sane (s\<lparr>value_unsigned := i\<rparr>) = sane s" "sane (s\<lparr>value_integer := i\<rparr>) = sane s"
  "sane (s\<lparr>value_float := d\<rparr>) = sane s"
  by (simp_all add: inp_def sane_def reset_def add_def add_current_def split: option.split)

lemma token_buffer_updates [simp]:
  "token_buffer (reset s) = []" "token_buffer (add c s) = token_buffer s @ [c]"
  "token_buffer (get_char s) = token_buffer s"
  by (simp_all add: reset_def add_def get_char_sel)

lemma add_current_Some: "current s = Some c \<Longrightarrow> add_current s = add c s"
  by (simp add: add_current_def)

lemma init_lexer_inp [simp]: "inp (init_lexer t) = t" "sane (init_lexer t)"
  by (simp_all add: inp_def sane_def init_lexer_def)

section \<open>Finding the token\<close>

definition starts_token :: "char \<Rightarrow> bool" where
  "starts_token c \<longleftrightarrow> \<not> is_ws (of_char c) \<and> c \<noteq> CHR 0xEF"

lemma of_char_eq_int: "((of_char c :: int) = of_char d) = (c = d)"
  by simp

lemma skip_bom_Cons:
  assumes "inp s = c # r" and "sane s" and "c \<noteq> CHR 0xEF"
  shows "snd (skip_bom s) \<and> inp (fst (skip_bom s)) = c # r \<and> sane (fst (skip_bom s))"
proof -
  have "cur (get_char s) \<noteq> 0xEF"
    using get_char_Cons(4)[OF assms(1,2)] assms(3) of_char_eq_int[of c "CHR 0xEF"] by auto
  then show ?thesis using inp_unget_get[OF assms(2)] assms(1) by (simp add: skip_bom_def Let_def)
qed

lemma skip_bom_Nil:
  assumes "inp s = []" and "sane s"
  shows "snd (skip_bom s) \<and> inp (fst (skip_bom s)) = [] \<and> sane (fst (skip_bom s))"
  using inp_unget_get[OF assms(2)] assms(1) get_char_Nil(4)[OF assms] by (simp add: skip_bom_def Let_def)

lemma scan_Cons:
  assumes "inp s = c # r" and "sane s" and "starts_token c"
  obtains s0 where "scan s = scan_token s0" and "current s0 = Some c" and "inp s0 = r" and "sane s0"
    and "cur s0 = of_char c"
proof -
  define s1 where "s1 = (if chars_read_total s = 0 then fst (skip_bom s) else s)"
  have 1: "inp s1 = c # r" "sane s1"
    using assms skip_bom_Cons[OF assms(1,2)] by (auto simp: s1_def starts_token_def)
  have "skip_whitespace s1 = get_char s1"
    using get_char_Cons(4)[OF 1] assms(3)
    by (subst skip_whitespace.simps) (simp add: Let_def starts_token_def)
  moreover have "scan s = scan_token (skip_whitespace s1)"
    using skip_bom_Cons[OF assms(1,2)] assms(3)
    by (auto simp: scan_def s1_def starts_token_def split: prod.split)
  ultimately show ?thesis using that get_char_Cons[OF 1] by simp
qed

lemma scan_Nil:
  assumes "inp s = []" and "sane s"
  shows "snd (scan s) = T_end_of_input"
proof -
  define s1 where "s1 = (if chars_read_total s = 0 then fst (skip_bom s) else s)"
  have 1: "inp s1 = []" "sane s1"
    using assms skip_bom_Nil[OF assms] by (auto simp: s1_def)
  have "skip_whitespace s1 = get_char s1"
    using get_char_Nil(4)[OF 1] by (subst skip_whitespace.simps) (simp add: Let_def is_ws_def)
  moreover have "scan s = scan_token (skip_whitespace s1)"
    using skip_bom_Nil[OF assms] by (auto simp: scan_def s1_def split: prod.split)
  ultimately show ?thesis using get_char_Nil(4)[OF 1] scan_token_end by simp
qed

text \<open>\<open>reads s t tok P\<close>: scanning consumes the text \<open>t\<close> and leaves \<open>r\<close>, with token \<open>tok\<close>.\<close>

definition reads :: "lexer \<Rightarrow> token_type \<Rightarrow> string \<Rightarrow> bool" where
  "reads s tok r \<longleftrightarrow> snd (scan s) = tok \<and> inp (fst (scan s)) = r \<and> sane (fst (scan s))"

lemma scan_token_structural:
  "cur s = 0x5B \<Longrightarrow> scan_token s = (s, T_begin_array)"
  "cur s = 0x5D \<Longrightarrow> scan_token s = (s, T_end_array)"
  "cur s = 0x7B \<Longrightarrow> scan_token s = (s, T_begin_object)"
  "cur s = 0x7D \<Longrightarrow> scan_token s = (s, T_end_object)"
  "cur s = 0x3A \<Longrightarrow> scan_token s = (s, T_name_separator)"
  "cur s = 0x2C \<Longrightarrow> scan_token s = (s, T_value_separator)"
  by (simp_all add: scan_token_def)

lemma reads_single:
  assumes "inp s = c # r" and "sane s" and "starts_token c"
    and "\<And>s0. cur s0 = of_char c \<Longrightarrow> scan_token s0 = (s0, tok)"
  shows "reads s tok r"
proof -
  obtain s0 where "scan s = scan_token s0" "inp s0 = r" "sane s0" "cur s0 = of_char c"
    using scan_Cons[OF assms(1-3)] by blast
  then show ?thesis using assms(4)[of s0] by (simp add: reads_def)
qed

lemma reads_structural:
  assumes "inp s = c # r" and "sane s"
  shows "c = CHR ''['' \<Longrightarrow> reads s T_begin_array r" "c = CHR '']'' \<Longrightarrow> reads s T_end_array r"
    "c = CHR ''{'' \<Longrightarrow> reads s T_begin_object r" "c = CHR ''}'' \<Longrightarrow> reads s T_end_object r"
    "c = CHR '':'' \<Longrightarrow> reads s T_name_separator r" "c = CHR '','' \<Longrightarrow> reads s T_value_separator r"
  by (rule reads_single[OF assms]; simp add: starts_token_def is_ws_def scan_token_structural)+

lemma literal_rest:
  "inp s = cs @ r \<Longrightarrow> sane s \<Longrightarrow> \<exists>s'. scan_literal_rest cs t s = (s', t) \<and> inp s' = r \<and> sane s'"
proof (induction cs arbitrary: s)
  case (Cons c cs)
  from get_char_Cons[of s c "cs @ r"] Cons.prems
  have "current (get_char s) = Some c" "inp (get_char s) = cs @ r" "sane (get_char s)" by auto
  then show ?case using Cons.IH[of "get_char s"] by (simp add: Let_def)
qed simp

lemma reads_literal:
  assumes "sane s"
  shows "inp s = ''true'' @ r \<Longrightarrow> reads s T_literal_true r"
    "inp s = ''false'' @ r \<Longrightarrow> reads s T_literal_false r"
    "inp s = ''null'' @ r \<Longrightarrow> reads s T_literal_null r"
proof -
  have st: "starts_token c" if "c \<in> {CHR ''t'', CHR ''f'', CHR ''n''}" for c
    using that by (auto simp: starts_token_def is_ws_def)
  show "reads s T_literal_true r" if i: "inp s = ''true'' @ r"
  proof -
    obtain s0 where "scan s = scan_token s0" "inp s0 = ''rue'' @ r" "sane s0" "cur s0 = 0x74"
      using scan_Cons[OF _ assms st, of "CHR ''t''" "''rue'' @ r"] i by auto
    then show ?thesis
      using literal_rest[of s0 "''rue''" r T_literal_true]
      by (auto simp: reads_def scan_token_def scan_literal_def simp del: scan_literal_rest.simps)
  qed
  show "reads s T_literal_false r" if i: "inp s = ''false'' @ r"
  proof -
    obtain s0 where "scan s = scan_token s0" "inp s0 = ''alse'' @ r" "sane s0" "cur s0 = 0x66"
      using scan_Cons[OF _ assms st, of "CHR ''f''" "''alse'' @ r"] i by auto
    then show ?thesis
      using literal_rest[of s0 "''alse''" r T_literal_false]
      by (auto simp: reads_def scan_token_def scan_literal_def simp del: scan_literal_rest.simps)
  qed
  show "reads s T_literal_null r" if i: "inp s = ''null'' @ r"
  proof -
    obtain s0 where "scan s = scan_token s0" "inp s0 = ''ull'' @ r" "sane s0" "cur s0 = 0x6E"
      using scan_Cons[OF _ assms st, of "CHR ''n''" "''ull'' @ r"] i by auto
    then show ?thesis
      using literal_rest[of s0 "''ull''" r T_literal_null]
      by (auto simp: reads_def scan_token_def scan_literal_def simp del: scan_literal_rest.simps)
  qed
qed

section \<open>Numbers\<close>

definition ends_number :: "string \<Rightarrow> bool" where
  "ends_number r \<longleftrightarrow> (case r of [] \<Rightarrow> True
     | c # _ \<Rightarrow> \<not> is_digit c \<and> c \<noteq> CHR ''.'' \<and> c \<noteq> CHR ''e'' \<and> c \<noteq> CHR ''E'')"

lemma of_char_int_nat: "(of_char c :: int) = int (of_char c)"
  by (rule of_nat_of_char[symmetric])

lemma cur_digit_char: "cur s = of_char c \<Longrightarrow> cur_digit s = is_digit c"
  by (auto simp: cur_digit_def is_digit_def Let_def of_char_int_nat simp del: of_nat_of_char)

lemma ends_number_get:
  assumes "ends_number r" and "inp s = r" and "sane s"
  shows "\<not> cur_digit (get_char s) \<and> cur (get_char s) \<noteq> 0x2E \<and> cur (get_char s) \<noteq> 0x65 \<and>
    cur (get_char s) \<noteq> 0x45"
proof (cases r)
  case Nil
  then show ?thesis using get_char_Nil(4)[of s] assms by (simp add: cur_digit_def)
next
  case (Cons c r')
  have "cur (get_char s) = of_char c" using get_char_Cons(4)[of s c r'] assms Cons by simp
  then show ?thesis
    using assms(1) Cons cur_digit_char of_char_eq_int[of c "CHR ''.''"]
      of_char_eq_int[of c "CHR ''e''"] of_char_eq_int[of c "CHR ''E''"]
    by (auto simp: ends_number_def)
qed

lemma any1_digits:
  "\<forall>c \<in> set ds. is_digit c \<Longrightarrow> inp s = ds @ r \<Longrightarrow> sane s \<Longrightarrow> ends_number r \<Longrightarrow>
   \<exists>s'. scan_number_any1 nt s = scan_number_done nt (get_char s') \<and> inp s' = r \<and> sane s' \<and>
     token_buffer s' = token_buffer s @ ds"
proof (induction ds arbitrary: s)
  case Nil
  from ends_number_get[OF Nil(4), of s] Nil show ?case
    by (subst scan_number_any1.simps) (auto simp: Let_def)
next
  case (Cons d ds)
  from get_char_Cons[of s d "ds @ r"] Cons.prems
  have g: "current (get_char s) = Some d" "inp (get_char s) = ds @ r" "sane (get_char s)"
    "cur (get_char s) = of_char d" by auto
  have d: "cur_digit (get_char s)" using cur_digit_char[OF g(4)] Cons.prems(1) by simp
  obtain s' where "scan_number_any1 nt (add d (get_char s)) = scan_number_done nt (get_char s')"
    "inp s' = r" "sane s'" "token_buffer s' = token_buffer s @ d # ds"
    using Cons.IH[of "add d (get_char s)"] Cons.prems g by auto
  then show ?case
    using d g by (subst scan_number_any1.simps) (auto simp: Let_def add_current_Some)
qed

text \<open>The digits of a natural number: no leading zero, and their value is the number.\<close>

definition number_text :: "string \<Rightarrow> bool" where
  "number_text ds \<longleftrightarrow> ds \<noteq> [] \<and> (\<forall>c \<in> set ds. is_digit c) \<and> (hd ds = CHR ''0'' \<longrightarrow> ds = ''0'')"

lemma foldl_digits:
  "foldl (\<lambda>a c. 10 * a + digit_value c) x b = x * 10 ^ length b + foldl (\<lambda>a c. 10 * a + digit_value c) 0 b"
proof (induction b arbitrary: x)
  case (Cons c b)
  show ?case
    using Cons.IH[of "10 * x + digit_value c"] Cons.IH[of "digit_value c"]
    by (simp add: distrib_right)
qed simp

lemma digits_value_append: "digits_value (a @ b) = digits_value a * 10 ^ length b + digits_value b"
  unfolding digits_value_def foldl_append by (rule foldl_digits)

lemma digit_char_props:
  "d < 10 \<Longrightarrow> is_digit (digit_char d)" "d < 10 \<Longrightarrow> digit_value (digit_char d) = int d"
  "d < 10 \<Longrightarrow> (digit_char d = CHR ''0'') = (d = 0)"
proof -
  assume d: "d < 10"
  then have "(of_char (digit_char d) :: nat) = 48 + d" by (simp add: digit_char_def)
  then show "is_digit (digit_char d)" "digit_value (digit_char d) = int d"
    using d by (auto simp: is_digit_def digit_value_def Let_def of_char_int_nat simp del: of_nat_of_char)
  have "(digit_char d = CHR ''0'') = ((of_char (digit_char d) :: nat) = of_char (CHR ''0''))"
    by (simp only: of_char_eq_iff)
  then show "(digit_char d = CHR ''0'') = (d = 0)"
    using \<open>(of_char (digit_char d) :: nat) = 48 + d\<close> by simp
qed

lemma digits_to_99_props:
  "i < 100 \<Longrightarrow> \<forall>c \<in> set (digits_to_99 i). is_digit c"
  "i < 100 \<Longrightarrow> digits_value (digits_to_99 i) = int i" "length (digits_to_99 i) = 2"
  by (auto simp: digits_to_99_def digits_value_def digit_char_props of_nat_div of_nat_mod)

lemma write_digits_props:
  "0 < x \<Longrightarrow> (\<forall>c \<in> set (write_digits x). is_digit c) \<and> digits_value (write_digits x) = int x \<and>
   write_digits x \<noteq> [] \<and> hd (write_digits x) \<noteq> CHR ''0''"
proof (induction x rule: write_digits.induct)
  case (1 x)
  show ?case
  proof (cases "x \<ge> 100")
    case True
    then have "write_digits x = write_digits (x div 100) @ digits_to_99 (x mod 100)"
      by (simp add: write_digits.simps[of x])
    then show ?thesis
      using 1 True digits_to_99_props[of "x mod 100"]
      by (auto simp: digits_value_append of_nat_div of_nat_mod)
  next
    case False
    then show ?thesis
      using "1.prems" by (subst (1 2 3 4) write_digits.simps)
        (auto simp: digits_to_99_props digit_char_props digits_value_def digits_to_99_def of_nat_div of_nat_mod)
  qed
qed

lemma dump_integer_nonneg:
  "0 \<le> i \<Longrightarrow> number_text (dump_integer i) \<and> digits_value (dump_integer i) = i"
  using write_digits_props[of "nat i"]
  by (auto simp: dump_integer_def number_text_def is_digit_def digits_value_def digit_value_def)

lemma dump_integer_neg:
  "i < 0 \<Longrightarrow> \<exists>ds. dump_integer i = CHR ''-'' # ds \<and> number_text ds \<and> digits_value ds = - i"
  using write_digits_props[of "nat (- i)"] by (auto simp: dump_integer_def number_text_def)

lemma number_done_sel:
  assumes "sane s"
  shows "inp (fst (scan_number_done nt (get_char s))) = inp s" "sane (fst (scan_number_done nt (get_char s)))"
  using inp_unget_get[OF assms] by (auto simp: scan_number_done_def Let_def)

lemma zero_rest:
  assumes "inp s = r" and "sane s" and "ends_number r"
  shows "scan_number_zero nt s = scan_number_done nt (get_char s)"
  using ends_number_get[OF assms(3,1,2)] by (simp add: scan_number_zero_def Let_def)

text \<open>After the first digit of a number text has been read.\<close>

lemma number_tail:
  assumes "number_text (d # ds)" and "inp s = ds @ r" and "sane s" and "ends_number r"
  shows "\<exists>s'. (if d = CHR ''0'' then scan_number_zero nt s else scan_number_any1 nt s) =
      scan_number_done nt (get_char s') \<and> inp s' = r \<and> sane s' \<and>
      token_buffer s' = token_buffer s @ ds"
proof (cases "d = CHR ''0''")
  case True
  then have "ds = []" using assms(1) by (simp add: number_text_def)
  then show ?thesis using True zero_rest[of s r nt] assms by auto
next
  case False
  then show ?thesis using any1_digits[of ds s r nt] assms by (auto simp: number_text_def)
qed

lemma digit_starts: "is_digit c \<Longrightarrow> starts_token c"
  by (auto simp: starts_token_def is_digit_def is_ws_def Let_def of_char_int_nat simp del: of_nat_of_char)

lemma cur_zero: "cur s = of_char c \<Longrightarrow> (cur s = 0x30) = (c = CHR ''0'')"
  using of_char_eq_int[of c "CHR ''0''"] by simp

lemma reads_unsigned:
  assumes "number_text ds" and "inp s = ds @ r" and "sane s" and "ends_number r"
    and "in_unsigned 64 (digits_value ds)"
  shows "reads s T_value_unsigned r \<and> value_unsigned (fst (scan s)) = digits_value ds"
proof -
  obtain d ds' where ds: "ds = d # ds'" and dig: "is_digit d"
    using assms(1) by (cases ds) (auto simp: number_text_def)
  obtain s0 where s0: "scan s = scan_token s0" "current s0 = Some d" "inp s0 = ds' @ r" "sane s0"
      "cur s0 = of_char d"
    using scan_Cons[of s d "ds' @ r"] assms ds digit_starts[OF dig] by auto
  have c: "cur_digit s0" using cur_digit_char[OF s0(5)] dig by simp
  then have n: "scan_token s0 = scan_number s0"
    by (auto simp: scan_token_def cur_digit_def)
  have r: "current (reset s0) = Some d" using s0(2) by (simp add: reset_def)
  have "scan_number s0 = (if d = CHR ''0'' then scan_number_zero T_value_unsigned (add d (reset s0))
      else scan_number_any1 T_value_unsigned (add d (reset s0)))"
    using c cur_zero[OF s0(5)] by (auto simp: scan_number_def Let_def add_current_Some[OF r] cur_digit_def)
  then obtain s' where s': "scan_number s0 = scan_number_done T_value_unsigned (get_char s')"
    "inp s' = r" "sane s'" "token_buffer s' = ds"
    using number_tail[of d ds' "add d (reset s0)" r T_value_unsigned] assms s0 ds by auto
  then show ?thesis
    using s0(1) n number_done_sel[OF s'(3), of T_value_unsigned] assms(5)
    by (simp add: reads_def) (simp add: scan_number_done_def Let_def)
qed

lemma reads_negative:
  assumes "number_text ds" and "inp s = CHR ''-'' # ds @ r" and "sane s" and "ends_number r"
    and "in_signed 64 (- digits_value ds)"
  shows "reads s T_value_integer r \<and> value_integer (fst (scan s)) = - digits_value ds"
proof -
  obtain d ds' where ds: "ds = d # ds'" and dig: "is_digit d"
    using assms(1) by (cases ds) (auto simp: number_text_def)
  obtain s0 where s0: "scan s = scan_token s0" "current s0 = Some (CHR ''-'')" "inp s0 = ds @ r" "sane s0"
      "cur s0 = 0x2D"
    using scan_Cons[of s "CHR ''-''" "ds @ r"] assms by (auto simp: starts_token_def is_ws_def)
  have n: "scan_token s0 = scan_number s0"
    using s0(5) by (auto simp: scan_token_def)
  have r: "current (reset s0) = Some (CHR ''-'')" using s0(2) by (simp add: reset_def)
  let ?s = "add (CHR ''-'') (reset s0)"
  have g: "current (get_char ?s) = Some d" "inp (get_char ?s) = ds' @ r" "sane (get_char ?s)"
      "cur (get_char ?s) = of_char d"
    using get_char_Cons[of ?s d "ds' @ r"] s0 ds by auto
  have "scan_number s0 = scan_number_minus ?s"
    using s0(5) by (simp add: scan_number_def Let_def add_current_Some[OF r])
  also have "\<dots> = (if d = CHR ''0'' then scan_number_zero T_value_integer (add d (get_char ?s))
      else scan_number_any1 T_value_integer (add d (get_char ?s)))"
    using cur_digit_char[OF g(4)] dig cur_zero[OF g(4)]
    by (auto simp: scan_number_minus_def Let_def add_current_Some[OF g(1)])
  finally obtain s' where s': "scan_number s0 = scan_number_done T_value_integer (get_char s')"
    "inp s' = r" "sane s'" "token_buffer s' = CHR ''-'' # ds"
    using number_tail[of d ds' "add d (get_char ?s)" r T_value_integer] assms g ds by auto
  then show ?thesis
    using s0(1) n number_done_sel[OF s'(3), of T_value_integer] assms(5)
    by (simp add: reads_def) (simp add: scan_number_done_def Let_def)
qed

section \<open>Strings\<close>

text \<open>The bytes that must follow in each state of the decoder; what the code point is at least.\<close>

definition follow :: "nat \<Rightarrow> (int \<times> int) list" where
  "follow st = [[], [], [(0x80, 0xBF)], [(0x80, 0xBF), (0x80, 0xBF)], [(0xA0, 0xBF), (0x80, 0xBF)],
     [(0x80, 0x9F), (0x80, 0xBF)], [(0x90, 0xBF), (0x80, 0xBF), (0x80, 0xBF)],
     [(0x80, 0xBF), (0x80, 0xBF), (0x80, 0xBF)], [(0x80, 0x8F), (0x80, 0xBF), (0x80, 0xBF)]] ! st"

definition least_codepoint :: "nat \<Rightarrow> nat" where
  "least_codepoint st = [0, 0, 2, 1, 0, 1, 0, 1, 1] ! st"

definition in_ranges :: "(int \<times> int) list \<Rightarrow> string \<Rightarrow> bool" where
  "in_ranges rs bs \<longleftrightarrow> list_all2 (\<lambda>(lo, hi) c. lo \<le> of_char c \<and> of_char c \<le> hi) rs bs"

lemma nat_2_8: "2 \<le> (n::nat) \<Longrightarrow> n \<le> 8 \<Longrightarrow> n = 2 \<or> n = 3 \<or> n = 4 \<or> n = 5 \<or> n = 6 \<or> n = 7 \<or> n = 8"
  by auto

lemma of_char_256 [simp]: "(of_char (c::char) :: nat) < 256"
  using of_char_mod_256[of c, where ?'a = nat] by (metis mod_less_divisor zero_less_numeral)

lemma continuation_types:
  "list_all (\<lambda>st. list_all (\<lambda>t. t = 1 \<or> t = 7 \<or> t = 9 \<or> utf8_transitions ! st ! t = 1) [0..<12]) [2..<9]"
  by code_simp

lemma utf8_type_less: "utf8_type b < 12"
  by (simp add: utf8_type_def)

lemma continuation_byte:
  assumes "2 \<le> st" "st \<le> 8" "decode_state st b \<noteq> 1"
  shows "0x80 \<le> b \<and> b \<le> 0x8F \<and> utf8_type b = 1 \<or> 0x90 \<le> b \<and> b \<le> 0x9F \<and> utf8_type b = 9 \<or>
    0xA0 \<le> b \<and> b \<le> 0xBF \<and> utf8_type b = 7"
proof -
  have "utf8_type b = 1 \<or> utf8_type b = 7 \<or> utf8_type b = 9"
    using nat_2_8[OF assms(1,2)] continuation_types assms(3) utf8_type_less[of b]
    by (elim disjE) (auto simp: list_all_iff decode_state_def)
  then show ?thesis by (auto simp: utf8_type_def split: if_splits)
qed

text \<open>One byte inside a sequence: it is in the first range, and the next state expects the rest.\<close>

lemma decode_step:
  assumes "2 \<le> st" "st \<le> 8" "decode_state st b \<noteq> 1" "least_codepoint st \<le> cp"
  shows "\<exists>lo hi rs. follow st = (lo, hi) # rs \<and> lo \<le> int b \<and> int b \<le> hi \<and>
    (if st = 2 then decode_state st b = 0 \<and> rs = [] \<and> 0x80 \<le> decode_codepoint st cp b
     else 2 \<le> decode_state st b \<and> decode_state st b < st \<and> rs = follow (decode_state st b) \<and>
       least_codepoint (decode_state st b) \<le> decode_codepoint st cp b)"
proof -
  have m: "0x80 \<le> b \<Longrightarrow> b \<le> 0xBF \<Longrightarrow> b mod 64 = b - 0x80"
    by (simp add: mod_if)
  from continuation_byte[OF assms(1-3)] nat_2_8[OF assms(1,2)] assms(3,4) show ?thesis
    by (elim disjE conjE; simp add: decode_state_def utf8_transitions_def follow_def
        least_codepoint_def decode_codepoint_def m)
qed

lemma escape_char_wide: "0x80 \<le> cp \<Longrightarrow> escape_char cp c = [c]"
  by (simp add: escape_char_def)

lemma of_char_int_of_nat: "int (of_char c) = (of_char c :: int)"
  by (rule of_nat_of_char)

lemma dump_continuation:
  "dump_escaped_loop i st cp out s = Inr (0, out') \<Longrightarrow> 2 \<le> st \<Longrightarrow> st \<le> 8 \<Longrightarrow> least_codepoint st \<le> cp \<Longrightarrow>
   \<exists>bs s' i' cp'. s = bs @ s' \<and> in_ranges (follow st) bs \<and>
     dump_escaped_loop i' 0 cp' (out @ bs) s' = Inr (0, out')"
proof (induction s arbitrary: i st cp out)
  case (Cons c s)
  let ?st = "decode_state st (of_char c)" and ?cp = "decode_codepoint st cp (of_char c)"
  have n1: "?st \<noteq> 1" using Cons.prems(1) by (auto simp: Let_def)
  obtain lo hi rs where f: "follow st = (lo, hi) # rs" "lo \<le> of_char c" "of_char c \<le> hi"
    and nxt: "if st = 2 then ?st = 0 \<and> rs = [] \<and> 0x80 \<le> ?cp
      else 2 \<le> ?st \<and> ?st < st \<and> rs = follow ?st \<and> least_codepoint ?st \<le> ?cp"
    using decode_step[OF Cons.prems(2,3) n1 Cons.prems(4)] of_char_int_of_nat[of c] by auto
  show ?case
  proof (cases "st = 2")
    case True
    then have "dump_escaped_loop (Suc i) 0 ?cp (out @ [c]) s = Inr (0, out')"
      using Cons.prems(1) nxt escape_char_wide[of ?cp c] by (simp add: Let_def)
    then show ?thesis using f nxt True
      by (intro exI[of _ "[c]"] exI[of _ s] exI[of _ "Suc i"] exI[of _ ?cp]) (simp add: in_ranges_def)
  next
    case False
    then have "dump_escaped_loop (Suc i) ?st ?cp (out @ [c]) s = Inr (0, out')"
      using Cons.prems(1) nxt n1 by (simp add: Let_def)
    from Cons.IH[OF this] nxt False Cons.prems(3) obtain bs s' i' cp' where
      "s = bs @ s'" "in_ranges (follow ?st) bs"
      "dump_escaped_loop i' 0 cp' (out @ c # bs) s' = Inr (0, out')" by auto
    then show ?thesis using f nxt False
      by (intro exI[of _ "c # bs"] exI[of _ s'] exI[of _ i'] exI[of _ cp']) (simp add: in_ranges_def)
  qed
qed simp

lemma lead_types:
  "list_all (\<lambda>t. utf8_transitions ! 0 ! t = 1 \<or> t = 0 \<or> t \<in> {2, 3, 4, 5, 6, 10, 11}) [0..<12]"
  by code_simp

definition wide_step :: "nat \<Rightarrow> lexer \<Rightarrow> lexer \<times> token_type option" where
  "wide_step st L = (case next_byte_in_range (follow st) (get_char L) of
       (s, ok) \<Rightarrow> (s, if ok then None else Some T_parse_error))"

lemma follow_simps:
  "follow 2 = [(0x80, 0xBF)]" "follow 3 = [(0x80, 0xBF), (0x80, 0xBF)]" "follow 4 = [(0xA0, 0xBF), (0x80, 0xBF)]"
  "follow 5 = [(0x80, 0x9F), (0x80, 0xBF)]" "follow 6 = [(0x90, 0xBF), (0x80, 0xBF), (0x80, 0xBF)]"
  "follow 7 = [(0x80, 0xBF), (0x80, 0xBF), (0x80, 0xBF)]" "follow 8 = [(0x80, 0x8F), (0x80, 0xBF), (0x80, 0xBF)]"
  by (simp_all add: follow_def)

lemma scan_wide:
  "0xC2 \<le> cur (get_char L) \<Longrightarrow> cur (get_char L) < 0xE0 \<Longrightarrow> scan_string_step L = wide_step 2 L"
  "cur (get_char L) = 0xE0 \<Longrightarrow> scan_string_step L = wide_step 4 L"
  "cur (get_char L) = 0xED \<Longrightarrow> scan_string_step L = wide_step 5 L"
  "cur (get_char L) = 0xF0 \<Longrightarrow> scan_string_step L = wide_step 6 L"
  "0xF0 < cur (get_char L) \<Longrightarrow> cur (get_char L) < 0xF4 \<Longrightarrow> scan_string_step L = wide_step 7 L"
  "cur (get_char L) = 0xF4 \<Longrightarrow> scan_string_step L = wide_step 8 L"
  unfolding scan_string_step_def wide_step_def follow_simps Let_def by simp_all

lemma scan_wide_3:
  assumes "0xE0 < cur (get_char L)" "cur (get_char L) < 0xF0" "cur (get_char L) \<noteq> 0xED"
  shows "scan_string_step L = wide_step 3 L"
proof -
  have "0xE1 \<le> cur (get_char L) \<and> cur (get_char L) \<le> 0xEC \<or> cur (get_char L) = 0xEE \<or> cur (get_char L) = 0xEF"
    using assms by linarith
  then show ?thesis
    unfolding scan_string_step_def wide_step_def follow_simps Let_def by (elim disjE) simp_all
qed

lemma mod_offset: "m * j \<le> b \<Longrightarrow> b < m * j + m \<Longrightarrow> b mod m = b - m * (j::nat)"
  using mod_mult_self2[of "b - m * j" m j] by simp

lemma mod_ranges:
  "0xC0 \<le> b \<Longrightarrow> b < 0x100 \<Longrightarrow> b mod 64 = b - (0xC0::nat)"
  "0xE0 \<le> b \<Longrightarrow> b < 0x100 \<Longrightarrow> b mod 32 = b - (0xE0::nat)"
  "0xF0 \<le> b \<Longrightarrow> b < 0xF4 \<Longrightarrow> b mod 4 = b - (0xF0::nat)"
  using mod_offset[of 64 3 b] mod_offset[of 32 7 b] mod_offset[of 4 60 b] by simp_all

lemma scan_lead_byte:
  assumes "cur (get_char L) = int b" and "decode_state 0 b \<noteq> 1" and "decode_state 0 b \<noteq> 0" and "b < 256"
  shows "2 \<le> decode_state 0 b \<and> decode_state 0 b \<le> 8 \<and>
    least_codepoint (decode_state 0 b) \<le> decode_codepoint 0 cp b \<and>
    scan_string_step L = wide_step (decode_state 0 b) L"
proof -
  have t: "utf8_type b \<in> {2, 3, 4, 5, 6, 10, 11}"
    using lead_types utf8_type_less[of b] assms(2,3) by (auto simp: list_all_iff decode_state_def utf8_transitions_def)
  consider "utf8_type b = 2" "0xC2 \<le> b" "b < 0xE0" | "utf8_type b = 10" "b = 0xE0"
    | "utf8_type b = 4" "b = 0xED" | "utf8_type b = 3" "0xE0 < b" "b < 0xF0" "b \<noteq> 0xED"
    | "utf8_type b = 11" "b = 0xF0" | "utf8_type b = 6" "0xF0 < b" "b < 0xF4" | "utf8_type b = 5" "b = 0xF4"
    using t by (auto simp: utf8_type_def split: if_splits)
  then show ?thesis
  proof cases
    case 1
    then have "decode_state 0 b = 2" "b mod 64 = b - 0xC0"
      using mod_ranges(1)[of b] assms(4) by (simp_all add: decode_state_def utf8_transitions_def)
    then show ?thesis using 1 scan_wide(1)[of L] assms(1)
      by (simp add: least_codepoint_def decode_codepoint_def)
  next
    case 2
    then have "decode_state 0 b = 4" by (simp add: decode_state_def utf8_transitions_def)
    then show ?thesis using 2 scan_wide(2)[of L] assms(1) by (simp add: least_codepoint_def decode_codepoint_def)
  next
    case 3
    then have "decode_state 0 b = 5" by (simp add: decode_state_def utf8_transitions_def)
    then show ?thesis using 3 scan_wide(3)[of L] assms(1) by (simp add: least_codepoint_def decode_codepoint_def)
  next
    case 4
    then have "decode_state 0 b = 3" "b mod 32 = b - 0xE0"
      using mod_ranges(2)[of b] assms(4) by (simp_all add: decode_state_def utf8_transitions_def)
    then show ?thesis using 4 scan_wide_3[of L] assms(1)
      by (simp add: least_codepoint_def decode_codepoint_def)
  next
    case 5
    then have "decode_state 0 b = 6" by (simp add: decode_state_def utf8_transitions_def)
    then show ?thesis using 5 scan_wide(4)[of L] assms(1) by (simp add: least_codepoint_def decode_codepoint_def)
  next
    case 6
    then have "decode_state 0 b = 7" "b mod 4 = b - 0xF0"
      using mod_ranges(3)[of b] assms(4) by (simp_all add: decode_state_def utf8_transitions_def)
    then show ?thesis using 6 scan_wide(5)[of L] assms(1)
      by (simp add: least_codepoint_def decode_codepoint_def)
  next
    case 7
    then have "decode_state 0 b = 8" by (simp add: decode_state_def utf8_transitions_def)
    then show ?thesis using 7 scan_wide(6)[of L] assms(1) by (simp add: least_codepoint_def decode_codepoint_def)
  qed
qed

lemma check_ranges_reads:
  "in_ranges rs bs \<Longrightarrow> inp L = bs @ r \<Longrightarrow> sane L \<Longrightarrow>
   \<exists>L'. check_ranges rs L = (L', True) \<and> inp L' = r \<and> sane L' \<and> token_buffer L' = token_buffer L @ bs"
proof (induction rs arbitrary: bs L)
  case (Cons x rs)
  obtain lo hi where x: "x = (lo, hi)" by fastforce
  obtain b bs' where b: "bs = b # bs'" "lo \<le> of_char b" "of_char b \<le> hi" "in_ranges rs bs'"
    using Cons.prems(1) x by (cases bs) (auto simp: in_ranges_def)
  note g = get_char_Cons[of L b "bs' @ r"]
  have L: "inp L = b # bs' @ r" using Cons.prems(2) b by simp
  obtain L' where "check_ranges rs (add b (get_char L)) = (L', True)" "inp L' = r" "sane L'"
    "token_buffer L' = token_buffer L @ b # bs'"
    using Cons.IH[OF b(4), of "add b (get_char L)"] g[OF L Cons.prems(3)] by auto
  then show ?case
    using x b g[OF L Cons.prems(3)] by (auto simp: Let_def add_current_Some)
qed (simp add: in_ranges_def)

definition reads_char :: "lexer \<Rightarrow> char \<Rightarrow> string \<Rightarrow> bool" where
  "reads_char L c r \<longleftrightarrow> (\<exists>L'. scan_string_step L = (L', None) \<and> inp L' = r \<and> sane L' \<and>
     token_buffer L' = token_buffer L @ [c])"

lemma backslash:
  assumes "inp L = CHR 0x5C # r" and "sane L"
  shows "scan_string_step L = scan_escape (get_char L)"
  using get_char_Cons(4)[OF assms] by (simp add: scan_string_step_def Let_def)

lemma simple_escape:
  assumes "inp L = CHR 0x5C # e # r" and "sane L"
    and "(e, c) \<in> {(CHR 0x22, CHR 0x22), (CHR 0x5C, CHR 0x5C), (CHR ''b'', CHR 0x08), (CHR ''f'', CHR 0x0C),
      (CHR ''n'', CHR 0x0A), (CHR ''r'', CHR 0x0D), (CHR ''t'', CHR 0x09)}"
  shows "reads_char L c r"
proof -
  note g = get_char_Cons[OF assms(1,2)]
  note h = get_char_Cons[OF g(2,3)]
  have "scan_escape (get_char L) = (add c (get_char (get_char L)), None)"
    using assms(3) h(4) by (auto simp: scan_escape_def Let_def)
  then show ?thesis using backslash[OF assms(1,2)] h by (simp add: reads_char_def)
qed

lemma of_char_of: "n < 256 \<Longrightarrow> (of_char (char_of (n::nat)) :: int) = int n"
  by (metis of_nat_of_char of_char_of mod_less of_char_mod_256)

lemma hex_lower_value: "d < 16 \<Longrightarrow> hex_value (of_char (hex_lower d)) = Some (int d)"
  by (auto simp: hex_value_def hex_lower_def of_char_of)

lemma codepoint_digit:
  assumes "inp L = hex_lower d # r" and "sane L" and "d < 16"
  shows "get_codepoint_loop (f # fs) cp L = get_codepoint_loop fs (cp + int d * 2 ^ f) (get_char L)"
  using get_char_Cons(4)[OF assms(1,2)] hex_lower_value[OF assms(3)] by (simp add: Let_def)

lemma codepoint_reads:
  assumes "inp L = hex_lower a # hex_lower b # hex_lower c # hex_lower d # r" and "sane L"
    and "a < 16" "b < 16" "c < 16" "d < 16"
  shows "\<exists>L'. get_codepoint L = (L', Some (int (a * 4096 + b * 256 + c * 16 + d))) \<and> inp L' = r \<and> sane L' \<and>
    token_buffer L' = token_buffer L"
proof -
  note g1 = get_char_Cons[OF assms(1,2)]
  note g2 = get_char_Cons[OF g1(2,3)]
  note g3 = get_char_Cons[OF g2(2,3)]
  note g4 = get_char_Cons[OF g3(2,3)]
  have "get_codepoint L = (get_char (get_char (get_char (get_char L))), Some (int (a * 4096 + b * 256 + c * 16 + d)))"
    unfolding get_codepoint_def
    by (simp only: codepoint_digit[OF assms(1,2,3)] codepoint_digit[OF g1(2,3) assms(4)]
        codepoint_digit[OF g2(2,3) assms(5)] codepoint_digit[OF g3(2,3) assms(6)]) simp
  then show ?thesis using g4 by simp
qed

lemma unicode_escape:
  assumes "inp L = CHR 0x5C # CHR ''u'' # CHR ''0'' # CHR ''0'' # hex_lower (b div 16) # hex_lower (b mod 16) # r"
    and "sane L" and "b = of_char c" and "b < 0x80"
  shows "reads_char L c r"
proof -
  note g = get_char_Cons[OF assms(1,2)]
  note h = get_char_Cons[OF g(2,3)]
  have "(of_char (CHR ''0'') :: nat) = 48" by simp
  then have z: "CHR ''0'' = hex_lower 0" by (metis add_0_right hex_lower_def char_of_char zero_less_numeral)
  have i: "inp (get_char (get_char L)) =
      hex_lower 0 # hex_lower 0 # hex_lower (b div 16) # hex_lower (b mod 16) # r"
    using h(2) z by metis
  have d: "b div 16 < 16" using assms(4) by (simp add: div_less_iff_less_mult)
  obtain L' where "get_codepoint (get_char (get_char L)) = (L', Some (int (0 * 4096 + 0 * 256 + b div 16 * 16 + b mod 16)))"
    "inp L' = r" "sane L'" "token_buffer L' = token_buffer L"
    using codepoint_reads[OF i h(3)] d by auto
  then have L': "get_codepoint (get_char (get_char L)) = (L', Some (int b))"
    "inp L' = r" "sane L'" "token_buffer L' = token_buffer L" by simp_all
  have "scan_unicode (get_char (get_char L)) = (add c L', None)"
    using L'(1) assms(3,4) by (simp add: scan_unicode_def Let_def utf8_encode_def del: of_nat_of_char)
  moreover have "scan_escape (get_char L) = scan_unicode (get_char (get_char L))"
    using h(4) by (simp add: scan_escape_def Let_def)
  ultimately show ?thesis using backslash[OF assms(1,2)] L' by (simp add: reads_char_def)
qed

lemma plain_char:
  assumes "inp L = c # r" and "sane L" and "0x20 \<le> (of_char c :: nat)" "(of_char c :: nat) < 0x80"
    and "(of_char c :: nat) \<noteq> 0x22" "(of_char c :: nat) \<noteq> 0x5C"
  shows "reads_char L c r"
proof -
  note g = get_char_Cons[OF assms(1,2)]
  have "cur (get_char L) = int (of_char c)" using g(4) by (simp only: of_char_int_of_nat)
  then have "0x20 \<le> cur (get_char L)" "cur (get_char L) < 0x80" "cur (get_char L) \<noteq> 0x22"
    "cur (get_char L) \<noteq> 0x5C" using assms(3-6) by linarith+
  then have "scan_string_step L = (add_current (get_char L), None)"
    by (simp add: scan_string_step_def Let_def)
  then show ?thesis using g by (simp add: reads_char_def add_current_Some)
qed

lemma char_by_code: "(of_char d :: nat) = n \<Longrightarrow> ((of_char c :: nat) = n) = (c = d)"
  for c d :: char and n :: nat
  by (metis of_char_eq_iff)

lemma escape_reads:
  assumes "inp L = escape_char (of_char c) c @ r" and "sane L" and "(of_char c :: nat) < 0x80"
  shows "reads_char L c r"
proof -
  let ?b = "of_char c :: nat"
  consider (simple) "?b \<in> {0x08, 0x09, 0x0A, 0x0C, 0x0D, 0x22, 0x5C}"
    | (unicode) "?b \<le> 0x1F" "?b \<notin> {0x08, 0x09, 0x0A, 0x0C, 0x0D}"
    | (plain) "0x20 \<le> ?b" "?b \<noteq> 0x22" "?b \<noteq> 0x5C" by force
  then show ?thesis
  proof cases
    case simple
    have "c \<in> {CHR 0x08, CHR 0x09, CHR 0x0A, CHR 0x0C, CHR 0x0D, CHR 0x22, CHR 0x5C}"
      using simple char_by_code[of "CHR 0x08" "0x08" c] char_by_code[of "CHR 0x09" "0x09" c]
        char_by_code[of "CHR 0x0A" "0x0A" c] char_by_code[of "CHR 0x0C" "0x0C" c]
        char_by_code[of "CHR 0x0D" "0x0D" c] char_by_code[of "CHR 0x22" "0x22" c]
        char_by_code[of "CHR 0x5C" "0x5C" c] by auto
    then show ?thesis
      using assms(1)
      by (elim insertE emptyE) (rule simple_escape[OF _ assms(2)]; force simp: escape_char_def)+
  next
    case unicode
    have "inp L = CHR 0x5C # CHR ''u'' # CHR ''0'' # CHR ''0'' # hex_lower (?b div 16) # hex_lower (?b mod 16) # r"
      using assms(1) unicode by (simp add: escape_char_def)
    then show ?thesis by (rule unicode_escape[OF _ assms(2) refl assms(3)])
  next
    case plain
    have "inp L = c # r" using assms(1) plain by (simp add: escape_char_def)
    then show ?thesis by (rule plain_char[OF _ assms(2) plain(1) assms(3) plain(2,3)])
  qed
qed

lemma lead_state:
  assumes "decode_state 0 b \<noteq> 1" and "decode_state 0 b \<noteq> 0" and "b < 256"
  shows "2 \<le> decode_state 0 b \<and> decode_state 0 b \<le> 8 \<and>
    least_codepoint (decode_state 0 b) \<le> decode_codepoint 0 cp b"
proof -
  have "(of_char (char_of b :: char) :: int) = int b" using of_char_of[OF assms(3)] .
  then have "cur (get_char (init_lexer [char_of b])) = int b"
    using get_char_Cons(4)[of "init_lexer [char_of b]" "char_of b" "[]"] by simp
  from scan_lead_byte[OF this assms] show ?thesis by blast
qed

definition reads_text :: "string \<Rightarrow> string \<Rightarrow> bool" where
  "reads_text t s \<longleftrightarrow> (\<forall>L r. inp L = t @ CHR 0x22 # r \<longrightarrow> sane L \<longrightarrow>
     (\<exists>L'. scan_string_loop L = (L', T_value_string) \<and> inp L' = r \<and> sane L' \<and>
       token_buffer L' = token_buffer L @ s))"

lemma reads_text_Nil: "reads_text [] []"
  unfolding reads_text_def
proof (intro allI impI)
  fix L r
  assume "inp L = [] @ CHR 0x22 # r" and s: "sane L"
  then have i: "inp L = CHR 0x22 # r" by simp
  note g = get_char_Cons[OF i s]
  have "scan_string_step L = (get_char L, Some T_value_string)"
    using g(4) by (simp add: scan_string_step_def Let_def)
  then have "scan_string_loop L = (get_char L, T_value_string)" by (subst scan_string_loop.simps) simp
  then show "\<exists>L'. scan_string_loop L = (L', T_value_string) \<and> inp L' = r \<and> sane L' \<and>
      token_buffer L' = token_buffer L @ []"
    using g by simp
qed

lemma reads_text_step:
  assumes "\<And>L r. inp L = e @ r \<Longrightarrow> sane L \<Longrightarrow> \<exists>L'. scan_string_step L = (L', None) \<and> inp L' = r \<and> sane L' \<and>
      token_buffer L' = token_buffer L @ cs"
    and "reads_text t s"
  shows "reads_text (e @ t) (cs @ s)"
  unfolding reads_text_def
proof (intro allI impI)
  fix L r
  assume L: "inp L = (e @ t) @ CHR 0x22 # r" "sane L"
  then obtain L1 where 1: "scan_string_step L = (L1, None)" "inp L1 = t @ CHR 0x22 # r" "sane L1"
    "token_buffer L1 = token_buffer L @ cs" using assms(1)[of L "t @ CHR 0x22 # r"] by auto
  then obtain L2 where "scan_string_loop L1 = (L2, T_value_string)" "inp L2 = r" "sane L2"
    "token_buffer L2 = token_buffer L1 @ s" using assms(2) unfolding reads_text_def by blast
  then show "\<exists>L'. scan_string_loop L = (L', T_value_string) \<and> inp L' = r \<and> sane L' \<and>
      token_buffer L' = token_buffer L @ cs @ s"
    using 1 by (subst scan_string_loop.simps) simp
qed

lemma wide_reads:
  assumes "decode_state 0 (of_char c) \<noteq> 1" "decode_state 0 (of_char c) \<noteq> 0"
    and "in_ranges (follow (decode_state 0 (of_char c))) bs" and "inp L = (c # bs) @ r" "sane L"
  shows "\<exists>L'. scan_string_step L = (L', None) \<and> inp L' = r \<and> sane L' \<and>
      token_buffer L' = token_buffer L @ c # bs"
proof -
  have L: "inp L = c # bs @ r" using assms(4) by simp
  note g = get_char_Cons[OF L assms(5)]
  have "cur (get_char L) = int (of_char c)" using g(4) by (simp only: of_char_int_of_nat)
  from scan_lead_byte[OF this assms(1,2) of_char_256]
  have "scan_string_step L = wide_step (decode_state 0 (of_char c)) L" by blast
  moreover obtain L' where "check_ranges (follow (decode_state 0 (of_char c))) (add c (get_char L)) = (L', True)"
    "inp L' = r" "sane L'" "token_buffer L' = token_buffer L @ c # bs"
    using check_ranges_reads[OF assms(3), of "add c (get_char L)" r] g by auto
  ultimately show ?thesis using g(1) by (simp add: wide_step_def next_byte_in_range_def add_current_Some)
qed

lemma dump_escaped_reads:
  "dump_escaped_loop i 0 cp out s = Inr (0, out') \<Longrightarrow> \<exists>t. out' = out @ t \<and> reads_text t s"
proof (induction s arbitrary: i cp out rule: length_induct)
  case (1 s)
  show ?case
  proof (cases s)
    case Nil
    then show ?thesis using 1(2) reads_text_Nil by simp
  next
    case (Cons c cs)
    let ?b = "of_char c :: nat"
    have n1: "decode_state 0 ?b \<noteq> 1" using 1(2) Cons by (auto simp: Let_def)
    show ?thesis
    proof (cases "decode_state 0 ?b = 0")
      case True
      then have b: "?b < 0x80"
        by (auto simp: decode_state_def utf8_transitions_def utf8_type_def split: if_splits)
      then have "decode_codepoint 0 cp ?b = ?b"
        by (simp add: decode_codepoint_def utf8_type_def)
      then have "dump_escaped_loop (Suc i) 0 ?b (out @ escape_char ?b c) cs = Inr (0, out')"
        using 1(2) Cons True by (simp add: Let_def)
      then obtain t where t: "out' = (out @ escape_char ?b c) @ t" "reads_text t cs"
        using 1(1) Cons by (metis length_Cons lessI)
      have "reads_text (escape_char ?b c @ t) ([c] @ cs)"
        by (rule reads_text_step[OF _ t(2)]) (use escape_reads b in \<open>auto simp: reads_char_def\<close>)
      then show ?thesis using t(1) Cons by auto
    next
      case False
      have st: "2 \<le> decode_state 0 ?b" "decode_state 0 ?b \<le> 8"
        "least_codepoint (decode_state 0 ?b) \<le> decode_codepoint 0 cp ?b"
        using lead_state[OF n1 False of_char_256] by blast+
      have "dump_escaped_loop (Suc i) (decode_state 0 ?b) (decode_codepoint 0 cp ?b) (out @ [c]) cs = Inr (0, out')"
        using 1(2) Cons n1 False by (simp add: Let_def)
      from dump_continuation[OF this st] obtain bs s' i' cp' where c: "cs = bs @ s'"
        "in_ranges (follow (decode_state 0 ?b)) bs"
        "dump_escaped_loop i' 0 cp' ((out @ [c]) @ bs) s' = Inr (0, out')" by blast
      have "length s' < length s" using c(1) Cons by simp
      then obtain t where t: "out' = ((out @ [c]) @ bs) @ t" "reads_text t s'" using 1(1) c(3) by blast
      have "reads_text ((c # bs) @ t) ((c # bs) @ s')"
        by (rule reads_text_step[OF wide_reads[OF n1 False c(2)] t(2)])
      then show ?thesis using t(1) c(1) Cons by auto
    qed
  qed
qed

lemma reads_string:
  assumes "dump_string s = Inr q" and "inp L = q @ r" and "sane L"
  shows "reads L T_value_string r \<and> token_buffer (fst (scan L)) = s"
proof -
  from assms(1) obtain t' where e: "dump_escaped s = Inr t'" and q: "q = CHR 0x22 # t' @ [CHR 0x22]"
    by (auto simp: dump_string_def andThen_eq_Inr)
  then have "dump_escaped_loop 0 0 0 [] s = Inr (0, t')"
    by (auto simp: dump_escaped_def andThen_eq_Inr split: if_splits)
  from dump_escaped_reads[OF this] have t: "reads_text t' s" by auto
  obtain s0 where s0: "scan L = scan_token s0" "inp s0 = t' @ CHR 0x22 # r" "sane s0" "cur s0 = 0x22"
    using scan_Cons[of L "CHR 0x22" "t' @ CHR 0x22 # r"] assms(2,3) q by (auto simp: starts_token_def is_ws_def)
  have "scan_token s0 = scan_string s0" using s0(4) by (simp add: scan_token_def)
  moreover obtain L' where "scan_string s0 = (L', T_value_string)" "inp L' = r" "sane L'" "token_buffer L' = s"
    using t s0(2,3) unfolding reads_text_def scan_string_def by (metis inp_updates(1,7) token_buffer_updates(1) append_Nil)
  ultimately show ?thesis using s0(1) by (simp add: reads_def)
qed

end
