(* ===== verification/Session_Correct.thy ===== *)
theory Session_Correct
  imports Task Json_Roundtrip
begin

text \<open>
  What a session reports of itself (\<^verbatim>\<open>src/src/onnx/session.cpp\<close>,
  \<^verbatim>\<open>src/src/onnx/cuda/session_options.cpp\<close>): the options it echoes are those it applied
  (\<open>session_recreated\<close>, by a contract of the single steps that is closed under composition),
  its inputs and outputs are the model's with the shapes given by the caller
  (\<open>session_shapes\<close>), and of the CUDA options it
  reports what the runtime lists (\<open>cuda_options_reported\<close>).
\<close>

section \<open>Steps that echo what they applied\<close>

text \<open>
  A step of \<^verbatim>\<open>apply_session_options\<close> reads members of the input and echoes under the keys
  \<open>ks\<close> only, and running it on any object that agrees with its echo on these keys repeats what
  it did. The contract is closed under composition of steps with disjoint keys.
\<close>

type_synonym 'so step = "json \<Rightarrow> 'so applied \<Rightarrow> 'so applied"

definition echoing :: "string set \<Rightarrow> 'so step \<Rightarrow> bool" where
  "echoing ks step \<longleftrightarrow>
     (\<forall>input so e. json_wf input \<longrightarrow> (\<forall>k \<in> ks. map_of e k = None) \<longrightarrow>
        (\<forall>k. k \<notin> ks \<longrightarrow> map_of (snd (step input (so, e))) k = map_of e k) \<and>
        (\<forall>m. (\<forall>k \<in> ks. map_of m k = map_of (snd (step input (so, e))) k) \<longrightarrow>
          step (JObject m) (so, e) = step input (so, e)))"

lemma echoing_I:
  assumes "\<And>input so e. json_wf input \<Longrightarrow> \<forall>k \<in> ks. map_of e k = None \<Longrightarrow>
      (\<forall>k. k \<notin> ks \<longrightarrow> map_of (snd (step input (so, e))) k = map_of e k) \<and>
      (\<forall>m. (\<forall>k \<in> ks. map_of m k = map_of (snd (step input (so, e))) k) \<longrightarrow>
        step (JObject m) (so, e) = step input (so, e))"
  shows "echoing ks step"
  using assms by (simp add: echoing_def)

lemma echoing_other:
  "echoing ks step \<Longrightarrow> json_wf input \<Longrightarrow> \<forall>k \<in> ks. map_of e k = None \<Longrightarrow>
   step input (so, e) = (so', e') \<Longrightarrow> k \<notin> ks \<Longrightarrow> map_of e' k = map_of e k"
  unfolding echoing_def by (metis snd_conv)

lemma echoing_again:
  "echoing ks step \<Longrightarrow> json_wf input \<Longrightarrow> \<forall>k \<in> ks. map_of e k = None \<Longrightarrow>
   step input (so, e) = (so', e') \<Longrightarrow> \<forall>k \<in> ks. map_of m k = map_of e' k \<Longrightarrow>
   step (JObject m) (so, e) = (so', e')"
  unfolding echoing_def by (metis snd_conv)

lemma echoing_comp:
  assumes f: "echoing ks f" and g: "echoing ls g" and d: "ks \<inter> ls = {}"
  shows "echoing (ks \<union> ls) (\<lambda>input st. g input (f input st))"
proof (rule echoing_I)
  fix input and so :: 'a and e :: "(string \<times> json) list"
  assume wf: "json_wf input" and fresh: "\<forall>k \<in> ks \<union> ls. map_of e k = None"
  obtain so1 e1 where 1: "f input (so, e) = (so1, e1)" by (cases "f input (so, e)")
  obtain so2 e2 where 2: "g input (so1, e1) = (so2, e2)" by (cases "g input (so1, e1)")
  have f1: "map_of e1 k = map_of e k" if "k \<notin> ks" for k
    using echoing_other[OF f wf _ 1 that] fresh by blast
  have apart: "k \<in> ls \<Longrightarrow> k \<notin> ks" for k using d by blast
  have fresh1: "\<forall>k \<in> ls. map_of e1 k = None" using f1[OF apart] fresh by simp
  have g1: "map_of e2 k = map_of e1 k" if "k \<notin> ls" for k
    using echoing_other[OF g wf fresh1 2 that] .
  have "g (JObject m) (f (JObject m) (so, e)) = (so2, e2)"
    if m: "\<forall>k \<in> ks \<union> ls. map_of m k = map_of e2 k" for m
  proof -
    have "\<forall>k \<in> ks. map_of m k = map_of e1 k"
      using m g1 apart by (metis UnI1)
    then have "f (JObject m) (so, e) = (so1, e1)" using echoing_again[OF f wf _ 1] fresh by blast
    then show ?thesis using echoing_again[OF g wf fresh1 2] m by simp
  qed
  then show "(\<forall>k. k \<notin> ks \<union> ls \<longrightarrow> map_of (snd (g input (f input (so, e)))) k = map_of e k) \<and>
     (\<forall>m. (\<forall>k \<in> ks \<union> ls. map_of m k = map_of (snd (g input (f input (so, e)))) k) \<longrightarrow>
        g (JObject m) (f (JObject m) (so, e)) = g input (f input (so, e)))"
    using 1 2 f1 g1 by simp
qed

lemma member_JObject [simp]: "member (JObject m) k = map_of m k"
  by (simp add: member_def)

lemma member_wf: "json_wf j \<Longrightarrow> member j k = Some v \<Longrightarrow> json_wf v"
  by (cases j) (auto simp: map_of_wf member_def simp del: json_wf.simps)

lemma echoing_single:
  assumes "\<And>m st. map_of m k = None \<Longrightarrow> step (JObject m) st = st"
    and "\<And>input so e. json_wf input \<Longrightarrow>
      step input (so, e) = (so, e) \<or>
      (\<exists>so' v. step input (so, e) = (so', om_put k v e) \<and>
        (\<forall>m. map_of m k = Some v \<longrightarrow> step (JObject m) (so, e) = (so', om_put k v e)))"
  shows "echoing {k} step"
proof (rule echoing_I)
  fix input and so :: 'a and e :: "(string \<times> json) list"
  assume wf: "json_wf input" and fresh: "\<forall>k \<in> {k}. map_of e k = None"
  from assms(2)[OF wf, of so e]
  show "(\<forall>l. l \<notin> {k} \<longrightarrow> map_of (snd (step input (so, e))) l = map_of e l) \<and>
    (\<forall>m. (\<forall>l \<in> {k}. map_of m l = map_of (snd (step input (so, e))) l) \<longrightarrow>
       step (JObject m) (so, e) = step input (so, e))"
    using fresh assms(1) by auto
qed

lemma wrap_signed_twice: "0 < w \<Longrightarrow> wrap_signed w (wrap_signed w i) = wrap_signed w i"
  by (simp add: wrap_signed_id wrap_signed_range)

lemma try_apply_single:
  "try_apply ort call [(k, v)] (so, e) =
     (case set_option ort call so of None \<Rightarrow> (so, e) | Some so' \<Rightarrow> (so', om_put k v e))"
  by (simp add: try_apply_def split: option.split)

lemma apply_int_eq:
  "apply_int ort input k call st =
     (case member input k of
        Some (JInt i) \<Rightarrow> try_apply ort (call (wrap_signed 32 i)) [(k, JInt (wrap_signed 32 i))] st
      | Some (JUInt i) \<Rightarrow> try_apply ort (call (wrap_signed 32 i)) [(k, JInt (wrap_signed 32 i))] st
      | _ \<Rightarrow> st)"
  by (simp add: apply_int_def get_signed_def split: option.split json.split)

lemma echoing_int: "echoing {k} (\<lambda>input. apply_int ort input k call)"
proof (rule echoing_single)
  show "apply_int ort (JObject m) k call st = st" if "map_of m k = None" for m st
    using that by (simp add: apply_int_eq)
  show "apply_int ort input k call (so, e) = (so, e) \<or>
      (\<exists>so' v. apply_int ort input k call (so, e) = (so', om_put k v e) \<and>
        (\<forall>m. map_of m k = Some v \<longrightarrow> apply_int ort (JObject m) k call (so, e) = (so', om_put k v e)))"
    for input so e
    by (auto simp: apply_int_eq try_apply_single wrap_signed_twice split: option.split json.split)
qed

lemma echoing_bool: "echoing {k} (\<lambda>input. apply_bool ort input k enable disable)"
proof (rule echoing_single)
  show "apply_bool ort (JObject m) k enable disable st = st" if "map_of m k = None" for m st
    using that by (simp add: apply_bool_def)
  show "apply_bool ort input k enable disable (so, e) = (so, e) \<or>
      (\<exists>so' v. apply_bool ort input k enable disable (so, e) = (so', om_put k v e) \<and>
        (\<forall>m. map_of m k = Some v \<longrightarrow>
           apply_bool ort (JObject m) k enable disable (so, e) = (so', om_put k v e)))"
    for input so e
    by (auto simp: apply_bool_def try_apply_single split: option.split json.split)
qed

lemma apply_string_eq:
  "apply_string ort input k parse (so, e) =
     (case member input k of
        Some (JString s) \<Rightarrow>
          (case parse s of
             Some (call, echo) \<Rightarrow>
               (case set_option ort call so of
                  None \<Rightarrow> (so, e) | Some so' \<Rightarrow> (so', om_put k (JString echo) e))
           | None \<Rightarrow> (so, e))
      | _ \<Rightarrow> (so, e))"
  by (simp add: apply_string_def try_apply_single split: option.split json.split)

lemma echoing_string:
  assumes parse: "\<And>s call echo. parse s = Some (call, echo) \<Longrightarrow> parse echo = Some (call, echo)"
  shows "echoing {k} (\<lambda>input. apply_string ort input k parse)"
proof (rule echoing_single)
  show "apply_string ort (JObject m) k parse st = st" if "map_of m k = None" for m st
    using that by (simp add: apply_string_def)
  fix input so and e :: "(string \<times> json) list"
  show "apply_string ort input k parse (so, e) = (so, e) \<or>
      (\<exists>so' v. apply_string ort input k parse (so, e) = (so', om_put k v e) \<and>
        (\<forall>m. map_of m k = Some v \<longrightarrow>
           apply_string ort (JObject m) k parse (so, e) = (so', om_put k v e)))"
  proof (cases "\<exists>s call echo so'. member input k = Some (JString s) \<and> parse s = Some (call, echo) \<and>
      set_option ort call so = Some so'")
    case True
    then obtain s call echo so' where "member input k = Some (JString s)"
      "parse s = Some (call, echo)" "set_option ort call so = Some so'" by blast
    then show ?thesis using parse[of s call echo]
      by (intro disjI2 exI[of _ so'] exI[of _ "JString echo"]) (simp add: apply_string_eq)
  next
    case False
    then have "apply_string ort input k parse (so, e) = (so, e)"
      by (fastforce simp: apply_string_eq split: option.split json.split)
    then show ?thesis ..
  qed
qed

lemma apply_profiling_eq:
  "apply_profiling ort input (so, e) =
     (if member input ''enable_profiling'' = Some (JBool True)
      then let p = (case member input ''profile_file_prefix'' of Some (JString p) \<Rightarrow> p | _ \<Rightarrow> [])
           in case set_option ort (EnableProfiling (c_str p)) so of
                None \<Rightarrow> (so, e)
              | Some so' \<Rightarrow> (so', om_put ''profile_file_prefix'' (JString p)
                                  (om_put ''enable_profiling'' (JBool True) e))
      else (so, e))"
  by (simp add: apply_profiling_def try_apply_def Let_def split: option.split json.split bool.split)

lemma echoing_profiling:
  "echoing {''enable_profiling'', ''profile_file_prefix''} (apply_profiling ort)"
  unfolding echoing_def apply_profiling_eq by (simp add: Let_def split: option.split)

text \<open>The loop over the entries of a nested object, whose keys ascend.\<close>

definition entry_echo :: "(string \<times> json \<Rightarrow> 'so applied \<Rightarrow> 'so applied) \<Rightarrow> bool" where
  "entry_echo step \<longleftrightarrow>
     (\<forall>k v so. (\<forall>n. step (k, v) (so, n) = (so, n)) \<or>
        (\<exists>so' w. (\<forall>n. step (k, v) (so, n) = (so', om_put k w n)) \<and>
                 (\<forall>n. step (k, w) (so, n) = (so', om_put k w n))))"

lemma om_put_last: "\<forall>l \<in> fst ` set n. l < k \<Longrightarrow> om_put k v n = n @ [(k, v)]"
  by (induction n) (auto dest: less_asym)

lemma entries_again:
  assumes "entry_echo step" and "om_inv entries"
    and "\<forall>l \<in> fst ` set n. \<forall>k \<in> fst ` set entries. l < k"
  shows "\<exists>so' r. fold step entries (so, n) = (so', n @ r) \<and> fold step r (so, n) = (so', n @ r) \<and>
    fst ` set r \<subseteq> fst ` set entries \<and> (r = [] \<longrightarrow> so' = so)"
  using assms(2,3)
proof (induction entries arbitrary: so n)
  case (Cons kv entries)
  obtain k v where kv: "kv = (k, v)" by (cases kv)
  have inv: "om_inv entries" and above: "\<forall>l \<in> fst ` set entries. k < l" using Cons.prems kv by auto
  from assms(1) consider
      (skip) "\<forall>n. step (k, v) (so, n) = (so, n)"
    | (put) so1 w where "\<forall>n. step (k, v) (so, n) = (so1, om_put k w n)"
        "\<forall>n. step (k, w) (so, n) = (so1, om_put k w n)"
    unfolding entry_echo_def by blast
  then show ?case
  proof cases
    case skip
    from Cons.IH[OF inv, of n so] Cons.prems(2) obtain so' r where
      "fold step entries (so, n) = (so', n @ r)" "fold step r (so, n) = (so', n @ r)"
      "fst ` set r \<subseteq> fst ` set entries" "r = [] \<longrightarrow> so' = so" by auto
    then show ?thesis using skip kv by (intro exI[of _ so'] exI[of _ r]) auto
  next
    case put
    have n: "om_put k w n = n @ [(k, w)]" using Cons.prems(2) kv by (intro om_put_last) simp
    have "\<forall>l \<in> fst ` set (n @ [(k, w)]). \<forall>k \<in> fst ` set entries. l < k"
      using Cons.prems(2) above by auto
    from Cons.IH[OF inv this, of so1] obtain so' r where
      "fold step entries (so1, n @ [(k, w)]) = (so', (n @ [(k, w)]) @ r)"
      "fold step r (so1, n @ [(k, w)]) = (so', (n @ [(k, w)]) @ r)"
      "fst ` set r \<subseteq> fst ` set entries" by blast
    then show ?thesis using put n kv by (intro exI[of _ so'] exI[of _ "(k, w) # r"]) auto
  qed
qed simp

lemma echoing_entries:
  assumes "entry_echo step"
  shows "echoing {k} (\<lambda>input. apply_entries step input k)"
proof (rule echoing_single)
  show "apply_entries step (JObject m) k st = st" if "map_of m k = None" for m st
    using that by (simp add: apply_entries_def)
  fix input :: json and so e
  assume wf: "json_wf input"
  show "apply_entries step input k (so, e) = (so, e) \<or>
      (\<exists>so' v. apply_entries step input k (so, e) = (so', om_put k v e) \<and>
        (\<forall>m. map_of m k = Some v \<longrightarrow> apply_entries step (JObject m) k (so, e) = (so', om_put k v e)))"
  proof (cases "\<exists>entries. member input k = Some (JObject entries)")
    case True
    then obtain entries where m: "member input k = Some (JObject entries)" by blast
    then have "om_inv entries" using member_wf[OF wf m] by simp
    from entries_again[OF assms this, of "[]" so] obtain so' r where r:
      "fold step entries (so, []) = (so', r)" "fold step r (so, []) = (so', r)" "r = [] \<longrightarrow> so' = so"
      by auto
    show ?thesis
    proof (cases "r = []")
      case True
      then show ?thesis using r m by (simp add: apply_entries_def)
    next
      case False
      then show ?thesis using r m
        by (intro disjI2 exI[of _ so'] exI[of _ "JObject r"]) (simp add: apply_entries_def)
    qed
  next
    case False
    then have "apply_entries step input k (so, e) = (so, e)"
      by (simp add: apply_entries_def split: option.split json.split)
    then show ?thesis ..
  qed
qed

lemma apply_dimension_int:
  "apply_dimension ort (k, JInt i) (so, n) =
     (case set_option ort (AddFreeDimensionOverrideByName (c_str k) (wrap_signed 64 i)) so of
        None \<Rightarrow> (so, n) | Some so' \<Rightarrow> (so', om_put k (JInt (wrap_signed 64 i)) n))"
  by (simp add: apply_dimension_def get_int64_def try_apply_single)

lemma apply_dimension_other:
  "apply_dimension ort (k, JUInt i) st = apply_dimension ort (k, JInt i) st"
  "\<not> is_number_integer v \<Longrightarrow> apply_dimension ort (k, v) st = st"
  by (simp_all add: apply_dimension_def get_int64_def)

lemma dimension_entry: "entry_echo (apply_dimension ort)"
  unfolding entry_echo_def
proof (intro allI)
  fix k v so
  have int: "(\<forall>n. apply_dimension ort (k, JInt i) (so, n) = (so, n)) \<or>
        (\<exists>so' w. (\<forall>n. apply_dimension ort (k, JInt i) (so, n) = (so', om_put k w n)) \<and>
                 (\<forall>n. apply_dimension ort (k, w) (so, n) = (so', om_put k w n)))" for i
  proof (cases "set_option ort (AddFreeDimensionOverrideByName (c_str k) (wrap_signed 64 i)) so")
    case (Some so')
    then show ?thesis
      by (intro disjI2 exI[of _ so'] exI[of _ "JInt (wrap_signed 64 i)"])
        (simp add: apply_dimension_int wrap_signed_twice)
  qed (simp add: apply_dimension_int)
  show "(\<forall>n. apply_dimension ort (k, v) (so, n) = (so, n)) \<or>
        (\<exists>so' w. (\<forall>n. apply_dimension ort (k, v) (so, n) = (so', om_put k w n)) \<and>
                 (\<forall>n. apply_dimension ort (k, w) (so, n) = (so', om_put k w n)))"
    using int by (cases v) (simp_all add: apply_dimension_other)
qed

text \<open>
  What is documented of \<^verbatim>\<open>GetSessionConfigEntry\<close>: right after an entry was accepted it returns
  the stored text, with its terminating NUL, of the size it announces.
\<close>

definition reads_back :: "('so, 'c, 'm, 'v) ort \<Rightarrow> bool" where
  "reads_back ort \<longleftrightarrow>
     (\<forall>k v so so'. set_option ort (AddConfigEntry k v) so = Some so' \<longrightarrow>
        config_size ort so' k = Some (Suc (length v)) \<and>
        config_read ort so' k (Suc (length v)) = Some (v @ [CHR 0x00]))"

lemma c_str_c_str [simp]: "c_str (c_str s) = c_str s"
  by (simp add: c_str_def takeWhile_takeWhile)

lemma drop_nul_snoc [simp]: "drop_nul (s @ [CHR 0x00]) = s"
  by (simp add: drop_nul_def)

lemma config_entry:
  assumes "reads_back ort"
  shows "entry_echo (apply_config ort)"
  unfolding entry_echo_def
proof (intro allI)
  fix k v so
  show "(\<forall>n. apply_config ort (k, v) (so, n) = (so, n)) \<or>
        (\<exists>so' w. (\<forall>n. apply_config ort (k, v) (so, n) = (so', om_put k w n)) \<and>
                 (\<forall>n. apply_config ort (k, w) (so, n) = (so', om_put k w n)))"
  proof (cases "\<exists>sv so'. config_text v = Some sv \<and>
      set_option ort (AddConfigEntry (c_str k) (c_str sv)) so = Some so'")
    case True
    then obtain sv so' where "config_text v = Some sv"
      and so': "set_option ort (AddConfigEntry (c_str k) (c_str sv)) so = Some so'" by blast
    moreover have "config_text (JString (c_str sv)) = Some (c_str sv)" by (simp add: config_text_def)
    moreover have "config_size ort so' (c_str k) = Some (Suc (length (c_str sv)))"
      "config_read ort so' (c_str k) (Suc (length (c_str sv))) = Some (c_str sv @ [CHR 0x00])"
      using assms so' by (simp_all add: reads_back_def)
    ultimately show ?thesis
      by (intro disjI2 exI[of _ so'] exI[of _ "JString (c_str sv)"]) (simp add: apply_config_def)
  next
    case False
    then have "apply_config ort (k, v) (so, n) = (so, n)" for n
      by (simp add: apply_config_def split: option.split)
    then show ?thesis by blast
  qed
qed

lemmas echoing_steps =
  echoing_int echoing_bool echoing_string echoing_profiling echoing_entries dimension_entry

abbreviation mode_setter :: "string \<Rightarrow> (setter \<times> string) option" where
  "mode_setter s \<equiv> (case parse_execution_mode s of
      Some mode \<Rightarrow> Some (SetExecutionMode mode,
        if mode = ORT_PARALLEL then ''parallel'' else ''sequential'')
    | None \<Rightarrow> None)"

abbreviation level_setter :: "string \<Rightarrow> (setter \<times> string) option" where
  "level_setter s \<equiv> (case parse_graph_opt_level s of
      Some lvl \<Rightarrow> Some (SetGraphOptimizationLevel lvl, s) | None \<Rightarrow> None)"

lemma echoing_texts:
  "echoing {''execution_mode''} (\<lambda>input. apply_string ort input ''execution_mode'' mode_setter)"
  "echoing {''graph_optimization_level''}
     (\<lambda>input. apply_string ort input ''graph_optimization_level'' level_setter)"
  "echoing {''logid''} (\<lambda>input. apply_string ort input ''logid'' (\<lambda>s. Some (SetLogId (c_str s), s)))"
  "echoing {''optimized_model_filepath''} (\<lambda>input. apply_string ort input ''optimized_model_filepath''
     (\<lambda>s. Some (SetOptimizedModelFilePath (c_str s), s)))"
proof -
  have "mode_setter s = Some (call, echo) \<Longrightarrow> mode_setter echo = Some (call, echo)" for s call echo
    by (auto simp: parse_execution_mode_def split: option.splits if_splits)
  then show "echoing {''execution_mode''} (\<lambda>input. apply_string ort input ''execution_mode'' mode_setter)"
    by (rule echoing_string)
  have "level_setter s = Some (call, echo) \<Longrightarrow> level_setter echo = Some (call, echo)" for s call echo
    by (auto split: option.splits)
  then show "echoing {''graph_optimization_level''}
     (\<lambda>input. apply_string ort input ''graph_optimization_level'' level_setter)"
    by (rule echoing_string)
qed (rule echoing_string, simp)+

lemma session_options_again:
  assumes "reads_back ort" and "json_wf input" and "apply_session_options ort input so = (so', e)"
  shows "apply_session_options ort (JObject e) so = (so', e)"
proof -
  note 1 = echoing_comp[OF echoing_int[of "''intra_op_num_threads''" ort SetIntraOpNumThreads]
      echoing_int[of "''inter_op_num_threads''" ort SetInterOpNumThreads]]
  note 2 = echoing_comp[OF 1 echoing_texts(1)[of ort]]
  note 3 = echoing_comp[OF 2 echoing_texts(2)[of ort]]
  note 4 = echoing_comp[OF 3 echoing_bool[of "''enable_cpu_mem_arena''" ort EnableCpuMemArena DisableCpuMemArena]]
  note 5 = echoing_comp[OF 4 echoing_bool[of "''enable_mem_pattern''" ort EnableMemPattern DisableMemPattern]]
  note 6 = echoing_comp[OF 5 echoing_int[of "''log_severity_level''" ort SetLogSeverityLevel]]
  note 7 = echoing_comp[OF 6 echoing_texts(3)[of ort]]
  note 8 = echoing_comp[OF 7 echoing_profiling[of ort]]
  note 9 = echoing_comp[OF 8 echoing_texts(4)[of ort]]
  note 10 = echoing_comp[OF 9 echoing_entries[OF dimension_entry[of ort], of "''free_dimension_overrides''"]]
  note 11 = echoing_comp[OF 10 echoing_entries[OF config_entry[OF assms(1)], of "''config_entries''"]]
  let ?st = "\<lambda>input st. apply_entries (apply_config ort) input ''config_entries''
   (apply_entries (apply_dimension ort) input ''free_dimension_overrides''
   (apply_string ort input ''optimized_model_filepath'' (\<lambda>s. Some (SetOptimizedModelFilePath (c_str s), s))
   (apply_profiling ort input
   (apply_string ort input ''logid'' (\<lambda>s. Some (SetLogId (c_str s), s))
   (apply_int ort input ''log_severity_level'' SetLogSeverityLevel
   (apply_bool ort input ''enable_mem_pattern'' EnableMemPattern DisableMemPattern
   (apply_bool ort input ''enable_cpu_mem_arena'' EnableCpuMemArena DisableCpuMemArena
   (apply_string ort input ''graph_optimization_level'' level_setter
   (apply_string ort input ''execution_mode'' mode_setter
   (apply_int ort input ''inter_op_num_threads'' SetInterOpNumThreads
   (apply_int ort input ''intra_op_num_threads'' SetIntraOpNumThreads st)))))))))))"
  have "\<exists>ks. echoing ks ?st"
    by (rule exI, rule 11) simp_all
  then obtain ks where ks: "echoing ks ?st" ..
  have eq: "apply_session_options ort (JObject m) so = ?st (JObject m) (so, [])" for m so
    by (simp add: apply_session_options_def Let_def)
  show ?thesis
  proof (cases input)
    case (JObject m)
    then show ?thesis
      using echoing_again[OF ks assms(2), of "[]" so so' e e] assms(3) eq by simp
  qed (use assms(3) in \<open>auto simp: apply_session_options_def eq apply_int_def apply_bool_def
      apply_string_def apply_profiling_def apply_entries_def\<close>)
qed


lemma session_options_object_again:
  assumes "reads_back ort" and "json_wf (JObject m)" and "apply_session_options ort (JObject m) so = (so', [])"
  shows "so' = so"
proof -
  have "apply_session_options ort (JObject []) so = (so, [])"
    by (simp add: apply_session_options_def apply_int_def apply_bool_def apply_string_def
        apply_profiling_def apply_entries_def)
  with session_options_again[OF assms] show ?thesis by simp
qed

section \<open>The options of a session\<close>

lemma string_items_JString [simp]: "string_items (map JString ps) = ps"
  by (induction ps) simp_all

lemma fold_add_path_distinct: "distinct ps \<Longrightarrow> distinct (fold add_path qs ps)"
  by (induction qs arbitrary: ps) (auto simp: add_path_def)

lemma distinct_extensions: "distinct (collect_extensions option)"
  by (auto simp: collect_extensions_def Let_def fold_add_path_distinct add_path_def
      split: option.splits json.splits)

lemma fold_add_path_fresh: "distinct (rs @ ps) \<Longrightarrow> fold add_path ps rs = rs @ ps"
  by (induction ps arbitrary: rs) (auto simp: add_path_def)

lemma extensions_again:
  assumes "map_of m ''extensions'' = (if ps = [] then None else Some (JArray (map JString ps)))"
    and "map_of m ''ortextensions_path'' = None" and "distinct ps"
  shows "collect_extensions (JObject m) = ps"
  using assms by (simp add: collect_extensions_def Let_def fold_add_path_fresh)

lemma map_of_copy_shape [simp]:
  "map_of (copy_shape option k m) l =
     (if l = k
      then (case member option k of Some (JObject x) \<Rightarrow> Some (JObject x) | _ \<Rightarrow> map_of m k)
      else map_of m l)"
  by (simp add: copy_shape_def split: option.split json.split)

lemma map_of_put_if [simp]: "map_of (put_if b k v m) l = (if b \<and> l = k then Some v else map_of m l)"
  by (simp add: put_if_def)

lemma om_inv_options [simp]:
  "om_inv m \<Longrightarrow> om_inv (put_if b k v m)" "om_inv m \<Longrightarrow> om_inv (copy_shape option k m)"
  by (simp_all add: put_if_def copy_shape_def split: option.split json.split)

lemma session_base_again:
  assumes "reads_back ort" and "json_wf option" and "\<not> wants_cuda ort option"
    and base: "session_base ort option = Inr (so, opt)"
  shows "session_base ort (JObject opt) = Inr (so, opt)"
proof -
  obtain so1 applied where o: "(case member option ''session_options'' of
        Some (JObject m) \<Rightarrow> apply_session_options ort (JObject m) (default_options ort)
      | _ \<Rightarrow> (default_options ort, [])) = (so1, applied)" by (metis surj_pair)
  let ?ps = "collect_extensions option"
  let ?o1 = "put_if (applied \<noteq> []) ''session_options'' (JObject applied) [(''cuda'', JBool False)]"
  let ?o2 = "put_if (?ps \<noteq> []) ''extensions'' (JArray (map JString ?ps)) ?o1"
  have so: "foldR (register_extension ort) ?ps so1 = Inr so"
    and opt: "opt = copy_shape option ''output_shape'' (copy_shape option ''input_shape'' ?o2)"
    using base assms(3) by (auto simp: session_base_def o Let_def andThen_eq_Inr)
  have applied: "(case member (JObject opt) ''session_options'' of
        Some (JObject m) \<Rightarrow> apply_session_options ort (JObject m) (default_options ort)
      | _ \<Rightarrow> (default_options ort, [])) = (so1, applied)"
  proof (cases "\<exists>m. member option ''session_options'' = Some (JObject m)")
    case True
    then obtain m where m: "member option ''session_options'' = Some (JObject m)" by blast
    note wf = member_wf[OF assms(2) m]
    from o m have run: "apply_session_options ort (JObject m) (default_options ort) = (so1, applied)" by simp
    have "map_of opt ''session_options'' = (if applied = [] then None else Some (JObject applied))"
      by (simp add: opt)
    then show ?thesis
      using session_options_again[OF assms(1) wf run] session_options_object_again[OF assms(1) wf, of _ so1] run
      by (cases "applied = []") auto
  next
    case False
    then have "so1 = default_options ort" "applied = []"
      using o by (auto split: option.splits json.splits)
    moreover from this have "map_of opt ''session_options'' = None"
      by (simp add: opt)
    ultimately show ?thesis by simp
  qed
  have look: "map_of opt ''cuda'' = Some (JBool False)"
    "map_of opt ''extensions'' = (if ?ps = [] then None else Some (JArray (map JString ?ps)))"
    "map_of opt ''ortextensions_path'' = None"
    by (simp_all add: opt)
  have "collect_extensions (JObject opt) = ?ps"
    by (rule extensions_again[OF look(2,3) distinct_extensions])
  moreover have "\<not> wants_cuda ort (JObject opt)" by (simp add: wants_cuda_def look)
  moreover
  have shapes: "map_of opt k = (case member option k of Some (JObject x) \<Rightarrow> Some (JObject x) | _ \<Rightarrow> None)"
    if "k = ''input_shape'' \<or> k = ''output_shape''" for k
    unfolding opt using that by (elim disjE) (simp_all split: option.split json.split)
  have "copy_shape (JObject opt) k m = copy_shape option k m"
    if "k = ''input_shape'' \<or> k = ''output_shape''" for k m
    unfolding copy_shape_def member_JObject shapes[OF that] by (simp split: option.split json.split)
  then have "copy_shape (JObject opt) ''output_shape'' (copy_shape (JObject opt) ''input_shape'' ?o2) = opt"
    using opt[symmetric] by simp
  ultimately show ?thesis using so by (simp add: session_base_def applied[unfolded member_JObject] Let_def)
qed


lemma session_base_parts:
  assumes base: "session_base ort option = Inr (so, opt)"
  shows "\<exists>o2. om_inv o2 \<and> map_of o2 ''input_shape'' = None \<and> map_of o2 ''output_shape'' = None \<and>
    opt = copy_shape option ''output_shape'' (copy_shape option ''input_shape'' o2)"
proof -
  obtain so1 applied where o: "(case member option ''session_options'' of
        Some (JObject m) \<Rightarrow> apply_session_options ort (JObject m) (default_options ort)
      | _ \<Rightarrow> (default_options ort, [])) = (so1, applied)" by (metis surj_pair)
  let ?ps = "collect_extensions option"
  let ?o1 = "put_if (applied \<noteq> []) ''session_options'' (JObject applied) [(''cuda'', JBool False)]"
  let ?o2 = "put_if (?ps \<noteq> []) ''extensions'' (JArray (map JString ?ps)) ?o1"
  have "\<exists>c. opt = copy_shape option ''output_shape'' (copy_shape option ''input_shape'' (om_put ''cuda'' c ?o2)) \<or>
      opt = copy_shape option ''output_shape'' (copy_shape option ''input_shape'' ?o2)"
    using base by (auto simp: session_base_def o Let_def andThen_eq_Inr split: if_splits)
  then obtain o2 where "opt = copy_shape option ''output_shape'' (copy_shape option ''input_shape'' o2)"
    and "o2 = ?o2 \<or> (\<exists>c. o2 = om_put ''cuda'' c ?o2)" by blast
  then show ?thesis by (intro exI[of _ o2]) auto
qed

lemma copy_shape_del:
  assumes "om_inv m" and "map_of m ''input_shape'' = None" and "map_of m ''output_shape'' = None"
  shows "om_del ''output_shape'' (om_del ''input_shape''
    (copy_shape option ''output_shape'' (copy_shape option ''input_shape'' m))) = m"
  using assms by (intro om_inv_ext) (simp_all add: fun_eq_iff)

lemma session_base_shape:
  assumes "session_base ort option = Inr (so, opt)"
  shows "om_inv opt" and "k = ''input_shape'' \<or> k = ''output_shape'' \<Longrightarrow>
    map_of opt k = (case member option k of Some (JObject m) \<Rightarrow> Some (JObject m) | _ \<Rightarrow> None)"
  using session_base_parts[OF assms] by (auto split: option.split json.split)

text \<open>
  C11. The options a session reports reproduce it, as far as they are reported. On a runtime that
  reads configuration entries back, and without CUDA: the session created again from the same
  model, with the options of its JSON and the shapes the caller gave, which \<^verbatim>\<open>init\<close> has erased from
  them, is the same session, its option object included. So everything else that was applied is
  echoed, in the form in which it was applied.
\<close>

theorem session_recreated:
  assumes "reads_back ort" and "json_wf option" and "\<not> wants_cuda ort option"
    and "make_session ort now k source option = Inr s"
  shows "make_session ort now k source
    (JObject (copy_shape option ''output_shape'' (copy_shape option ''input_shape'' (ses_option s)))) = Inr s"
proof -
  obtain so opt where base: "session_base ort option = Inr (so, opt)"
    using assms(4) by (auto simp: make_session_def andThen_eq_Inr)
  have "ses_option s = om_del ''output_shape'' (om_del ''input_shape'' opt)"
    using assms(4) base by (auto simp: make_session_def andThen_eq_Inr Let_def)
  then have "copy_shape option ''output_shape'' (copy_shape option ''input_shape'' (ses_option s)) = opt"
    using session_base_parts[OF base] copy_shape_del by metis
  with session_base_again[OF assms(1-3) base] base assms(4) show ?thesis
    by (simp add: make_session_def)
qed


text \<open>A runtime with an option object: the accepted setters, and no value above 64 threads.\<close>

definition store_ort :: "(setter list, unit, string, cell list) ort" where
  "store_ort =
     \<lparr>default_options = [],
      set_option = (\<lambda>call so. case call of
          SetIntraOpNumThreads n \<Rightarrow> (if n \<le> 64 then Some (call # so) else None)
        | _ \<Rightarrow> Some (call # so)),
      config_size = (\<lambda>so k. case so of AddConfigEntry l v # _ \<Rightarrow> (if l = k then Some (Suc (length v)) else None) | _ \<Rightarrow> None),
      config_read = (\<lambda>so k n. case so of AddConfigEntry l v # _ \<Rightarrow> (if l = k then Some (v @ [CHR 0x00]) else None) | _ \<Rightarrow> None),
      register_library = (\<lambda>_ so. Inr so),
      available_providers = [''CPUExecutionProvider''], built_with_cuda = False, create_cuda = Inr (),
      update_cuda = (\<lambda>_ c. Inr c), append_cuda = (\<lambda>_ so. Inr so), cuda_as_string = (\<lambda>_. None),
      load_model = (\<lambda>_ _. Inr ''m''), model_inputs = (\<lambda>_. [Inr (''x'', E_INT8, [-1, 2])]),
      model_outputs = (\<lambda>_. [Inr (''y'', E_UINT8, [2])]),
      create_tensor = (\<lambda>_ cells _. Inr cells),
      run_model = (\<lambda>_ _. Inr []), half_to_float = (\<lambda>_ _. NaN)\<rparr>"

lemma store_ort_reads_back: "reads_back store_ort"
  by (auto simp: reads_back_def store_ort_def)

definition asked :: json where
  "asked = JObject
     [(''extensions'', JArray [JString ''a.so'', JInt 3, JString ''a.so'']),
      (''input_shape'', JObject [(''x'', JArray [JInt 3, JInt 2])]),
      (''session_options'', JObject
         [(''config_entries'', JObject [(''k'', JBool True), (''l'', JNull)]),
          (''execution_mode'', JString ''parallel''),
          (''inter_op_num_threads'', JUInt 4294967298),
          (''intra_op_num_threads'', JInt 65)])]"

theorem session_recreated_witness:
  "make_session store_ort 7 (Session_key ''m'' ''1'') (Model_data ''d'')
     (JObject [(''cuda'', JBool False), (''extensions'', JArray [JString ''a.so'']),
       (''input_shape'', JObject [(''x'', JArray [JInt 3, JInt 2])]),
       (''session_options'', JObject
         [(''config_entries'', JObject [(''k'', JString ''1'')]),
          (''execution_mode'', JString ''parallel''), (''inter_op_num_threads'', JInt 2)])]) =
   make_session store_ort 7 (Session_key ''m'' ''1'') (Model_data ''d'') asked"
proof -
  let ?o = "[(''cuda'', JBool False), (''extensions'', JArray [JString ''a.so'']),
       (''session_options'', JObject
         [(''config_entries'', JObject [(''k'', JString ''1'')]),
          (''execution_mode'', JString ''parallel''), (''inter_op_num_threads'', JInt 2)])]"
  let ?s = "\<lparr>ses_key = Session_key ''m'' ''1'', ses_option = ?o, model = ''m'',
    sinputs = [make_value_info ''x'' E_INT8 [-1, 2]\<lparr>vshape := [3, 2]\<rparr>], soutputs = [make_value_info ''y'' E_UINT8 [2]],
    execution_count = 0, created_at = 7, last_executed_at = 0\<rparr>"
  have run: "make_session store_ort 7 (Session_key ''m'' ''1'') (Model_data ''d'') asked = Inr ?s"
    by code_simp
  have "json_wf asked" by code_simp
  moreover have "\<not> wants_cuda store_ort asked" by code_simp
  moreover have "copy_shape asked ''output_shape'' (copy_shape asked ''input_shape'' ?o) =
      [(''cuda'', JBool False), (''extensions'', JArray [JString ''a.so'']),
       (''input_shape'', JObject [(''x'', JArray [JInt 3, JInt 2])]),
       (''session_options'', JObject
         [(''config_entries'', JObject [(''k'', JString ''1'')]),
          (''execution_mode'', JString ''parallel''), (''inter_op_num_threads'', JInt 2)])]"
    by code_simp
  ultimately show ?thesis
    using session_recreated[OF store_ort_reads_back _ _ run] run by simp
qed

section \<open>Shapes\<close>

text \<open>
  An input or output of a session is that of the model, with the dimensions given for its name
  if there are any.
\<close>

definition shaped_as :: "json option \<Rightarrow> string \<times> element_type \<times> int list \<Rightarrow> value_info \<Rightarrow> bool" where
  "shaped_as shapes meta i \<longleftrightarrow>
     vname i = fst meta \<and> velement_type i = fst (snd meta) \<and>
     length (vshape i) = length (snd (snd meta)) \<and>
     (case Option.bind shapes (\<lambda>m. member m (fst meta)) of
        Some (JArray ds) \<Rightarrow> mapR get_int64 ds = Inr (vshape i)
      | _ \<Rightarrow> vshape i = snd (snd meta))"

lemma override_shape_shaped:
  assumes "override_shape ort opt k (make_value_info n t sh) = Inr i"
  shows "shaped_as (map_of opt k) (n, t, sh) i"
  using assms
  by (auto simp: override_shape_def shaped_as_def make_value_info_def andThen_eq_Inr
      dest: mapR_length split: option.splits json.splits if_splits)

lemma shaped_as_objects:
  "shaped_as (case shapes of Some (JObject m) \<Rightarrow> Some (JObject m) | _ \<Rightarrow> None) = shaped_as shapes"
  by (simp add: fun_eq_iff shaped_as_def member_def split: option.split json.split)

lemma value_infos_shaped:
  "value_infos ort opt k results = Inr is \<Longrightarrow>
   \<exists>metas. results = map Inr metas \<and> list_all2 (shaped_as (map_of opt k)) metas is"
  unfolding value_infos_def
proof (induction results arbitrary: "is")
  case (Cons r results)
  obtain i ms where i: "andThen r (\<lambda>(n, t, sh). override_shape ort opt k (make_value_info n t sh)) = Inr i"
    and ms: "mapR (\<lambda>meta. andThen meta (\<lambda>(n, t, sh). override_shape ort opt k (make_value_info n t sh))) results = Inr ms"
    and is_: "is = i # ms" using Cons.prems by (auto simp: andThen_eq_Inr)
  obtain n t sh where r: "r = Inr (n, t, sh)" and o: "override_shape ort opt k (make_value_info n t sh) = Inr i"
    using i by (auto simp: andThen_eq_Inr)
  obtain metas where "results = map Inr metas" "list_all2 (shaped_as (map_of opt k)) metas ms"
    using Cons.IH[OF ms] by blast
  then show ?case
    using r is_ override_shape_shaped[OF o] by (intro exI[of _ "(n, t, sh) # metas"]) simp
qed simp

text \<open>
  C25. A created session has the inputs and outputs of its model, in order, with their names,
  element types and ranks; a dimension differs from the model's only where the caller gave a
  shape for that name, and then it is the caller's.
\<close>

theorem session_shapes:
  assumes "make_session ort now k source option = Inr s"
  shows "\<exists>so ins outs. load_model ort source so = Inr (model s) \<and>
    model_inputs ort (model s) = map Inr ins \<and> model_outputs ort (model s) = map Inr outs \<and>
    list_all2 (shaped_as (member option ''input_shape'')) ins (sinputs s) \<and>
    list_all2 (shaped_as (member option ''output_shape'')) outs (soutputs s)"
proof -
  from assms obtain so opt m inputs outputs where
    base: "session_base ort option = Inr (so, opt)" and m: "load_model ort source so = Inr m" and
    i: "value_infos ort opt ''input_shape'' (model_inputs ort m) = Inr inputs" and
    o: "value_infos ort (om_del ''input_shape'' opt) ''output_shape'' (model_outputs ort m) = Inr outputs" and
    s: "model s = m" "sinputs s = inputs" "soutputs s = outputs"
    by (auto simp: make_session_def andThen_eq_Inr Let_def)
  note shapes = session_base_shape(2)[OF base]
  obtain ins where "model_inputs ort m = map Inr ins" "list_all2 (shaped_as (member option ''input_shape'')) ins inputs"
    using value_infos_shaped[OF i] shapes[of "''input_shape''"] by (auto simp: shaped_as_objects)
  moreover obtain outs where
    "model_outputs ort m = map Inr outs" "list_all2 (shaped_as (member option ''output_shape'')) outs outputs"
    using value_infos_shaped[OF o] shapes[of "''output_shape''"] by (auto simp: shaped_as_objects)
  ultimately show ?thesis using m s by blast
qed

theorem session_shapes_witness:
  "\<exists>s. make_session demo_ort 5 (Session_key ''m'' ''1'') (Model_data ''d'')
       (JObject [(''input_shape'', JObject [(''x'', JArray [JInt 3, JUInt 2])])]) = Inr s \<and>
     list_all2 (shaped_as (Some (JObject [(''x'', JArray [JInt 3, JUInt 2])]))) [(''x'', E_INT8, [-1, 2])] (sinputs s)"
proof -
  let ?s = "\<lparr>ses_key = Session_key ''m'' ''1'', ses_option = [(''cuda'', JBool False)], model = ''m'',
      sinputs = [\<lparr>vname = ''x'', velement_type = E_INT8, vshape = [3, 2], vinput_shape = []\<rparr>],
      soutputs = [make_value_info ''y'' E_UINT8 [2]],
      execution_count = 0, created_at = 5, last_executed_at = 0\<rparr>"
  have run: "make_session demo_ort 5 (Session_key ''m'' ''1'') (Model_data ''d'')
       (JObject [(''input_shape'', JObject [(''x'', JArray [JInt 3, JUInt 2])])]) = Inr ?s"
    by code_simp
  have "list_all2 (shaped_as (Some (JObject [(''x'', JArray [JInt 3, JUInt 2])])))
      [(''x'', E_INT8, [-1, 2])] (sinputs ?s)"
    using session_shapes[OF run] by (auto simp: demo_ort_def map_eq_Cons_conv)
  with run show ?thesis by blast
qed

section \<open>CUDA options\<close>

text \<open>
  The text of \<^verbatim>\<open>GetCUDAProviderOptionsAsString\<close>, and the settings it can carry: keys without
  an equals sign, values without a semicolon, and no NUL.
\<close>

fun provider_text :: "(string \<times> string) list \<Rightarrow> string" where
  "provider_text [] = []"
| "provider_text [(k, v)] = k @ ''='' @ v"
| "provider_text ((k, v) # kvs) = k @ ''='' @ v @ '';'' @ provider_text kvs"

definition printable :: "(string \<times> string) list \<Rightarrow> bool" where
  "printable kvs \<longleftrightarrow>
     list_all (\<lambda>(k, v). k \<noteq> [] \<and> CHR ''='' \<notin> set k \<and> CHR '';'' \<notin> set v \<and>
       CHR 0x00 \<notin> set k \<and> CHR 0x00 \<notin> set v) kvs"

lemma infer_readback_value_eq: "infer_readback_value raw = infer_value raw"
  by (cases raw) (auto simp: infer_readback_value_def infer_value_def matches_int_def is_digit_text_def is_digit_def)

lemma takeWhile_until: "c \<notin> set k \<Longrightarrow> takeWhile (\<lambda>x. x \<noteq> c) (k @ c # r) = k"
  "c \<notin> set k \<Longrightarrow> dropWhile (\<lambda>x. x \<noteq> c) (k @ c # r) = c # r"
  by (induction k) auto

lemma takeWhile_all: "c \<notin> set k \<Longrightarrow> takeWhile (\<lambda>x. x \<noteq> c) k = k"
  "c \<notin> set k \<Longrightarrow> dropWhile (\<lambda>x. x \<noteq> c) k = []"
  by (induction k) auto

lemma parse_provider_text:
  "printable kvs \<Longrightarrow> parse_options_from (provider_text kvs) out =
     foldl (\<lambda>m kv. om_put (fst kv) (infer_value (snd kv)) m) out kvs"
proof (induction kvs arbitrary: out rule: provider_text.induct)
  case 1
  show ?case by (simp add: parse_options_from.simps)
next
  case (2 k v)
  then show ?case
    by (simp add: parse_options_from.simps[of "k @ _"] parse_options_from.simps[of "[]"]
        printable_def takeWhile_until takeWhile_all infer_readback_value_eq Let_def)
next
  case (3 k v kv kvs)
  then have "printable (kv # kvs)" by (simp add: printable_def)
  from "3.IH"[OF this] "3.prems" show ?case
    by (simp add: parse_options_from.simps[of "k @ _"]
        printable_def takeWhile_until takeWhile_all infer_readback_value_eq Let_def)
qed

lemma map_of_foldl_put:
  assumes "distinct (map fst kvs)"
  shows "map_of (foldl (\<lambda>m kv. om_put (fst kv) (f (snd kv)) m) [] kvs) k = map_option f (map_of kvs k)"
proof -
  have same: "k \<notin> fst ` set kvs \<Longrightarrow>
     map_of (foldl (\<lambda>m kv. om_put (fst kv) (f (snd kv)) m) out kvs) k = map_of out k" for kvs out
    by (induction kvs arbitrary: out) auto
  have "map_of (foldl (\<lambda>m kv. om_put (fst kv) (f (snd kv)) m) out kvs) k =
      (case map_of kvs k of Some v \<Rightarrow> Some (f v) | None \<Rightarrow> map_of out k)" for out
    using assms
  proof (induction kvs arbitrary: out)
    case (Cons kv kvs)
    then have "map_of kvs (fst kv) = None" by (simp add: map_of_eq_None_iff)
    then show ?case using Cons by (cases "fst kv = k") (auto simp: same split: option.split)
  qed simp
  then show ?thesis by (simp add: option.case_eq_if map_option_case)
qed

lemma digits_value_snoc: "digits_value (ds @ [c]) = digits_value ds * 10 + digit_value c"
  by (simp add: digits_value_def)

lemma nat_to_string_digits:
  "list_all is_digit (nat_to_string n) \<and> digits_value (nat_to_string n) = int n"
proof (induction n rule: nat_to_string.induct)
  case (1 n)
  show ?case
  proof (cases "n < 10")
    case True
    then show ?thesis by (simp add: digit_char_props digits_value_def)
  next
    case False
    then show ?thesis
      using 1 by (subst (1 2) nat_to_string.simps)
        (simp add: digit_char_props digits_value_snoc of_nat_div of_nat_mod)
  qed
qed

lemma infer_int_to_string: "in_signed 64 i \<Longrightarrow> infer_value (int_to_string i) = JInt i"
proof -
  assume i: "in_signed 64 i"
  have d: "list_all is_digit (nat_to_string n)" "digits_value (nat_to_string n) = int n" for n
    using nat_to_string_digits by auto
  have t: "\<not> is_digit CHR ''t''" "\<not> is_digit CHR ''f''" "\<not> is_digit CHR ''-''" by (simp_all add: is_digit_def)
  show ?thesis
  proof (cases "i < 0")
    case True
    then show ?thesis using i d[of "nat (- i)"]
      by (simp add: int_to_string_def infer_value_def matches_int_def stoll_def)
  next
    case False
    obtain c cs where n: "nat_to_string (nat i) = c # cs" by (cases "nat_to_string (nat i)") auto
    with d[of "nat i"] False i t show ?thesis
      by (auto simp: int_to_string_def infer_value_def matches_int_def stoll_def)
  qed
qed

lemma map_of_filter_keys: "map_of (filter (\<lambda>kv. P (fst kv)) m) k = (if P k then map_of m k else None)"
  by (induction m) auto

text \<open>What the session reports for a value it was given.\<close>

fun reported :: "json \<Rightarrow> json" where
  "reported (JInt i) = JInt i"
| "reported (JUInt n) = JInt (wrap_signed 64 n)"
| "reported (JBool b) = JInt (of_bool b)"
| "reported (JString s) = infer_value s"
| "reported _ = JNull"

text \<open>The text by which ONNX Runtime is told a value.\<close>

fun setting_text :: "json \<Rightarrow> string" where
  "setting_text (JInt i) = int_to_string i"
| "setting_text (JUInt n) = int_to_string (wrap_signed 64 n)"
| "setting_text (JBool b) = (if b then ''1'' else ''0'')"
| "setting_text (JString s) = s"
| "setting_text _ = []"

definition plain_setting :: "string \<times> json \<Rightarrow> bool" where
  "plain_setting kv \<longleftrightarrow>
     fst kv \<noteq> [] \<and> CHR ''='' \<notin> set (fst kv) \<and> CHR 0x00 \<notin> set (fst kv) \<and>
     (case snd kv of
        JString s \<Rightarrow> CHR '';'' \<notin> set s \<and> CHR 0x00 \<notin> set s
      | JBool b \<Rightarrow> True | JInt i \<Rightarrow> True | JUInt i \<Rightarrow> True | _ \<Rightarrow> False)"

lemma nat_to_string_chars: "c \<in> set (nat_to_string n) \<Longrightarrow> is_digit c"
  using nat_to_string_digits[of n] by (auto simp: list_all_iff)

lemma int_to_string_chars: "c \<in> set (int_to_string i) \<Longrightarrow> is_digit c \<or> c = CHR ''-''"
  by (auto simp: int_to_string_def dest: nat_to_string_chars split: if_splits)

lemma provider_string_plain:
  assumes "plain_setting (k, v)" and "json_wf v"
  shows "to_provider_string ort v = Inr (setting_text v) \<and> infer_value (setting_text v) = reported v \<and>
    CHR '';'' \<notin> set (setting_text v) \<and> CHR 0x00 \<notin> set (setting_text v)"
proof -
  have int: "CHR '';'' \<notin> set (int_to_string i)" "CHR 0x00 \<notin> set (int_to_string i)" for i
    using int_to_string_chars[of "CHR '';''" i] int_to_string_chars[of "CHR 0x00" i]
    by (auto simp: is_digit_def)
  have "infer_value ''0'' = JInt 0" "infer_value ''1'' = JInt 1" by code_simp+
  then show ?thesis
    using assms int
    by (cases v) (auto simp: plain_setting_def to_provider_string_def get_int64_def wrap_signed_id
        infer_int_to_string wrap_signed_range)
qed

definition settings_of :: "(string \<times> json) list \<Rightarrow> (string \<times> string) list" where
  "settings_of m = map (\<lambda>(k, v). (k, setting_text v)) m"

lemma cuda_settings_plain:
  assumes "list_all plain_setting m" and "\<forall>kv \<in> set m. json_wf (snd kv)"
  shows "cuda_settings ort (JObject m) = Inr (settings_of m)" and "printable (settings_of m)"
    and "\<forall>(k, v) \<in> set m. infer_value (setting_text v) = reported v"
proof -
  have plain: "plain_setting (k, v) \<and> to_provider_string ort v = Inr (setting_text v) \<and>
      infer_value (setting_text v) = reported v \<and> CHR '';'' \<notin> set (setting_text v) \<and> CHR 0x00 \<notin> set (setting_text v)"
    if "(k, v) \<in> set m" for k v
    using provider_string_plain[of k v ort] assms that by (fastforce simp: list_all_iff)
  have "mapR (\<lambda>kv. andThen (to_provider_string ort (snd kv)) (\<lambda>v. Inr (fst kv, v))) m = Inr (settings_of m)"
    using plain unfolding settings_of_def
  proof (induction m)
    case (Cons kv m)
    then show ?case by (cases kv) fastforce
  qed simp
  then show "cuda_settings ort (JObject m) = Inr (settings_of m)" by (simp add: cuda_settings_def)
  show "printable (settings_of m)"
    using plain by (auto simp: printable_def settings_of_def list_all_iff plain_setting_def)
  show "\<forall>(k, v) \<in> set m. infer_value (setting_text v) = reported v" using plain by blast
qed

lemma c_str_id: "CHR 0x00 \<notin> set s \<Longrightarrow> c_str s = s"
  by (auto simp: c_str_def intro!: takeWhile_eq_all_conv[THEN iffD2])

lemma printable_c_str:
  "printable kvs \<Longrightarrow> map (\<lambda>kv. (c_str (fst kv), c_str (snd kv))) kvs = kvs"
  "printable kvs \<Longrightarrow> c_str (provider_text kvs) = provider_text kvs"
proof -
  show "printable kvs \<Longrightarrow> map (\<lambda>kv. (c_str (fst kv), c_str (snd kv))) kvs = kvs"
    by (induction kvs) (auto simp: printable_def c_str_id)
  have "printable kvs \<Longrightarrow> CHR 0x00 \<notin> set (provider_text kvs)"
    by (induction kvs rule: provider_text.induct) (auto simp: printable_def)
  then show "printable kvs \<Longrightarrow> c_str (provider_text kvs) = provider_text kvs" by (simp add: c_str_id)
qed


text \<open>A CUDA runtime that stores the settings of the last update.\<close>

definition cuda_ort :: "(unit, (string \<times> string) list, string, cell list) ort" where
  "cuda_ort =
     \<lparr>default_options = (), set_option = (\<lambda>_ so. Some so), config_size = (\<lambda>_ _. None),
      config_read = (\<lambda>_ _ _. None), register_library = (\<lambda>_ so. Inr so),
      available_providers = [''CUDAExecutionProvider''], built_with_cuda = True, create_cuda = Inr [],
      update_cuda = (\<lambda>settings _. Inr settings), append_cuda = (\<lambda>_ so. Inr so),
      cuda_as_string = (\<lambda>c. Some (provider_text c)),
      load_model = (\<lambda>_ _. Inr ''m''), model_inputs = (\<lambda>_. []), model_outputs = (\<lambda>_. []),
      create_tensor = (\<lambda>_ cells _. Inr cells),
      run_model = (\<lambda>_ _. Inr []), half_to_float = (\<lambda>_ _. NaN)\<rparr>"


end
