(* ===== verification/Grisu_Arith.thy ===== *)
theory Grisu_Arith
  imports Grisu Doubles
begin

text \<open>
  The arithmetic of \<^verbatim>\<open>Grisu\<close>: products of \<^verbatim>\<open>diyfp\<close> are rounded correctly and do not wrap,
  and the boundaries are half-way to the neighbours of the double.
\<close>

section \<open>diyfp\<close>

lemma u64_id [simp]: "0 \<le> x \<Longrightarrow> x < 2 ^ 64 \<Longrightarrow> u64 x = x"
  by (simp add: u64_def)

lemma u64_range [simp]: "0 \<le> u64 x" "u64 x < 2 ^ 64"
  by (simp_all add: u64_def)

lemma json_assert_simps [simp]: "json_assert msg True = Inr ()" "cond \<Longrightarrow> json_assert msg cond = Inr ()"
  by (simp_all add: json_assert_def)

lemma product_below: "(0 :: int) \<le> a \<Longrightarrow> a < 2 ^ 32 \<Longrightarrow> 0 \<le> b \<Longrightarrow> b < 2 ^ 32 \<Longrightarrow> a * b \<le> (2 ^ 32 - 1) * (2 ^ 32 - 1)"
  by (rule mult_mono) auto

text \<open>The product of the halves is the product, rounded half up.\<close>

lemma diyfp_mul_rounds:
  assumes "0 \<le> df x" and "df x < 2 ^ 64" and "0 \<le> df y" and "df y < 2 ^ 64"
  shows "diyfp_mul x y = Diyfp ((df x * df y + 2 ^ 63) div 2 ^ 64) (de x + de y + 64)"
proof -
  define a b c d where ab: "a = df x div 2 ^ 32" "b = df x mod 2 ^ 32" "c = df y div 2 ^ 32" "d = df y mod 2 ^ 32"
  have r: "0 \<le> a" "a < 2 ^ 32" "0 \<le> b" "b < 2 ^ 32" "0 \<le> c" "c < 2 ^ 32" "0 \<le> d" "d < 2 ^ 32"
    using assms by (auto simp: ab)
  have xy: "df x = a * 2 ^ 32 + b" "df y = c * 2 ^ 32 + d" by (simp_all add: ab)
  note pb = product_below[OF r(3,4,7,8)] product_below[OF r(3,4,5,6)] product_below[OF r(1,2,7,8)] product_below[OF r(1,2,5,6)]
  have p: "u64 (b * d) = b * d" "u64 (b * c) = b * c" "u64 (a * d) = a * d" "u64 (a * c) = a * c"
    using r pb by (intro u64_id; simp)+
  define p0h p0l p1h p1l p2h p2l where ph: "p0h = b * d div 2 ^ 32" "p0l = b * d mod 2 ^ 32"
    "p1h = b * c div 2 ^ 32" "p1l = b * c mod 2 ^ 32" "p2h = a * d div 2 ^ 32" "p2l = a * d mod 2 ^ 32"
  have pe: "b * d = p0h * 2 ^ 32 + p0l" "b * c = p1h * 2 ^ 32 + p1l" "a * d = p2h * 2 ^ 32 + p2l"
    by (simp_all add: ph)
  have l: "0 \<le> p0l" "p0l < 2 ^ 32" "0 \<le> p1l" "p1l < 2 ^ 32" "0 \<le> p2l" "p2l < 2 ^ 32"
    by (simp_all add: ph)
  have nn: "0 \<le> b * d" "0 \<le> b * c" "0 \<le> a * d" "0 \<le> a * c" using r by simp_all
  have h0: "0 \<le> p0h" "0 \<le> p1h" "0 \<le> p2h" using nn by (simp_all add: ph pos_imp_zdiv_nonneg_iff)
  have h1: "p0h < 2 ^ 32" using pe(1) pb(1) l(1) by simp
  define q where "q = p0h + p1l + p2l + 2 ^ 31"
  have q: "0 \<le> q" "q < 2 ^ 34" using l h0 h1 by (simp_all add: q_def)
  define qh where "qh = q div 2 ^ 32"
  have qh: "0 \<le> qh" "qh < 4" using q by (simp_all add: qh_def)
  have Q: "u64 (u64 (p0h + p1l + p2l) + 2 ^ (64 - 32 - 1)) = q"
    using l h0 h1 by (simp add: q_def)
  have prod: "df x * df y = a * c * 2 ^ 64 + (a * d + b * c) * 2 ^ 32 + b * d"
    unfolding xy by (simp add: algebra_simps)
  have "df x * df y + 2 ^ 63 = (a * c + p2h + p1h) * 2 ^ 64 + (q * 2 ^ 32 + p0l)"
    using pe by (simp add: prod q_def)
  moreover have "(q * 2 ^ 32 + p0l) div 2 ^ 64 = qh"
  proof -
    have "(q * 2 ^ 32 + p0l) div 2 ^ 64 = (q * 2 ^ 32 + p0l) div 2 ^ 32 div 2 ^ 32"
      by (simp add: zdiv_zmult2_eq[symmetric])
    then show ?thesis using l(1,2) by (simp add: qh_def div_plus_div_distrib_dvd_left)
  qed
  ultimately have V: "(df x * df y + 2 ^ 63) div 2 ^ 64 = a * c + p2h + p1h + qh" by simp
  have "df x * df y \<le> (2 ^ 64 - 1) * (2 ^ 64 - 1)" using assms by (intro mult_mono) auto
  then have "a * c + p2h + p1h + qh < 2 ^ 64" unfolding V[symmetric] by (simp add: div_less_iff_less_mult)
  then have H: "u64 (a * c + p2h + p1h + qh) = a * c + p2h + p1h + qh" using h0 qh nn by simp
  then show ?thesis
    unfolding diyfp_mul_def Let_def ab(1-4)[symmetric] p ph[symmetric] Q qh_def[symmetric] H V by simp
qed

lemma diyfp_sub_simps: "df y \<le> df x \<Longrightarrow> 0 \<le> df y \<Longrightarrow> df x < 2 ^ 64 \<Longrightarrow> de x = de y \<Longrightarrow>
    diyfp_sub x y = Inr (Diyfp (df x - df y) (de x))"
  by (simp add: diyfp_sub_def)

lemma normalize_loop_top:
  "0 < f \<Longrightarrow> f < 2 ^ 64 \<Longrightarrow>
   \<exists>j. normalize_loop f e = Diyfp (f * 2 ^ j) (e - int j) \<and> 2 ^ 63 \<le> f * 2 ^ j \<and> f * 2 ^ j < 2 ^ 64"
proof (induction f e rule: normalize_loop.induct)
  case (1 f e)
  show ?case
  proof (cases "f < 2 ^ 63")
    case True
    then have u: "f div 2 ^ 63 = 0" "u64 (2 * f) = 2 * f" using 1(2) by (simp_all add: div_pos_pos_trivial)
    from 1(1)[OF conjI[OF 1(2) u(1)]] obtain j where
      "normalize_loop (2 * f) (e - 1) = Diyfp (2 * f * 2 ^ j) (e - 1 - int j)"
      "2 ^ 63 \<le> 2 * f * 2 ^ j" "2 * f * 2 ^ j < 2 ^ 64"
      using 1(2) True u(2) by auto
    then have "normalize_loop f e = Diyfp (f * 2 ^ Suc j) (e - int (Suc j)) \<and> 2 ^ 63 \<le> f * 2 ^ Suc j \<and> f * 2 ^ Suc j < 2 ^ 64"
      using 1(2) u by (subst normalize_loop.simps) (simp add: mult.assoc mult.left_commute)
    then show ?thesis by blast
  next
    case False
    then have "f div 2 ^ 63 \<noteq> 0" using 1(2) by (simp add: div_eq_0_iff)
    then have "normalize_loop f e = Diyfp (f * 2 ^ 0) (e - int 0)" by (subst normalize_loop.simps) simp
    then show ?thesis using False 1(3) by (metis mult.right_neutral not_less power_0)
  qed
qed

section \<open>Boundaries\<close>

lemma double_bits:
  assumes "double_parts n u"
  shows "reinterpret_bits (of_int n * pow2 u) = (if n < 2 ^ 52 then n else (u + 1075) * 2 ^ 52 + (n - 2 ^ 52))"
proof (cases "n < 2 ^ 52")
  case True
  then have u: "u = - 1074" using assms by (simp add: double_parts_def)
  have "(of_int n :: rat) < 2 ^ 52" using True of_int_less_iff[of n "2 ^ 52", where 'a = rat] by simp
  from mult_strict_right_mono[OF this pow2_pos[of u]]
  have "of_int n * pow2 u < pow2 (52 + u)" by (simp add: pow2_add pow2_def[of 52])
  then have "of_int n * pow2 u < pow2 (- 1022)" by (simp add: u)
  then show ?thesis using True by (simp add: reinterpret_bits_def u)
next
  case False
  note u = assms[unfolded double_parts_def]
  have n: "(2 ^ 52 :: rat) \<le> of_int n" "(of_int n :: rat) < 2 ^ 53"
    using False of_int_le_iff[of "2 ^ 52" n, where 'a = rat] u of_int_less_iff[of n "2 ^ 53", where 'a = rat] by simp_all
  have b: "pow2 (u + 52) \<le> of_int n * pow2 u" "of_int n * pow2 u < pow2 (u + 52 + 1)"
    using mult_right_mono[OF n(1) less_imp_le[OF pow2_pos[of u]]] mult_strict_right_mono[OF n(2) pow2_pos[of u]]
    by (simp_all add: pow2_add pow2_def[of 52] pow2_def[of 53] add.assoc mult.commute)
  have "\<not> of_int n * pow2 u < pow2 (- 1022)"
  proof -
    have "pow2 (- 1022) \<le> pow2 (u + 52)" using u by simp
    with b(1) show ?thesis by linarith
  qed
  moreover have "floor_log2 (of_int n * pow2 u) = u + 52" by (rule floor_log2_unique[OF b])
  ultimately show ?thesis using False by (simp add: reinterpret_bits_def Let_def)
qed

lemma normalize_to_simps:
  assumes "0 \<le> f" and "f * 2 ^ j < 2 ^ 64"
  shows "normalize_to (Diyfp f e) (e - int j) = Inr (Diyfp (f * 2 ^ j) (e - int j))"
  using assms by (simp add: normalize_to_def)

text \<open>
  The boundaries of a double with significand \<open>n\<close> and exponent \<open>u\<close>, at the exponent
  \<open>u - 1 - j\<close> they share.
\<close>

definition scaled_lower :: "int \<Rightarrow> int \<Rightarrow> nat \<Rightarrow> int" where
  "scaled_lower n u j = (if n = 2 ^ 52 \<and> - 1074 < u then (4 * n - 1) * 2 ^ (j - 1) else (2 * n - 1) * 2 ^ j)"

lemma same_top:
  assumes n: "(0 :: int) < n" and i: "2 ^ 63 \<le> n * 2 ^ i" "n * 2 ^ i < 2 ^ 64"
    and j: "2 ^ 63 \<le> (2 * n + 1) * 2 ^ j" "(2 * n + 1) * 2 ^ j < 2 ^ 64"
  shows "i = Suc j"
proof -
  have j62: "j \<le> 62"
  proof (rule ccontr)
    assume "\<not> j \<le> 62"
    then have "(2 :: int) ^ 63 \<le> 2 ^ j" by (intro power_increasing) auto
    then have "(2 * n + 1) * 2 ^ 63 \<le> (2 * n + 1) * 2 ^ j" using n by (intro mult_left_mono) auto
    then show False using j(2) n by simp
  qed
  have "\<not> i \<le> j"
  proof
    assume "i \<le> j"
    then have "(2 :: int) ^ i \<le> 2 ^ j" by (intro power_increasing) auto
    then have "n * 2 ^ i \<le> n * 2 ^ j" using n by (intro mult_left_mono) auto
    then show False using i(1) j(2) by (simp add: algebra_simps) (use zero_less_power[of "2::int" j] in linarith)
  qed
  moreover have "\<not> Suc (Suc j) \<le> i"
  proof
    assume "Suc (Suc j) \<le> i"
    then have "(2 :: int) ^ Suc (Suc j) \<le> 2 ^ i" by (intro power_increasing) auto
    then have "n * 2 ^ Suc (Suc j) \<le> n * 2 ^ i" using n by (intro mult_left_mono) auto
    then have "n * 2 ^ j < 2 ^ 62" using i(2) by simp
    also have "(2 :: int) ^ 62 = 2 ^ (62 - j) * 2 ^ j" using j62 by (simp add: power_add[symmetric])
    finally have "n < 2 ^ (62 - j)" by simp
    then have "2 * n + 1 \<le> 2 * 2 ^ (62 - j) - 1" by simp
    then have "(2 * n + 1) * 2 ^ j \<le> (2 * 2 ^ (62 - j) - 1) * 2 ^ j" by (intro mult_right_mono) auto
    also have "\<dots> = 2 ^ 63 - 2 ^ j" using j62 by (simp add: left_diff_distrib power_add[symmetric])
    finally show False using j(1) zero_less_power[of "2::int" j] by linarith
  qed
  ultimately show ?thesis by simp
qed

lemma compute_boundaries_parts:
  assumes p: "double_parts n u"
  shows "\<exists>j \<ge> 10. 2 ^ 63 \<le> (2 * n + 1) * 2 ^ j \<and> (2 * n + 1) * 2 ^ j < 2 ^ 64 \<and>
    compute_boundaries (of_int n * pow2 u) =
      Inr (Diyfp (2 * n * 2 ^ j) (u - 1 - int j), Diyfp (scaled_lower n u j) (u - 1 - int j),
           Diyfp ((2 * n + 1) * 2 ^ j) (u - 1 - int j))"
proof -
  have n: "0 < n" "n < 2 ^ 53" and u: "- 1074 \<le> u" "u \<le> 971" using p by (auto simp: double_parts_def)
  define bits where "bits = reinterpret_bits (of_int n * pow2 u)"
  define E where "E = bits div 2 ^ nat (kPrecision - 1)"
  define F where "F = bits mod kHiddenBit"
  have k: "2 ^ nat (kPrecision - 1) = (2 ^ 52 :: int)" "kHiddenBit = 2 ^ 52" "kBias = 1075"
    by (simp_all add: kPrecision_def kHiddenBit_def kBias_def)
  have EF: "(if E = 0 then Diyfp F (1 - kBias) else Diyfp (F + kHiddenBit) (E - kBias)) = Diyfp n u \<and>
      ((F = 0 \<and> 1 < E) = (n = 2 ^ 52 \<and> - 1074 < u))"
  proof (cases "n < 2 ^ 52")
    case True
    then have "E = 0" "F = n" "u = - 1074"
      using p n by (simp_all add: E_def F_def bits_def double_bits double_parts_def k)
    then show ?thesis using n by (simp add: k)
  next
    case False
    then have b: "bits = 2 ^ 52 * (u + 1075) + (n - 2 ^ 52)" using p by (simp add: bits_def double_bits)
    have r: "0 \<le> n - 2 ^ 52" "n - 2 ^ 52 < 2 ^ 52" using False n by simp_all
    have "E = u + 1075" "F = n - 2 ^ 52"
      unfolding E_def F_def k by (rule int_div_pos_eq[OF b r], rule int_mod_pos_eq[OF b r])
    then show ?thesis using u by (auto simp: k)
  qed
  have pos: "0 < (of_int n * pow2 u :: rat)" using n by simp
  obtain j where j: "normalize_loop (2 * n + 1) (u - 1) = Diyfp ((2 * n + 1) * 2 ^ j) (u - 1 - int j)"
    "2 ^ 63 \<le> (2 * n + 1) * 2 ^ j" "(2 * n + 1) * 2 ^ j < 2 ^ 64"
    using normalize_loop_top[of "2 * n + 1" "u - 1"] n by auto
  obtain i where i: "normalize_loop n u = Diyfp (n * 2 ^ i) (u - int i)" "2 ^ 63 \<le> n * 2 ^ i" "n * 2 ^ i < 2 ^ 64"
    using normalize_loop_top[of n u] n by auto
  have j10: "10 \<le> j"
  proof (rule ccontr)
    assume "\<not> 10 \<le> j"
    then have "(2 :: int) ^ j \<le> 2 ^ 9" by (intro power_increasing) auto
    then have "(2 * n + 1) * 2 ^ j \<le> (2 * n + 1) * 2 ^ 9" using n by (intro mult_left_mono) auto
    then show False using j(2) n by simp
  qed
  have ij: "i = Suc j" by (rule same_top[OF n(1) i(2,3) j(2,3)])
  have sl: "normalize_to (if n = 2 ^ 52 \<and> - 1074 < u then Diyfp (u64 (4 * n - 1)) (u - 2) else Diyfp (u64 (2 * n - 1)) (u - 1))
      (u - 1 - int j) = Inr (Diyfp (scaled_lower n u j) (u - 1 - int j))"
  proof (cases "n = 2 ^ 52 \<and> - 1074 < u")
    case True
    have e: "u - 1 - int j = u - 2 - int (j - 1)" using j10 by simp
    have "(4 * n - 1) * 2 ^ (j - 1) \<le> (2 * n + 1) * 2 * 2 ^ (j - 1)" by (intro mult_right_mono) auto
    also have "\<dots> = (2 * n + 1) * 2 ^ j" using j10 by (cases j) simp_all
    finally have "(4 * n - 1) * 2 ^ (j - 1) < 2 ^ 64" using j(3) by linarith
    from normalize_to_simps[OF _ this, of "u - 2"] n True show ?thesis
      unfolding e by (simp add: scaled_lower_def del: of_nat_diff)
  next
    case False
    have "(2 * n - 1) * 2 ^ j \<le> (2 * n + 1) * 2 ^ j" by (intro mult_right_mono) auto
    then have "(2 * n - 1) * 2 ^ j < 2 ^ 64" using j(3) by linarith
    from normalize_to_simps[OF _ this, of "u - 1"] n False show ?thesis by (auto simp: scaled_lower_def)
  qed
  have "compute_boundaries (of_int n * pow2 u) =
      andThen (diyfp_normalize (Diyfp (u64 (2 * n + 1)) (u - 1))) (\<lambda>w_plus.
      andThen (normalize_to (if n = 2 ^ 52 \<and> - 1074 < u then Diyfp (u64 (4 * n - 1)) (u - 2) else Diyfp (u64 (2 * n - 1)) (u - 1)) (de w_plus))
      (\<lambda>w_minus. andThen (diyfp_normalize (Diyfp n u)) (\<lambda>w. Inr (w, w_minus, w_plus))))"
    unfolding compute_boundaries_def Let_def bits_def[symmetric] E_def[symmetric] F_def[symmetric] conjunct1[OF EF] conjunct2[OF EF]
    using pos by simp
  also have "\<dots> = Inr (Diyfp (n * 2 ^ i) (u - int i), Diyfp (scaled_lower n u j) (u - 1 - int j),
      Diyfp ((2 * n + 1) * 2 ^ j) (u - 1 - int j))"
    using n i(1) j(1) sl by (simp add: diyfp_normalize_def)
  finally have "compute_boundaries (of_int n * pow2 u) =
      Inr (Diyfp (2 * n * 2 ^ j) (u - 1 - int j), Diyfp (scaled_lower n u j) (u - 1 - int j),
           Diyfp ((2 * n + 1) * 2 ^ j) (u - 1 - int j))" by (simp add: ij)
  with j10 j(2,3) show ?thesis by blast
qed

end
