(* ===== verification/Grisu_Powers.thy ===== *)
theory Grisu_Powers
  imports Grisu_Arith
begin

text \<open>
  The table of cached powers of ten of \<^verbatim>\<open>Grisu\<close>: every entry is the power of ten it stands for to
  half a unit in its last place, and for the exponents of doubles the lookup passes its assertions.
\<close>

section \<open>Cached powers\<close>

text \<open>An entry fits the exponents it serves, and is a power of ten to half a unit in its last place.\<close>

definition entry_fits :: "int \<times> int \<times> int \<Rightarrow> bool" where
  "entry_fits c = (case c of (cf, ce, ck) \<Rightarrow> 2 ^ 63 \<le> cf \<and> cf < 2 ^ 64 \<and>
     78913 * (ce + 34) < 2 ^ 18 * (ck - 8) \<and> 2 ^ 18 * ck < 78913 * (ce + 64))"

lemma entries_fit: "list_all entry_fits kCachedPowers"
  by (simp add: kCachedPowers_def entry_fits_def)

definition entry_near :: "int \<times> int \<times> int \<Rightarrow> bool" where
  "entry_near c = (case c of (cf, ce, ck) \<Rightarrow>
     (2 * of_int cf - 1) * pow2 (ce - 1) \<le> 10 powi ck \<and> 10 powi ck \<le> (2 * of_int cf + 1) * pow2 (ce - 1))"

text \<open>
  The powers are computed from \<open>10 ^ 4\<close> upwards as intervals of 80-bit numbers, each compared with
  its entry and, inverted, with the entry of the opposite exponent.
\<close>

definition fits_pos :: "int \<Rightarrow> int \<Rightarrow> int \<Rightarrow> bool" where
  "fits_pos lo hi cf \<longleftrightarrow> (2 * cf - 1) * 2 ^ 16 \<le> 2 * lo \<and> 2 * hi \<le> (2 * cf + 1) * 2 ^ 16"

definition fits_neg :: "int \<Rightarrow> int \<Rightarrow> int \<Rightarrow> int \<Rightarrow> bool" where
  "fits_neg lo hi nf t \<longleftrightarrow> 1 \<le> nf \<and> 0 \<le> t \<and> (2 * nf - 1) * hi \<le> 2 ^ nat t \<and> 2 ^ nat t \<le> (2 * nf + 1) * lo"

definition next_lo :: "int \<Rightarrow> int \<Rightarrow> int" where
  "next_lo lo d = lo * 390625 div 2 ^ nat (d - 8)"

definition next_hi :: "int \<Rightarrow> int \<Rightarrow> int" where
  "next_hi hi d = hi * 390625 div 2 ^ nat (d - 8) + 1"

fun powers_ok :: "int \<Rightarrow> int \<Rightarrow> int \<Rightarrow> int \<Rightarrow> (int \<times> int \<times> int) list \<Rightarrow> (int \<times> int \<times> int) list \<Rightarrow> bool" where
  "powers_ok lo hi e k neg [] = (neg = [])"
| "powers_ok lo hi e k [] ((cf, ce, ck) # pos) =
     (if e + 8 \<le> ce \<and> ck = k + 8 \<and> fits_pos (next_lo lo (ce - e)) (next_hi hi (ce - e)) cf
      then powers_ok (next_lo lo (ce - e)) (next_hi hi (ce - e)) ce ck [] pos else False)"
| "powers_ok lo hi e k ((nf, ne, nk) # neg) ((cf, ce, ck) # pos) =
     (if e + 8 \<le> ce \<and> ck = k + 8 \<and> nk = - ck \<and> fits_pos (next_lo lo (ce - e)) (next_hi hi (ce - e)) cf \<and>
         fits_neg (next_lo lo (ce - e)) (next_hi hi (ce - e)) nf (17 - ne - ce)
      then powers_ok (next_lo lo (ce - e)) (next_hi hi (ce - e)) ce ck neg pos else False)"

definition encloses :: "int \<Rightarrow> int \<Rightarrow> int \<Rightarrow> int \<Rightarrow> bool" where
  "encloses lo hi e k \<longleftrightarrow> of_int lo * pow2 (e - 16) \<le> 10 powi k \<and> 10 powi k \<le> of_int hi * pow2 (e - 16)"

lemma div_pow2_bounds: "(x :: int) div 2 ^ m * 2 ^ m \<le> x" "x < x div 2 ^ m * 2 ^ m + 2 ^ m"
  using div_mult_mod_eq[of x "2 ^ m"] pos_mod_sign[of "2 ^ m" x] pos_mod_bound[of "2 ^ m" x]
    zero_less_power[of "2 :: int" m] by linarith+

lemma encloses_next:
  assumes "encloses lo hi e k" and "8 \<le> d"
  shows "encloses (next_lo lo d) (next_hi hi d) (e + d) (k + 8)"
proof -
  define m where "m = nat (d - 8)"
  have ten: "(10 :: rat) powi (k + 8) = 10 powi k * 100000000" by (simp add: power_int_add)
  have "e + d - 16 = int m + (8 + (e - 16))" using assms(2) by (simp add: m_def)
  then have sc: "pow2 (e + d - 16) = 2 ^ m * (256 * pow2 (e - 16))"
    by (simp only: pow2_add pow2_nat) (simp add: pow2_def[of 8])
  have "next_lo lo d * 2 ^ m \<le> lo * 390625" "hi * 390625 \<le> next_hi hi d * 2 ^ m"
    using div_pow2_bounds[of "lo * 390625" m] div_pow2_bounds[of "hi * 390625" m]
    by (simp_all add: next_lo_def next_hi_def m_def[symmetric] distrib_right)
  then have "(of_int (next_lo lo d * 2 ^ m) :: rat) \<le> of_int (lo * 390625)" "(of_int (hi * 390625) :: rat) \<le> of_int (next_hi hi d * 2 ^ m)"
    by (simp_all only: of_int_le_iff)
  then have i: "of_int (next_lo lo d) * 2 ^ m \<le> of_int lo * (390625 :: rat)" "of_int hi * 390625 \<le> of_int (next_hi hi d) * (2 :: rat) ^ m"
    by simp_all
  define W where "W = pow2 (e - 16)"
  have p: "0 \<le> 256 * W" by (simp add: W_def less_imp_le)
  have "of_int (next_lo lo d) * (2 ^ m * (256 * W)) \<le> 100000000 * (of_int lo * W)"
    using mult_right_mono[OF i(1) p] by (simp only: mult.assoc)
  moreover have "100000000 * (of_int hi * W) \<le> of_int (next_hi hi d) * (2 ^ m * (256 * W))"
    using mult_right_mono[OF i(2) p] by (simp only: mult.assoc)
  ultimately show ?thesis
    using assms(1) unfolding encloses_def ten sc W_def[symmetric] by linarith
qed

lemma entry_near_pos:
  assumes "encloses lo hi ce ck" and "fits_pos lo hi cf"
  shows "entry_near (cf, ce, ck)"
proof -
  have sc: "pow2 (ce - 1) = 2 ^ 15 * pow2 (ce - 16)" using pow2_add[of 15 "ce - 16"] by (simp add: pow2_def[of 15])
  have "(of_int ((2 * cf - 1) * 2 ^ 16) :: rat) \<le> of_int (2 * lo)" "(of_int (2 * hi) :: rat) \<le> of_int ((2 * cf + 1) * 2 ^ 16)"
    using assms(2) by (simp_all only: of_int_le_iff fits_pos_def)
  then have i: "(2 * of_int cf - 1) * 2 ^ 15 \<le> (of_int lo :: rat)" "(of_int hi :: rat) \<le> (2 * of_int cf + 1) * 2 ^ 15"
    by simp_all
  have p: "0 \<le> pow2 (ce - 16)" by (simp add: less_imp_le)
  show ?thesis
    using assms(1) mult_right_mono[OF i(1) p] mult_right_mono[OF i(2) p]
    unfolding encloses_def by (simp add: entry_near_def sc algebra_simps)
qed

lemma entry_near_neg:
  assumes "encloses lo hi ce ck" and "fits_neg lo hi nf (17 - ne - ce)"
  shows "entry_near (nf, ne, - ck)"
proof -
  define P where "P = (10 :: rat) powi ck"
  have P: "0 < P" by (simp add: P_def)
  have t: "0 \<le> 17 - ne - ce" and nf: "(1 :: rat) \<le> of_int nf"
    using assms(2) by (simp_all add: fits_neg_def)
  have i0: "(of_int ((2 * nf - 1) * hi) :: rat) \<le> of_int (2 ^ nat (17 - ne - ce))"
    "(of_int (2 ^ nat (17 - ne - ce)) :: rat) \<le> of_int ((2 * nf + 1) * lo)"
    using assms(2) by (simp_all only: of_int_le_iff fits_neg_def)
  have "(of_int (2 ^ nat (17 - ne - ce)) :: rat) = pow2 (17 - ne - ce)" using t by (simp add: pow2_def)
  with i0 have i: "(2 * of_int nf - 1) * of_int hi \<le> pow2 (17 - ne - ce)" "pow2 (17 - ne - ce) \<le> (2 * of_int nf + 1) * of_int lo"
    by simp_all
  have p: "0 \<le> pow2 (ce - 16)" by (simp add: less_imp_le)
  have sc: "pow2 (17 - ne - ce) * pow2 (ce - 16) = pow2 (1 - ne)" by (simp add: pow2_add[symmetric])
  have e: "of_int lo * pow2 (ce - 16) \<le> P" "P \<le> of_int hi * pow2 (ce - 16)"
    using assms(1) by (simp_all add: encloses_def P_def)
  have "(2 * of_int nf - 1) * P \<le> (2 * of_int nf - 1) * (of_int hi * pow2 (ce - 16))"
    using e(2) nf by (intro mult_left_mono) simp_all
  also have "\<dots> \<le> pow2 (1 - ne)" using mult_right_mono[OF i(1) p] unfolding sc by (simp add: mult.assoc)
  finally have 1: "(2 * of_int nf - 1) * P \<le> pow2 (1 - ne)" .
  have "pow2 (1 - ne) \<le> (2 * of_int nf + 1) * (of_int lo * pow2 (ce - 16))"
    using mult_right_mono[OF i(2) p] unfolding sc by (simp add: mult.assoc)
  also have "\<dots> \<le> (2 * of_int nf + 1) * P" using e(1) nf by (intro mult_left_mono) simp_all
  finally have 2: "pow2 (1 - ne) \<le> (2 * of_int nf + 1) * P" .
  have inv: "pow2 (1 - ne) = inverse (pow2 (ne - 1))" "10 powi (- ck) = inverse P"
    by (simp_all add: pow2_powi P_def power_int_minus[symmetric])
  define T where "T = pow2 (ne - 1)"
  have T: "0 < T" by (simp add: T_def)
  have "(2 * of_int nf - 1) * T \<le> inverse P" "inverse P \<le> (2 * of_int nf + 1) * T"
    using 1 2 P T unfolding inv T_def[symmetric] by (simp_all add: field_simps)
  then show ?thesis by (simp add: entry_near_def inv(2) T_def)
qed

lemma powers_ok_near:
  "encloses lo hi e k \<Longrightarrow> powers_ok lo hi e k neg pos \<Longrightarrow> list_all entry_near neg \<and> list_all entry_near pos"
proof (induction lo hi e k neg pos rule: powers_ok.induct)
  case (2 lo hi e k cf ce ck pos)
  from 2(3) have c: "e + 8 \<le> ce" "ck = k + 8" "fits_pos (next_lo lo (ce - e)) (next_hi hi (ce - e)) cf"
    and r: "powers_ok (next_lo lo (ce - e)) (next_hi hi (ce - e)) ce ck [] pos" by (auto split: if_splits)
  have "encloses (next_lo lo (ce - e)) (next_hi hi (ce - e)) ce ck"
    using encloses_next[OF 2(2), of "ce - e"] c by simp
  with 2(1)[OF conjI[OF c(1) conjI[OF c(2,3)]] this r] c show ?case by (simp add: entry_near_pos)
next
  case (3 lo hi e k nf ne nk neg cf ce ck pos)
  from 3(3) have c: "e + 8 \<le> ce" "ck = k + 8" "nk = - ck" "fits_pos (next_lo lo (ce - e)) (next_hi hi (ce - e)) cf"
      "fits_neg (next_lo lo (ce - e)) (next_hi hi (ce - e)) nf (17 - ne - ce)"
    and r: "powers_ok (next_lo lo (ce - e)) (next_hi hi (ce - e)) ce ck neg pos" by (auto split: if_splits)
  have "encloses (next_lo lo (ce - e)) (next_hi hi (ce - e)) ce ck"
    using encloses_next[OF 3(2), of "ce - e"] c by simp
  note n = entry_near_pos[OF this c(4)] entry_near_neg[OF this c(5), folded c(3)] 3(1)[OF _ this r]
  show ?case using n c by simp
qed simp

lemma powers_run:
  "powers_ok (0x9C40000000000000 * 2 ^ 16) (0x9C40000000000000 * 2 ^ 16) (- 50) 4
     (rev (take 37 kCachedPowers)) (drop 39 kCachedPowers)"
  by (simp add: kCachedPowers_def next_lo_def next_hi_def fits_pos_def fits_neg_def)

lemma entries_near: "list_all entry_near kCachedPowers"
proof -
  have a: "encloses (0x9C40000000000000 * 2 ^ 16) (0x9C40000000000000 * 2 ^ 16) (- 50) 4"
    by (simp add: encloses_def pow2_def power_int_def)
  have m: "entry_near (kCachedPowers ! 37)" "entry_near (kCachedPowers ! 38)"
    using entry_near_neg[OF a, of "0xD1B71758E219652C" "- 77"] entry_near_pos[OF a, of "0x9C40000000000000"]
    by (simp_all add: kCachedPowers_def fits_neg_def fits_pos_def)
  have "kCachedPowers = take 37 kCachedPowers @ [kCachedPowers ! 37, kCachedPowers ! 38] @ drop 39 kCachedPowers"
    by (simp add: kCachedPowers_def)
  then have "list_all entry_near kCachedPowers \<longleftrightarrow> list_all entry_near (take 37 kCachedPowers) \<and>
      list_all entry_near [kCachedPowers ! 37, kCachedPowers ! 38] \<and> list_all entry_near (drop 39 kCachedPowers)"
    by (metis list_all_append)
  then show ?thesis using powers_ok_near[OF a powers_run] m by simp
qed

lemma kCachedPowers_length: "length kCachedPowers = 79"
  by (simp add: kCachedPowers_def)

lemma kCachedPowers_exponents: "map (\<lambda>c. snd (snd c)) kCachedPowers = map (\<lambda>i. 8 * int i - 300) [0..<79]"
  by (simp add: kCachedPowers_def upt_rec)

lemma sdiv_div: "0 \<le> a \<Longrightarrow> 0 < b \<Longrightarrow> a sdiv b = (a :: int) div b"
  by (cases "a = 0") (simp_all add: signed_divide_int_def)

lemma sdiv_neg: "a \<le> 0 \<Longrightarrow> 0 < b \<Longrightarrow> a sdiv b = - ((- a :: int) div b)"
  by (cases "a = 0") (simp_all add: signed_divide_int_def)

lemma cached_index_range:
  assumes "- 1137 \<le> e" and "e \<le> 960"
  shows "0 \<le> cached_index e \<and> cached_index e < 79 \<and>
    2 ^ 18 * (8 * cached_index e - 308) \<le> 78913 * (- 61 - e) \<and> 78913 * (- 61 - e) \<le> 2 ^ 18 * (8 * cached_index e - 300)"
proof -
  define f where "f = - 61 - e"
  define k where "k = (f * 78913) sdiv 2 ^ 18 + (if f > 0 then 1 else 0)"
  have f: "- 1021 \<le> f" "f \<le> 1076" using assms by (simp_all add: f_def)
  have k: "2 ^ 18 * (k - 1) \<le> 78913 * f" "78913 * f \<le> 2 ^ 18 * k"
  proof -
    have "2 ^ 18 * (k - 1) \<le> 78913 * f \<and> 78913 * f \<le> 2 ^ 18 * k"
    proof (cases "f > 0")
      case True
      then have "k = f * 78913 div 2 ^ 18 + 1" by (simp add: k_def sdiv_div)
      then show ?thesis by simp linarith
    next
      case False
      then have "k = - ((- f * 78913) div 2 ^ 18)" by (simp add: k_def sdiv_neg)
      then show ?thesis by simp linarith
    qed
    then show "2 ^ 18 * (k - 1) \<le> 78913 * f" "78913 * f \<le> 2 ^ 18 * k" by auto
  qed
  have r: "- 307 \<le> k" "k \<le> 324" using k f by simp_all
  have "cached_index e = (307 + k) sdiv 8"
    by (simp add: cached_index_def kAlpha_def Let_def k_def f_def)
  then have i: "cached_index e = (307 + k) div 8" using r by (simp add: sdiv_div)
  then show ?thesis using k r unfolding f_def[symmetric] by auto
qed

lemma cached_power_found:
  assumes e: "- 1137 \<le> e" "e \<le> 960"
  shows "\<exists>c ce ck. get_cached_power_for_binary_exponent e = Inr (c, ce, ck) \<and> entry_fits (c, ce, ck) \<and> entry_near (c, ce, ck) \<and>
    - 60 \<le> ce + e + 64 \<and> ce + e + 64 \<le> - 32 \<and> \<bar>ck\<bar> \<le> 324"
proof -
  define i where "i = cached_index e"
  note r = cached_index_range[OF e, folded i_def]
  obtain c ce ck where c: "kCachedPowers ! nat i = (c, ce, ck)" by (cases "kCachedPowers ! nat i")
  have l: "nat i < length kCachedPowers" using r by (simp add: kCachedPowers_length nat_less_iff)
  have ok: "entry_fits (c, ce, ck)" "entry_near (c, ce, ck)"
    using entries_fit entries_near l c by (metis list_all_length)+
  have "ck = map (\<lambda>c. snd (snd c)) kCachedPowers ! nat i" using l c by simp
  also have "\<dots> = 8 * i - 300" unfolding kCachedPowers_exponents using r by (simp add: nat_less_iff)
  finally have ck: "ck = 8 * i - 300" .
  have "78913 * (ce + 34) < 78913 * (- 61 - e)" "78913 * (- 61 - e) < 78913 * (ce + 64)"
    using ok(1) r by (simp_all add: entry_fits_def ck)
  then have b: "- 60 \<le> ce + e + 64" "ce + e + 64 \<le> - 32" by simp_all
  then have "get_cached_power_for_binary_exponent e = Inr (c, ce, ck)"
    using e r l c by (simp add: kCachedPowers_length get_cached_power_for_binary_exponent_def Let_def i_def[symmetric] kAlpha_def kGamma_def)
  moreover have "\<bar>ck\<bar> \<le> 324" using ck r by (simp add: abs_le_iff)
  ultimately show ?thesis using ok b by blast
qed

end
