(* ===== verification/Grisu_Digits.thy ===== *)
theory Grisu_Digits
  imports Grisu_Arith
begin

text \<open>
  Digit generation of \<^verbatim>\<open>Grisu\<close>: no assertion fails, nothing wraps, the loops end, and the digits
  denote a number between the boundaries.
\<close>

section \<open>Digits\<close>

definition digits_num :: "nat list \<Rightarrow> int" where
  "digits_num ds = foldl (\<lambda>a d. 10 * a + int d) 0 ds"

lemma digits_num_simps [simp]:
  "digits_num [] = 0" "digits_num (ds @ [d]) = 10 * digits_num ds + int d"
  by (simp_all add: digits_num_def)

text \<open>The digits of a number: not empty, no leading zero.\<close>

definition good_digits :: "nat list \<Rightarrow> bool" where
  "good_digits ds \<longleftrightarrow> ds \<noteq> [] \<and> 1 \<le> hd ds \<and> (\<forall>d \<in> set ds. d \<le> 9)"

lemma digit_bounds:
  assumes "(0 :: int) \<le> x" and "x < 10 * b" and "0 < b"
  shows "0 \<le> x div b" "x div b \<le> 9" "b \<le> x \<Longrightarrow> 1 \<le> x div b"
proof -
  have e: "x div b * b + x mod b = x" "0 \<le> x mod b" "x mod b < b"
    using assms(3) by simp_all
  show "0 \<le> x div b" using assms by (simp add: pos_imp_zdiv_nonneg_iff)
  show "x div b \<le> 9"
  proof (rule ccontr)
    assume "\<not> x div b \<le> 9"
    then have "10 * b \<le> x div b * b" using assms(3) by (intro mult_right_mono) auto
    then show False using e assms(2) by linarith
  qed
  show "1 \<le> x div b" if "b \<le> x"
  proof (rule ccontr)
    assume "\<not> 1 \<le> x div b"
    then have "x div b * b \<le> 0 * b" using assms(3) by (intro mult_right_mono) auto
    then show False using e that by linarith
  qed
qed

lemma good_digits_snoc:
  "good_digits (ds @ [d]) \<longleftrightarrow> (if ds = [] then 1 \<le> d else good_digits ds) \<and> d \<le> 9"
  by (auto simp: good_digits_def)

text \<open>
  The rounding takes whole units from the last digit as long as the rest stays within
  \<open>delta\<close>. A digit is never taken below one.
\<close>

lemma round_loop_keeps:
  assumes "0 \<le> rest" and "rest \<le> delta" and "delta < 2 ^ 64" and "0 \<le> dst" and "dst \<le> delta" and "0 < ten_k"
    and "good_digits (ds @ [d])" and "delta < rest + ten_k * int d"
  shows "\<exists>d' rest'. round_loop (ds @ [d]) dst delta rest ten_k = Inr (ds @ [d']) \<and> good_digits (ds @ [d']) \<and>
     0 \<le> rest' \<and> rest' \<le> delta \<and> rest' + ten_k * int d' = rest + ten_k * int d"
  using assms
proof (induction "ds @ [d]" dst delta rest ten_k arbitrary: d rule: round_loop.induct)
  case (1 dst delta rest ten_k d)
  note p = 1(2-9)
  show ?case
  proof (cases "round_further dst delta rest ten_k")
    case False
    then have "round_loop (ds @ [d]) dst delta rest ten_k = Inr (ds @ [d])" by (subst round_loop.simps) simp
    then show ?thesis using p by blast
  next
    case True
    have "u64 (delta - rest) = delta - rest" using p by (intro u64_id) linarith+
    then have f: "rest < dst" "ten_k \<le> delta - rest" using True by (simp_all add: round_further_def)
    have u: "u64 (rest + ten_k) = rest + ten_k" using p f by (intro u64_id) linarith+
    then have u': "\<not> u64 (rest + ten_k) \<le> rest" using p by simp
    have d2: "2 \<le> d"
    proof (rule ccontr)
      assume "\<not> 2 \<le> d"
      then have "ten_k * int d \<le> ten_k * 1" using p(6) by (intro mult_left_mono) auto
      then show False using p(8) f(2) by simp
    qed
    have i: "int (d - 1) = int d - 1" using d2 by simp
    have step: "round_loop (ds @ [d]) dst delta rest ten_k = round_loop (ds @ [d - 1]) dst delta (rest + ten_k) ten_k"
      using True u u' d2 by (subst round_loop.simps) simp
    have "\<exists>d' rest'. round_loop (ds @ [d - 1]) dst delta (u64 (rest + ten_k)) ten_k = Inr (ds @ [d']) \<and> good_digits (ds @ [d']) \<and>
       0 \<le> rest' \<and> rest' \<le> delta \<and> rest' + ten_k * int d' = u64 (rest + ten_k) + ten_k * int (d - 1)"
    proof (rule 1(1))
      show "\<not> (\<not> round_further dst delta rest ten_k \<or> u64 (rest + ten_k) \<le> rest)" using True u' by simp
      show "good_digits (ds @ [d - 1])" using p(7) d2 by (auto simp: good_digits_snoc)
      show "delta < u64 (rest + ten_k) + ten_k * int (d - 1)" using p(8) u i by (simp add: right_diff_distrib)
    qed (use p f u d2 in auto)
    then show ?thesis unfolding step u i by (simp add: right_diff_distrib)
  qed
qed

lemma grisu2_round_keeps:
  assumes "0 \<le> rest" and "rest \<le> delta" and "delta < 2 ^ 64" and "0 \<le> dst" and "dst \<le> delta" and "0 < ten_k"
    and "good_digits (ds @ [d])" and "delta < rest + ten_k * int d"
  shows "\<exists>ds' rest'. grisu2_round (ds @ [d]) dst delta rest ten_k = Inr ds' \<and> good_digits ds' \<and>
     length ds' = Suc (length ds) \<and> 0 \<le> rest' \<and> rest' \<le> delta \<and>
     rest' + ten_k * digits_num ds' = rest + ten_k * digits_num (ds @ [d])"
proof -
  obtain d' rest' where r: "round_loop (ds @ [d]) dst delta rest ten_k = Inr (ds @ [d'])" "good_digits (ds @ [d'])"
    "0 \<le> rest'" "rest' \<le> delta" "rest' + ten_k * int d' = rest + ten_k * int d"
    using round_loop_keeps[OF assms] by blast
  have "grisu2_round (ds @ [d]) dst delta rest ten_k = Inr (ds @ [d'])"
    using assms r(1) by (simp add: grisu2_round_def)
  moreover have "rest' + ten_k * digits_num (ds @ [d']) = rest + ten_k * digits_num (ds @ [d])"
    using r(5) by (simp add: distrib_left)
  ultimately show ?thesis using r(2-4) by (intro exI[of _ "ds @ [d']"] exI[of _ rest']) simp
qed

lemma find_largest_pow10_bounds:
  assumes "0 < p1" and "p1 < 2 ^ 32"
  shows "\<exists>k. find_largest_pow10 p1 = (Suc k, 10 ^ k) \<and> k \<le> 9 \<and> 10 ^ k \<le> p1 \<and> p1 < 10 ^ Suc k"
proof -
  define k where "k = fst (find_largest_pow10 p1) - 1"
  have "find_largest_pow10 p1 = (Suc k, 10 ^ k) \<and> k \<le> 9 \<and> 10 ^ k \<le> p1 \<and> p1 < 10 ^ Suc k"
    using assms by (simp add: find_largest_pow10_def k_def)
  then show ?thesis by blast
qed


text \<open>
  The digits of the integral part. The scaled number is what the buffer denotes and what is
  left of it; the loop stops when what is left is at most \<open>delta\<close>.
\<close>

lemma integral_digits_sound:
  assumes "0 \<le> p1" and "p1 < 10 ^ n" and "0 \<le> p2" and "p2 < 2 ^ s" and "p1 * 2 ^ s + p2 < 2 ^ 64"
    and "0 \<le> dst" and "dst \<le> delta" and "delta < p1 * 2 ^ s + p2"
    and "0 < n \<Longrightarrow> pow10 = 10 ^ (n - 1)" and "ds = [] \<Longrightarrow> 0 < n \<and> pow10 \<le> p1" and "ds \<noteq> [] \<Longrightarrow> good_digits ds"
  shows "(\<exists>ds' n' rest. integral_digits n p1 pow10 ds dst delta s p2 = Inr (Inl (ds', n')) \<and> n' < n \<and>
       good_digits ds' \<and> length ds' + n' = length ds + n \<and> 0 \<le> rest \<and> rest \<le> delta \<and>
       rest + 10 ^ n' * 2 ^ s * digits_num ds' = (p1 + 10 ^ n * digits_num ds) * 2 ^ s + p2) \<or>
    (\<exists>ds'. integral_digits n p1 pow10 ds dst delta s p2 = Inr (Inr ds') \<and>
       good_digits ds' \<and> length ds' = length ds + n \<and> delta < p2 \<and>
       digits_num ds' = p1 + 10 ^ n * digits_num ds)"
  using assms
proof (induction n arbitrary: p1 pow10 ds)
  case 0
  then have "p1 = 0" "ds \<noteq> []" by auto
  then show ?case using 0 by auto
next
  case (Suc n)
  have pow: "pow10 = 10 ^ n" using Suc.prems(9) by simp
  define d where "d = p1 div 10 ^ n"
  define r where "r = p1 mod 10 ^ n"
  have p1: "p1 = d * 10 ^ n + r" and r: "0 \<le> r" "r < 10 ^ n"
    using div_mult_mod_eq[of p1 "10 ^ n"] by (simp_all add: d_def r_def)
  have d: "0 \<le> d" "d \<le> 9" and d0: "10 ^ n \<le> p1 \<Longrightarrow> 1 \<le> d"
    unfolding d_def using digit_bounds[of p1 "10 ^ n"] Suc.prems(1,2) by simp_all
  have rp: "r * 2 ^ s \<le> p1 * 2 ^ s" using d r(1) by (intro mult_right_mono) (simp_all add: p1)
  have u: "u64 (u64 (r * 2 ^ s) + p2) = r * 2 ^ s + p2"
  proof -
    have nn: "0 \<le> r * 2 ^ s" using r(1) by simp
    have "u64 (r * 2 ^ s) = r * 2 ^ s" "u64 (r * 2 ^ s + p2) = r * 2 ^ s + p2"
      using nn rp Suc.prems(3,5) by (intro u64_id; linarith)+
    then show ?thesis by simp
  qed
  let ?ds = "ds @ [nat d]"
  have good: "good_digits ?ds"
  proof (cases "ds = []")
    case True
    then have "10 ^ n \<le> p1" using Suc.prems(10) pow by simp
    with d0 have "1 \<le> d" by blast
    then have "1 \<le> nat d" "nat d \<le> 9" using d by linarith+
    then show ?thesis using True by (simp add: good_digits_def)
  qed (use Suc.prems(11) d in \<open>simp add: good_digits_snoc\<close>)
  have num: "(p1 + 10 ^ Suc n * digits_num ds) = r + 10 ^ n * digits_num ?ds"
    using d by (simp add: p1 algebra_simps)
  show ?case
  proof (cases "r * 2 ^ s + p2 \<le> delta")
    case True
    have d1: "delta < r * 2 ^ s + p2 + 10 ^ n * 2 ^ s * int (nat d)"
      using Suc.prems(8) d by (simp add: p1 algebra_simps)
    have "10 ^ n * 2 ^ s \<le> p1 * 2 ^ s"
    proof -
      have "1 \<le> d" using d1 True d by (cases "d = 0") auto
      then have "1 * 10 ^ n \<le> d * 10 ^ n" by (intro mult_right_mono) auto
      then have "10 ^ n \<le> p1" using r(1) p1 by linarith
      then show ?thesis by (intro mult_right_mono) simp_all
    qed
    then have t: "u64 (10 ^ n * 2 ^ s) = 10 ^ n * 2 ^ s" using Suc.prems(3,5) by (intro u64_id) (simp, linarith)
    obtain ds' rest' where "grisu2_round ?ds dst delta (r * 2 ^ s + p2) (10 ^ n * 2 ^ s) = Inr ds'" "good_digits ds'"
      "length ds' = Suc (length ds)" "0 \<le> rest'" "rest' \<le> delta"
      "rest' + 10 ^ n * 2 ^ s * digits_num ds' = r * 2 ^ s + p2 + 10 ^ n * 2 ^ s * digits_num ?ds"
      using grisu2_round_keeps[of "r * 2 ^ s + p2" delta dst "10 ^ n * 2 ^ s" ds "nat d"] True r(1) Suc.prems good d1 by auto
    moreover from this have "integral_digits (Suc n) p1 pow10 ds dst delta s p2 = Inr (Inl (ds', n))"
      using True d u t by (simp add: Let_def pow d_def[symmetric] r_def[symmetric])
    moreover have "r * 2 ^ s + p2 + 10 ^ n * 2 ^ s * digits_num ?ds = (p1 + 10 ^ Suc n * digits_num ds) * 2 ^ s + p2"
      unfolding num by (simp add: algebra_simps)
    ultimately show ?thesis by (intro disjI1 exI[of _ ds'] exI[of _ n] exI[of _ rest']) simp
  next
    case False
    have step: "integral_digits (Suc n) p1 pow10 ds dst delta s p2 = integral_digits n r (pow10 div 10) ?ds dst delta s p2"
      using False d u by (simp add: Let_def pow d_def[symmetric] r_def[symmetric])
    have pd: "pow10 div 10 = 10 ^ (n - 1)" if "0 < n" using that by (cases n) (simp_all add: pow)
    have lt: "r * 2 ^ s + p2 < 2 ^ 64" using rp Suc.prems(5) by linarith
    show ?thesis
      using Suc.IH[OF r Suc.prems(3,4) lt Suc.prems(6,7) _ pd _ good] False
      unfolding step num by (auto simp: less_Suc_eq)
  qed
qed

declare integral_digits.simps [simp del]

text \<open>The digits of the fraction: enough of them are generated before \<open>bound\<close> places are.\<close>

lemma fraction_digits_sound:
  assumes "delta < p2" and "p2 < 2 ^ s" and "s \<le> 60" and "0 \<le> dst" and "dst \<le> delta" and "good_digits ds"
    and "2 ^ s \<le> delta * 10 ^ bound"
  shows "\<exists>ds' m' rest. fraction_digits p2 ds dst delta s m = Some (Inr (ds', m + m')) \<and> good_digits ds' \<and>
    length ds' = length ds + m' \<and> m' \<le> bound \<and> 0 \<le> rest \<and> rest \<le> delta * 10 ^ m' \<and>
    rest + 2 ^ s * digits_num ds' = (p2 + 2 ^ s * digits_num ds) * 10 ^ m'"
  using assms
proof (induction bound arbitrary: p2 ds dst delta m)
  case (Suc b)
  have two: "(2 :: int) ^ s \<le> 2 ^ 60" using Suc.prems(3) by (intro power_increasing) auto
  have u: "u64 (p2 * 10) = p2 * 10" "u64 (delta * 10) = delta * 10" "u64 (dst * 10) = dst * 10"
    "p2 \<le> (2 ^ 64 - 1) div 10"
    using Suc.prems(1,2,4,5) two by simp_all
  define d where "d = p2 * 10 div 2 ^ s"
  define r where "r = p2 * 10 mod 2 ^ s"
  have dr: "p2 * 10 = d * 2 ^ s + r" and r: "0 \<le> r" "r < 2 ^ s"
    using div_mult_mod_eq[of "p2 * 10" "2 ^ s"] by (simp_all add: d_def r_def)
  have d: "0 \<le> d" "d \<le> 9"
    unfolding d_def using digit_bounds[of "p2 * 10" "2 ^ s"] Suc.prems by simp_all
  let ?ds = "ds @ [nat d]"
  have good: "good_digits ?ds" using Suc.prems(6) d by (auto simp: good_digits_snoc good_digits_def)
  have num: "(p2 + 2 ^ s * digits_num ds) * 10 = r + 2 ^ s * digits_num ?ds"
    using d dr by (simp add: algebra_simps)
  show ?case
  proof (cases "r \<le> delta * 10")
    case True
    have d1: "delta * 10 < r + 2 ^ s * int (nat d)" using Suc.prems(1) d dr by (simp add: algebra_simps)
    obtain ds' rest' where g: "grisu2_round ?ds (dst * 10) (delta * 10) r (2 ^ s) = Inr ds'" "good_digits ds'"
      "length ds' = Suc (length ds)" "0 \<le> rest'" "rest' \<le> delta * 10"
      "rest' + 2 ^ s * digits_num ds' = r + 2 ^ s * digits_num ?ds"
      using grisu2_round_keeps[of r "delta * 10" "dst * 10" "2 ^ s" ds "nat d"] True r Suc.prems two good d1 by auto
    have "fraction_digits p2 ds dst delta s m = Some (Inr (ds', Suc m))"
      using u True d g(1) by (subst fraction_digits.simps) (simp add: Let_def d_def[symmetric] r_def[symmetric])
    then show ?thesis using g num
      by (intro exI[of _ ds'] exI[of _ 1] exI[of _ rest']) simp
  next
    case False
    have step: "fraction_digits p2 ds dst delta s m = fraction_digits r ?ds (dst * 10) (delta * 10) s (Suc m)"
      using u False d by (subst fraction_digits.simps) (simp add: Let_def d_def[symmetric] r_def[symmetric])
    obtain ds' m' rest where i: "fraction_digits r ?ds (dst * 10) (delta * 10) s (Suc m) = Some (Inr (ds', Suc m + m'))"
      "good_digits ds'" "length ds' = length ?ds + m'" "m' \<le> b" "0 \<le> rest" "rest \<le> delta * 10 * 10 ^ m'"
      "rest + 2 ^ s * digits_num ds' = (r + 2 ^ s * digits_num ?ds) * 10 ^ m'"
      using Suc.IH[of "delta * 10" r "dst * 10" ?ds "Suc m"] False r Suc.prems good by auto
    show ?thesis unfolding step using i(1-6) i(7)[folded num]
      by (intro exI[of _ ds'] exI[of _ "Suc m'"] exI[of _ rest]) (simp add: mult.assoc)
  qed
qed simp

lemma scaled_bounds:
  fixes lo hi v rest c :: int
  assumes "rest + c * v = hi" and "0 \<le> rest" and "rest \<le> hi - lo"
  shows "lo \<le> c * v" "c * v \<le> hi"
  using assms by linarith+

text \<open>
  The digits generated denote a number between the two boundaries, when these are the given
  distance apart: seventeen digits are then enough.
\<close>

lemma digit_gen_sound:
  assumes e: "- 60 \<le> e" "e \<le> - 32" and b: "0 < lo" "lo \<le> mid" "mid \<le> hi" "hi < 2 ^ 64" "2 ^ 60 \<le> hi"
    and apart: "hi \<le> (hi - lo) * 10 ^ 16"
  shows "\<exists>ds n. grisu2_digit_gen k (Diyfp lo e) (Diyfp mid e) (Diyfp hi e) = Some (Inr (ds, k + n)) \<and>
     good_digits ds \<and> length ds \<le> 17 \<and> - 17 \<le> n \<and> n \<le> 10 \<and>
     of_int lo \<le> of_int (digits_num ds) * 10 powi n * (2 :: rat) ^ nat (- e) \<and>
     of_int (digits_num ds) * 10 powi n * (2 :: rat) ^ nat (- e) \<le> of_int hi"
proof -
  define s where "s = nat (- e)"
  have s: "32 \<le> s" "s \<le> 60" using e by (simp_all add: s_def)
  define p1 where "p1 = hi div 2 ^ s"
  define p2 where "p2 = hi mod 2 ^ s"
  have hi: "hi = p1 * 2 ^ s + p2" and p2: "0 \<le> p2" "p2 < 2 ^ s"
    using div_mult_mod_eq[of hi "2 ^ s"] by (simp_all add: p1_def p2_def)
  have pw: "(2 :: int) ^ 32 \<le> 2 ^ s" "(2 :: int) ^ s \<le> 2 ^ 60" using s by (intro power_increasing; simp)+
  have p1: "0 < p1" "p1 < 2 ^ 32"
  proof -
    show "0 < p1"
    proof (rule ccontr)
      assume "\<not> 0 < p1"
      then have "p1 * 2 ^ s \<le> 0 * 2 ^ s" by (intro mult_right_mono) auto
      then show False using hi p2 pw b(5) by linarith
    qed
    show "p1 < 2 ^ 32"
    proof (rule ccontr)
      assume "\<not> p1 < 2 ^ 32"
      then have "2 ^ 32 * 2 ^ 32 \<le> p1 * 2 ^ s" using pw by (intro mult_mono) auto
      then show False using hi p2 b(4) by simp
    qed
  qed
  obtain c where c: "find_largest_pow10 p1 = (Suc c, 10 ^ c)" "c \<le> 9" "10 ^ c \<le> p1" "p1 < 10 ^ Suc c"
    using find_largest_pow10_bounds[OF p1] by blast
  define delta where "delta = hi - lo"
  define dst where "dst = hi - mid"
  have dl: "0 \<le> dst" "dst \<le> delta" "delta < p1 * 2 ^ s + p2"
    using b hi by (simp_all add: delta_def dst_def)
  have gen: "digit_gen_integral (Diyfp lo e) (Diyfp mid e) (Diyfp hi e) =
      andThen (integral_digits (Suc c) p1 (10 ^ c) [] dst delta s p2) (\<lambda>res. Inr (res, dst, delta, s, p2))"
    using e b c(1) p1 unfolding p1_def p2_def s_def delta_def dst_def
    by (simp add: digit_gen_integral_def kAlpha_def kGamma_def diyfp_sub_simps Let_def)
  have lt: "p1 * 2 ^ s + p2 < 2 ^ 64" using hi b by simp
  have start: "([] :: nat list) = [] \<Longrightarrow> 0 < Suc c \<and> (10 :: int) ^ c \<le> p1" using c(3) by simp
  have top: "0 < Suc c \<Longrightarrow> (10 :: int) ^ c = 10 ^ (Suc c - 1)" by simp
  have "(\<exists>ds n rest. integral_digits (Suc c) p1 (10 ^ c) [] dst delta s p2 = Inr (Inl (ds, n)) \<and> n < Suc c \<and>
      good_digits ds \<and> length ds + n = Suc c \<and> 0 \<le> rest \<and> rest \<le> delta \<and>
      rest + 10 ^ n * 2 ^ s * digits_num ds = p1 * 2 ^ s + p2) \<or>
    (\<exists>ds. integral_digits (Suc c) p1 (10 ^ c) [] dst delta s p2 = Inr (Inr ds) \<and>
      good_digits ds \<and> length ds = Suc c \<and> delta < p2 \<and> digits_num ds = p1)"
    using integral_digits_sound[where ds = "[]", OF less_imp_le[OF p1(1)] c(4) p2 lt dl top start]
    by (simp del: power_Suc)
  then show ?thesis
  proof (elim disjE exE conjE)
    fix ds n rest
    assume stop: "integral_digits (Suc c) p1 (10 ^ c) [] dst delta s p2 = Inr (Inl (ds, n))" "n < Suc c"
      "good_digits ds" "length ds + n = Suc c" "0 \<le> rest" "rest \<le> delta" "rest + 10 ^ n * 2 ^ s * digits_num ds = p1 * 2 ^ s + p2"
    have g: "grisu2_digit_gen k (Diyfp lo e) (Diyfp mid e) (Diyfp hi e) = Some (Inr (ds, k + int n))"
      using stop(1) by (simp add: grisu2_digit_gen_def gen)
    have "lo \<le> 10 ^ n * 2 ^ s * digits_num ds" "10 ^ n * 2 ^ s * digits_num ds \<le> hi"
      using scaled_bounds[OF _ stop(5), of "10 ^ n * 2 ^ s" "digits_num ds" hi lo] stop(6,7) hi by (simp_all add: delta_def)
    then have "(of_int lo :: rat) \<le> of_int (10 ^ n * 2 ^ s * digits_num ds)" "(of_int (10 ^ n * 2 ^ s * digits_num ds) :: rat) \<le> of_int hi"
      by (simp_all only: of_int_le_iff)
    then have "of_int lo \<le> of_int (digits_num ds) * 10 powi int n * (2 :: rat) ^ s \<and> of_int (digits_num ds) * 10 powi int n * (2 :: rat) ^ s \<le> of_int hi"
      by (simp add: power_int_of_nat mult_ac)
    then show ?thesis using g stop(2-4) c(2) unfolding s_def by (intro exI[of _ ds] exI[of _ "int n"]) auto
  next
    fix ds
    assume on: "integral_digits (Suc c) p1 (10 ^ c) [] dst delta s p2 = Inr (Inr ds)" "good_digits ds"
      "length ds = Suc c" "delta < p2" "digits_num ds = p1"
    have bound: "2 ^ s \<le> delta * 10 ^ (16 - c)"
    proof -
      have "10 ^ c * 2 ^ s \<le> p1 * 2 ^ s" using c(3) by (intro mult_right_mono) auto
      also have "\<dots> \<le> hi" using hi p2 by linarith
      also have "\<dots> \<le> delta * 10 ^ 16" using apart by (simp add: delta_def)
      also have "(10 :: int) ^ 16 = 10 ^ c * 10 ^ (16 - c)" using c(2) by (simp add: power_add[symmetric])
      finally have "10 ^ c * 2 ^ s \<le> 10 ^ c * (delta * 10 ^ (16 - c))" by (simp only: mult.left_commute)
      then show ?thesis by simp
    qed
    obtain ds' m rest where f: "fraction_digits p2 ds dst delta s 0 = Some (Inr (ds', m))" "good_digits ds'"
      "length ds' = length ds + m" "m \<le> 16 - c" "0 \<le> rest" "rest \<le> delta * 10 ^ m"
      "rest + 2 ^ s * digits_num ds' = (p2 + 2 ^ s * digits_num ds) * 10 ^ m"
      using fraction_digits_sound[OF on(4) p2(2) s(2) dl(1,2) on(2) bound, of 0] by auto
    have g: "grisu2_digit_gen k (Diyfp lo e) (Diyfp mid e) (Diyfp hi e) = Some (Inr (ds', k + - int m))"
      using on(1,4) f(1) by (simp add: grisu2_digit_gen_def gen)
    have "rest + 2 ^ s * digits_num ds' = hi * 10 ^ m" using f(7) by (simp add: hi on(5) algebra_simps)
    then have "lo * 10 ^ m \<le> 2 ^ s * digits_num ds'" "2 ^ s * digits_num ds' \<le> hi * 10 ^ m"
      using scaled_bounds[OF _ f(5), of "2 ^ s" "digits_num ds'" "hi * 10 ^ m" "lo * 10 ^ m"] f(6)
      by (simp_all add: delta_def left_diff_distrib)
    then have "(of_int (lo * 10 ^ m) :: rat) \<le> of_int (2 ^ s * digits_num ds')" "(of_int (2 ^ s * digits_num ds') :: rat) \<le> of_int (hi * 10 ^ m)"
      by (simp_all only: of_int_le_iff)
    then have "of_int lo \<le> of_int (digits_num ds') * 10 powi (- int m) * (2 :: rat) ^ s \<and> of_int (digits_num ds') * 10 powi (- int m) * (2 :: rat) ^ s \<le> of_int hi"
      by (simp add: power_int_minus power_int_of_nat field_simps)
    moreover have "length ds' \<le> 17" using f(3,4) on(3) c(2) by simp
    ultimately show ?thesis using g f(2,4) unfolding s_def by (intro exI[of _ ds'] exI[of _ "- int m"]) auto
  qed
qed

end
