(* ===== verification/Grisu_Correct.thy ===== *)
theory Grisu_Correct
  imports Grisu_Powers Grisu_Digits
begin

text \<open>
  \<^verbatim>\<open>grisu2\<close> as a whole: for every positive double it returns at most seventeen digits, and the
  number they denote rounds to that double and to no other.
\<close>

section \<open>Scaling\<close>

definition scale :: "int \<Rightarrow> int \<Rightarrow> int" where
  "scale c x = (x * c + 2 ^ 63) div 2 ^ 64"

lemma scale_bounds: "2 ^ 64 * scale c x \<le> x * c + 2 ^ 63" "x * c + 2 ^ 63 < 2 ^ 64 * scale c x + 2 ^ 64"
  using div_pow2_bounds[of "x * c + 2 ^ 63" 64] by (simp_all add: scale_def mult.commute)

lemma scale_apart: "(x - y) * c < 2 ^ 64 * (scale c x - scale c y + 1)"
  using scale_bounds(1)[where c = c and x = y] scale_bounds(2)[where c = c and x = x] by (simp add: left_diff_distrib)

text \<open>A product with a cached power is off by less than one unit.\<close>

lemma mul_near:
  assumes x: "0 \<le> x" "x < 2 ^ 64" and c: "entry_fits (c, ce, k)" "entry_near (c, ce, k)"
  shows "diyfp_mul (Diyfp x e) (Diyfp c ce) = Diyfp (scale c x) (e + ce + 64)"
    and "of_int (scale c x - 1) * pow2 (e + ce + 64) < of_int x * pow2 e * 10 powi k"
    and "of_int x * pow2 e * 10 powi k < of_int (scale c x + 1) * pow2 (e + ce + 64)"
proof -
  have cr: "0 \<le> c" "c < 2 ^ 64" using c(1) by (simp_all add: entry_fits_def)
  show "diyfp_mul (Diyfp x e) (Diyfp c ce) = Diyfp (scale c x) (e + ce + 64)"
    using diyfp_mul_rounds[of "Diyfp x e" "Diyfp c ce"] x cr by (simp add: scale_def)
  define P where "P = (10 :: rat) powi k"
  define T where "T = pow2 (ce - 1)"
  have T: "0 < T" and pe: "0 < pow2 e" by (simp_all add: T_def)
  have near: "(2 * of_int c - 1) * T \<le> P" "P \<le> (2 * of_int c + 1) * T"
    using c(2) by (simp_all add: entry_near_def P_def T_def)
  have "e + ce + 64 = e + (65 + (ce - 1))" by simp
  then have sc: "pow2 (e + ce + 64) = pow2 e * (2 ^ 65 * T)"
    by (simp only: pow2_add T_def) (simp add: pow2_def[of 65])
  have i: "(scale c x - 1) * 2 ^ 65 < x * (2 * c - 1)" "x * (2 * c + 1) < (scale c x + 1) * 2 ^ 65"
    using scale_bounds[where c = c and x = x] x(2) by (simp_all add: algebra_simps)
  have "(of_int ((scale c x - 1) * 2 ^ 65) :: rat) < of_int (x * (2 * c - 1))"
    "(of_int (x * (2 * c + 1)) :: rat) < of_int ((scale c x + 1) * 2 ^ 65)"
    using i by (simp_all only: of_int_less_iff)
  then have r: "of_int (scale c x - 1) * 2 ^ 65 < of_int x * (2 * of_int c - 1 :: rat)"
    "of_int x * (2 * of_int c + 1 :: rat) < of_int (scale c x + 1) * 2 ^ 65" by simp_all
  have xp: "(0 :: rat) \<le> of_int x" using x by simp
  have "of_int (scale c x - 1) * 2 ^ 65 * T < of_int x * (2 * of_int c - 1) * T"
    by (rule mult_strict_right_mono[OF r(1) T])
  also have "\<dots> \<le> of_int x * P" using mult_left_mono[OF near(1) xp] by (simp only: mult.assoc)
  finally have 1: "of_int (scale c x - 1) * 2 ^ 65 * T < of_int x * P" .
  have "of_int x * P \<le> of_int x * (2 * of_int c + 1) * T" using mult_left_mono[OF near(2) xp] by (simp only: mult.assoc)
  also have "\<dots> < of_int (scale c x + 1) * 2 ^ 65 * T" by (rule mult_strict_right_mono[OF r(2) T])
  finally have 2: "of_int x * P < of_int (scale c x + 1) * 2 ^ 65 * T" .
  show "of_int (scale c x - 1) * pow2 (e + ce + 64) < of_int x * pow2 e * 10 powi k"
    using mult_strict_right_mono[OF 1 pe] unfolding sc P_def[symmetric] by (simp only: ac_simps)
  show "of_int x * pow2 e * 10 powi k < of_int (scale c x + 1) * pow2 (e + ce + 64)"
    using mult_strict_right_mono[OF 2 pe] unfolding sc P_def[symmetric] by (simp only: ac_simps)
qed

text \<open>The scaled boundaries, one unit inside, leave room for seventeen digits.\<close>

lemma scaled_apart:
  assumes c: "2 ^ 63 \<le> c" "c < 2 ^ 64" and p: "2 ^ 63 \<le> up" "up < 2 ^ 64" and m: "0 \<le> low"
    and w: "low + 512 \<le> mid" "mid + 1024 \<le> up" and room: "up + 6 * 10 ^ 16 \<le> (up - low) * 10 ^ 16"
  defines "lo \<equiv> scale c low + 1" and "hi \<equiv> scale c up - 1"
  shows "0 < lo" "lo \<le> scale c mid" "scale c mid \<le> hi" "hi < 2 ^ 64 - 1" "2 ^ 60 \<le> hi" "hi \<le> (hi - lo) * 10 ^ 16"
proof -
  have c0: "0 \<le> c" using c by simp
  show "0 < lo"
  proof -
    have "0 \<le> low * c + 2 ^ 63" using m c0 by simp
    then show ?thesis by (simp add: lo_def scale_def pos_imp_zdiv_nonneg_iff)
  qed
  have "512 * 2 ^ 63 \<le> (mid - low) * c" "1024 * 2 ^ 63 \<le> (up - mid) * c"
    using c w by (intro mult_mono; simp)+
  then show "lo \<le> scale c mid" "scale c mid \<le> hi"
    using scale_apart[of mid low c] scale_apart[of up mid c] by (simp_all add: lo_def hi_def)
  have pc: "2 ^ 63 * 2 ^ 63 \<le> up * c" "up * c \<le> (2 ^ 64 - 1) * (2 ^ 64 - 1)"
    using c p by (intro mult_mono; simp)+
  then show "hi < 2 ^ 64 - 1" "2 ^ 60 \<le> hi"
    using scale_bounds[where c = c and x = up] by (simp_all add: hi_def)
  define D where "D = scale c up - scale c low"
  define Z where "Z = (up - low) * c"
  have D: "Z < 2 ^ 64 * (D + 1)" unfolding Z_def using scale_apart[of up low c] by (simp add: D_def)
  have "(up + 6 * 10 ^ 16) * c \<le> (up - low) * 10 ^ 16 * c" by (rule mult_right_mono[OF room c0])
  then have "up * c + 6 * 10 ^ 16 * c \<le> 10 ^ 16 * Z"
    unfolding Z_def by (simp only: distrib_left distrib_right ac_simps)
  moreover have "6 * 10 ^ 16 * 2 ^ 63 \<le> 6 * 10 ^ 16 * c" using c by simp
  ultimately have "up * c + 6 * 10 ^ 16 * 2 ^ 63 \<le> 10 ^ 16 * (2 ^ 64 * (D + 1))" using D by simp
  then have "2 ^ 64 * hi \<le> 2 ^ 64 * ((D - 2) * 10 ^ 16)"
    using scale_bounds(1)[where c = c and x = up] by (simp add: hi_def algebra_simps)
  then show "hi \<le> (hi - lo) * 10 ^ 16" by (simp add: D_def hi_def lo_def)
qed


section \<open>The shortest digits\<close>

text \<open>The boundaries, scaled by a cached power, enclose the digits.\<close>

lemma grisu2_scaled_sound:
  assumes e: "- 1137 \<le> e" "e \<le> 960" and p: "2 ^ 63 \<le> up" "up < 2 ^ 64" and m: "0 \<le> low"
    and w: "low + 512 \<le> mid" "mid + 1024 \<le> up" and room: "up + 6 * 10 ^ 16 \<le> (up - low) * 10 ^ 16"
  shows "\<exists>ds k. grisu2_scaled (Diyfp low e) (Diyfp mid e) (Diyfp up e) = Some (Inr (ds, k)) \<and>
    good_digits ds \<and> length ds \<le> 17 \<and> \<bar>k\<bar> \<le> 400 \<and>
    of_int low * pow2 e < of_int (digits_num ds) * 10 powi k \<and> of_int (digits_num ds) * 10 powi k < of_int up * pow2 e"
proof -
  obtain c ce ck where c: "get_cached_power_for_binary_exponent e = Inr (c, ce, ck)" "entry_fits (c, ce, ck)" "entry_near (c, ce, ck)"
    and E: "- 60 \<le> ce + e + 64" "ce + e + 64 \<le> - 32" and ck: "\<bar>ck\<bar> \<le> 324"
    using cached_power_found[OF e] by blast
  define E where "E = e + ce + 64"
  define lo where "lo = scale c low + 1"
  define hi where "hi = scale c up - 1"
  have cr: "2 ^ 63 \<le> c" "c < 2 ^ 64" using c(2) by (simp_all add: entry_fits_def)
  note sa = scaled_apart[OF cr p m w room, folded lo_def hi_def]
  have lt: "low < 2 ^ 64" "0 \<le> mid" "mid < 2 ^ 64" "0 \<le> up" using m w p by simp_all
  note low = mul_near[OF m lt(1) c(2,3), of e, folded E_def] and up = mul_near[OF lt(4) p(2) c(2,3), of e, folded E_def]
    and mid = mul_near(1)[OF lt(2,3) c(2,3), of e, folded E_def]
  have u: "u64 (scale c low + 1) = lo" "u64 (scale c up - 1) = hi"
    using sa unfolding lo_def hi_def by (intro u64_id; simp)+
  have g: "grisu2_scaled (Diyfp low e) (Diyfp mid e) (Diyfp up e) =
      grisu2_digit_gen (- ck) (Diyfp lo E) (Diyfp (scale c mid) E) (Diyfp hi E)"
    using c(1) low(1) up(1) mid u by (simp add: grisu2_scaled_def Let_def)
  have Eb: "- 60 \<le> E" "E \<le> - 32" using E by (simp_all add: E_def)
  have "hi < 2 ^ 64" using sa(4) by simp
  from digit_gen_sound[OF Eb sa(1,2,3) this sa(5,6), of "- ck"] obtain ds n where
    d: "grisu2_digit_gen (- ck) (Diyfp lo E) (Diyfp (scale c mid) E) (Diyfp hi E) = Some (Inr (ds, - ck + n))"
    "good_digits ds" "length ds \<le> 17" "- 17 \<le> n" "n \<le> 10"
    "of_int lo \<le> of_int (digits_num ds) * 10 powi n * (2 :: rat) ^ nat (- E)"
    "of_int (digits_num ds) * 10 powi n * (2 :: rat) ^ nat (- E) \<le> of_int hi" by blast
  define V where "V = of_int (digits_num ds) * (10 :: rat) powi n"
  define K where "K = (10 :: rat) powi ck"
  have K: "0 < K" by (simp add: K_def)
  have one: "(2 :: rat) ^ nat (- E) * pow2 E = 1" using Eb by (simp add: pow2_def)
  have pE: "0 \<le> pow2 E" by (simp add: less_imp_le)
  have "of_int lo * pow2 E \<le> V" "V \<le> of_int hi * pow2 E"
    using mult_right_mono[OF d(6) pE] mult_right_mono[OF d(7) pE] one
    by (simp_all only: V_def[symmetric] mult.assoc mult_1_right)
  then have "of_int low * pow2 e * K < V" "V < of_int up * pow2 e * K"
    using low(3) up(2) by (simp_all only: lo_def hi_def K_def[symmetric])
  then have "of_int low * pow2 e < V / K" "V / K < of_int up * pow2 e"
    using K by (simp_all only: pos_less_divide_eq pos_divide_less_eq)
  moreover have "V / K = of_int (digits_num ds) * 10 powi (- ck + n)"
    by (simp add: V_def K_def power_int_diff)
  ultimately show ?thesis using d(1-5) ck unfolding g by (intro exI[of _ ds] exI[of _ "- ck + n"]) auto
qed

text \<open>The digits found for a positive double denote a number that rounds to it.\<close>

lemma grisu2_sound:
  assumes p: "double_parts n u"
  shows "\<exists>ds k. grisu2 (of_int n * pow2 u) = Some (Inr (ds, k)) \<and> good_digits ds \<and> length ds \<le> 17 \<and> \<bar>k\<bar> \<le> 400 \<and>
    (\<forall>s. to_double s (of_int (digits_num ds) * 10 powi k) = Finite s (of_int n * pow2 u))"
proof -
  have n: "0 < n" "n < 2 ^ 53" and u: "- 1074 \<le> u" "u \<le> 971" using p by (auto simp: double_parts_def)
  obtain j where j: "10 \<le> j" "2 ^ 63 \<le> (2 * n + 1) * 2 ^ j" "(2 * n + 1) * 2 ^ j < 2 ^ 64"
    and b: "compute_boundaries (of_int n * pow2 u) =
      Inr (Diyfp (2 * n * 2 ^ j) (u - 1 - int j), Diyfp (scaled_lower n u j) (u - 1 - int j),
           Diyfp ((2 * n + 1) * 2 ^ j) (u - 1 - int j))"
    using compute_boundaries_parts[OF p] by blast
  define e where "e = u - 1 - int j"
  define low where "low = scaled_lower n u j"
  define up where "up = (2 * n + 1) * 2 ^ j"
  define J where "J = (2 :: int) ^ (j - 1)"
  have J: "2 ^ j = 2 * J" "512 \<le> J"
  proof -
    show "2 ^ j = 2 * J" using j(1) by (cases j) (simp_all add: J_def)
    have "(2 :: int) ^ 9 \<le> 2 ^ (j - 1)" using j(1) by (intro power_increasing) auto
    then show "512 \<le> J" by (simp add: J_def)
  qed
  have upJ: "up = 4 * (n * J) + 2 * J" by (simp add: up_def J(1) algebra_simps)
  have midJ: "2 * n * 2 ^ j = 4 * (n * J)" by (simp add: J(1))
  have lowJ: "low = (if n = 2 ^ 52 \<and> - 1074 < u then 4 * (n * J) - J else 4 * (n * J) - 2 * J)"
    using J(1) by (simp add: low_def scaled_lower_def J_def algebra_simps)
  have nJ: "J \<le> n * J" using n J(2) by simp
  have "j \<le> 62"
  proof (rule ccontr)
    assume "\<not> j \<le> 62"
    then have "(2 :: int) ^ 63 \<le> 2 ^ j" by (intro power_increasing) auto
    then have "3 * 2 ^ 63 \<le> (2 * n + 1) * 2 ^ j" using n by (intro mult_mono) auto
    then show False using j(3) by simp
  qed
  then have e: "- 1137 \<le> e" "e \<le> 960" using u j(1) by (simp_all add: e_def)
  have room: "up + 6 * 10 ^ 16 \<le> (up - low) * 10 ^ 16"
  proof (cases "n = 2 ^ 52 \<and> - 1074 < u")
    case True
    then have "up - low = 3 * J" "up = (2 ^ 54 + 2) * J" by (simp_all add: upJ lowJ)
    then show ?thesis using J(2) by simp
  next
    case False
    then have "up - low = 4 * J" by (auto simp: upJ lowJ)
    then show ?thesis using j(3) J(2) by (simp add: up_def)
  qed
  obtain ds k where d: "grisu2_scaled (Diyfp low e) (Diyfp (2 * n * 2 ^ j) e) (Diyfp up e) = Some (Inr (ds, k))"
    "good_digits ds" "length ds \<le> 17" "\<bar>k\<bar> \<le> 400"
    "of_int low * pow2 e < of_int (digits_num ds) * 10 powi k" "of_int (digits_num ds) * 10 powi k < of_int up * pow2 e"
    using grisu2_scaled_sound[OF e, of up low "2 * n * 2 ^ j"] j(2,3) room nJ J(2)
    unfolding up_def[symmetric] midJ by (auto simp: upJ lowJ split: if_splits)
  have je: "pow2 u = 4 * (of_int J * pow2 e)"
  proof -
    have "u = int (j - 1) + (2 + e)" using j(1) by (simp add: e_def)
    then have "pow2 u = 2 ^ (j - 1) * (pow2 2 * pow2 e)" by (simp only: pow2_add pow2_nat)
    then show ?thesis by (simp add: J_def pow2_def[of 2])
  qed
  have up: "of_int up * pow2 e = of_int n * pow2 u + pow2 u / 2" by (simp add: upJ je algebra_simps)
  have low: "of_int low * pow2 e = of_int n * pow2 u - lower_gap n u"
    by (simp add: lowJ je lower_gap_def algebra_simps)
  have "to_double s (of_int (digits_num ds) * 10 powi k) = Finite s (of_int n * pow2 u)" for s
    by (rule rounds_back[OF p]) (use d(5,6) up low in simp_all)
  moreover have "grisu2 (of_int n * pow2 u) = Some (Inr (ds, k))"
    using n b d(1) by (simp add: grisu2_def e_def low_def up_def)
  ultimately show ?thesis using d(2-4) by blast
qed

end
