(* ===== verification/Float_Text.thy ===== *)
theory Float_Text
  imports Grisu_Correct Json_Roundtrip
begin

text \<open>
  The texts \<^verbatim>\<open>to_chars\<close> writes for doubles, and how \<^verbatim>\<open>strtod\<close> and the lexer of \<^verbatim>\<open>json.hpp\<close> read
  them back.
\<close>

section \<open>The shape of the texts\<close>

text \<open>Digits, perhaps a fraction, perhaps an exponent with its sign; one of the two is there.\<close>

definition all_digits :: "string \<Rightarrow> bool" where
  "all_digits t \<longleftrightarrow> (\<forall>c \<in> set t. is_digit c)"

definition exponent_shape :: "string \<Rightarrow> bool" where
  "exponent_shape x \<longleftrightarrow> (\<exists>sg ds. x = sg # ds \<and> (sg = CHR ''+'' \<or> sg = CHR ''-'') \<and> ds \<noteq> [] \<and> all_digits ds)"

definition float_text :: "string \<Rightarrow> string \<Rightarrow> string \<Rightarrow> string" where
  "float_text w f x = w @ (if f = [] then [] else CHR ''.'' # f) @ (if x = [] then [] else CHR ''e'' # x)"

definition float_shape :: "string \<Rightarrow> string \<Rightarrow> string \<Rightarrow> bool" where
  "float_shape w f x \<longleftrightarrow> number_text w \<and> all_digits f \<and> (f \<noteq> [] \<or> x \<noteq> []) \<and> (x \<noteq> [] \<longrightarrow> exponent_shape x)"

definition float_value :: "string \<Rightarrow> string \<Rightarrow> string \<Rightarrow> rat" where
  "float_value w f x = of_int (digits_value (w @ f)) * 10 powi ((if x = [] then 0 else exponent_value x) - int (length f))"

lemma takeWhile_digits: "all_digits w \<Longrightarrow> r = [] \<or> \<not> is_digit (hd r) \<Longrightarrow>
    takeWhile is_digit (w @ r) = w \<and> dropWhile is_digit (w @ r) = r"
  by (cases r) (auto simp: all_digits_def takeWhile_append dropWhile_append)

lemma not_digits [simp]: "\<not> is_digit (CHR ''.'')" "\<not> is_digit (CHR ''e'')" "\<not> is_digit (CHR ''-'')" "\<not> is_digit (CHR ''+'')"
  by (simp_all add: is_digit_def)

lemma powi_cases: "(if 0 \<le> e then m * 10 ^ nat e else m / 10 ^ nat (- e)) = (m :: rat) * 10 powi e"
  by (simp add: power_int_def power_one_over inverse_eq_divide)

lemma strtod_float_text:
  assumes s: "float_shape w f x"
  shows "strtod ((if neg then ''-'' else []) @ float_text w f x) = to_double neg (float_value w f x)"
proof -
  have w: "all_digits w" "w \<noteq> []" using s by (auto simp: float_shape_def number_text_def all_digits_def)
  have hd: "hd (float_text w f x) \<noteq> CHR ''-''" "float_text w f x \<noteq> []"
    using w by (cases w; auto simp: float_text_def all_digits_def)+
  define tail where "tail = (if x = [] then [] else CHR ''e'' # x)"
  define r where "r = (if f = [] then [] else CHR ''.'' # f) @ tail"
  have t: "float_text w f x = w @ r" by (simp add: float_text_def r_def tail_def)
  have tw: "takeWhile is_digit (w @ r) = w" "dropWhile is_digit (w @ r) = r"
    using takeWhile_digits[of w r] w by (simp_all add: r_def tail_def)
  have tf: "takeWhile is_digit (f @ tail) = f" "dropWhile is_digit (f @ tail) = tail"
    using takeWhile_digits[of f tail] s by (simp_all add: float_shape_def tail_def)
  have neg: "((if neg then ''-'' else []) @ w @ r \<noteq> [] \<and> hd ((if neg then ''-'' else []) @ w @ r) = CHR ''-'') = neg"
    using hd unfolding t by simp
  have body: "(if neg then tl ((if neg then ''-'' else []) @ w @ r) else (if neg then ''-'' else []) @ w @ r) = w @ r" by simp
  have fr: "(case r of c # t \<Rightarrow> (if c = CHR ''.'' then takeWhile is_digit t else []) | [] \<Rightarrow> []) = f"
    by (cases "f = []") (simp_all add: r_def tf, simp add: tail_def)
  have ex: "(case (case r of c # t \<Rightarrow> (if c = CHR ''.'' then dropWhile is_digit t else r) | [] \<Rightarrow> []) of
      _ # t \<Rightarrow> exponent_value t | [] \<Rightarrow> 0) = (if x = [] then 0 else exponent_value x)"
    by (cases "f = []") (simp_all add: r_def tf, simp_all add: r_def tail_def)
  show ?thesis
    unfolding strtod_def Let_def t neg body tw fr ex powi_cases float_value_def by (rule refl)
qed

section \<open>The texts written\<close>

lemma digits_value_map: "\<forall>d \<in> set ds. d \<le> 9 \<Longrightarrow> digits_value (map digit_char ds) = digits_num ds"
proof (induction ds rule: rev_induct)
  case (snoc d ds)
  then show ?case using digit_char_props(2)[of d] by (simp add: digits_value_def)
qed (simp add: digits_value_def)

lemma digits_value_zeros: "digits_value (replicate n (CHR ''0'') @ t) = digits_value t"
  "digits_value (t @ replicate n (CHR ''0'')) = digits_value t * 10 ^ n"
proof -
  have z: "digits_value (replicate n (CHR ''0'')) = 0" for n
    by (induction n) (simp_all add: digits_value_def digit_value_def)
  show "digits_value (replicate n (CHR ''0'') @ t) = digits_value t"
    "digits_value (t @ replicate n (CHR ''0'')) = digits_value t * 10 ^ n"
    by (simp_all add: digits_value_append z)
qed

lemma zero_value: "digits_value ''0'' = 0"
  by (simp add: digits_value_def digit_value_def)

lemma append_exponent_shape:
  assumes "\<bar>e\<bar> < 1000"
  shows "\<exists>x. append_exponent e = Inr x \<and> exponent_shape x \<and> exponent_value x = e \<and> length x \<le> 4"
proof -
  define k where "k = nat \<bar>e\<bar>"
  define ds where "ds = (if k < 10 then [0, k] else if k < 100 then [k div 10, k mod 10]
      else [k div 100, k mod 100 div 10, k mod 100 mod 10])"
  have k: "k < 1000" using assms by (simp add: k_def)
  have d9: "\<forall>d \<in> set ds. d \<le> 9" using k by (auto simp: ds_def)
  have num: "digits_num ds = int k"
    using k by (auto simp: ds_def digits_num_def of_nat_div of_nat_mod)
  define sg where "sg = (if e < 0 then CHR ''-'' else CHR ''+'')"
  have zero: "CHR ''0'' = digit_char 0" using digit_char_props(3)[of 0] by simp
  have a: "append_exponent e = Inr (sg # map digit_char ds)"
    using assms by (simp add: append_exponent_def k_def[symmetric] ds_def sg_def zero Let_def)
  have "all_digits (map digit_char ds)" "ds \<noteq> []"
    using d9 digit_char_props(1) by (auto simp: all_digits_def ds_def)
  then have s: "exponent_shape (sg # map digit_char ds)" by (auto simp: exponent_shape_def sg_def)
  have v: "exponent_value (sg # map digit_char ds) = e"
    using digits_value_map[OF d9] num by (simp add: exponent_value_def sg_def k_def)
  have "length (sg # map digit_char ds) \<le> 4" by (simp add: ds_def)
  then show ?thesis using a s v by blast
qed

text \<open>What is written for digits and a decimal exponent denotes their number.\<close>

lemma format_buffer_shape:
  assumes g: "good_digits ds" and l: "length ds \<le> 17" and k: "\<bar>k\<bar> \<le> 400"
  shows "\<exists>w f x. format_buffer (map digit_char ds) k (- 4) 15 = Inr (float_text w f x) \<and> float_shape w f x \<and>
    float_value w f x = of_int (digits_num ds) * 10 powi k \<and> length (float_text w f x) \<le> 23"
proof -
  define b where "b = map digit_char ds"
  define L where "L = length ds"
  define n where "n = int L + k"
  have "hd ds \<le> 9" using g by (auto simp: good_digits_def)
  then have b: "all_digits b" "b \<noteq> []" "hd b \<noteq> CHR ''0''" "length b = L" "digits_value b = digits_num ds"
    using g digits_value_map[of ds] digit_char_props(1) digit_char_props(3)[of "hd ds"]
    by (auto simp: b_def L_def good_digits_def all_digits_def hd_map)
  have nt: "number_text b" using b by (auto simp: number_text_def all_digits_def)
  have z: "is_digit (CHR ''0'')" by (simp add: is_digit_def)
  have L1: "1 \<le> L" using b(2,4) by (cases L) auto
  have fb: "format_buffer b k (- 4) 15 =
      (if int L \<le> n \<and> n \<le> 15 then Inr (b @ replicate (nat (n - int L)) (CHR ''0'') @ ''.0'')
       else if 0 < n \<and> n \<le> 15 then Inr (take (nat n) b @ ''.'' @ drop (nat n) b)
       else if - 4 < n \<and> n \<le> 0 then Inr (''0.'' @ replicate (nat (- n)) (CHR ''0'') @ b)
       else andThen (append_exponent (n - 1)) (\<lambda>e.
              Inr ((if L = 1 then b else take 1 b @ ''.'' @ drop 1 b) @ ''e'' @ e)))"
    unfolding format_buffer_def Let_def b(4) n_def by simp
  consider (whole) "int L \<le> n" "n \<le> 15" | (point) "0 < n" "n < int L" "n \<le> 15" | (below) "- 4 < n" "n \<le> 0"
    | (expo) "15 < n \<or> n \<le> - 4" by linarith
  then show ?thesis
  proof cases
    case whole
    let ?w = "b @ replicate (nat (n - int L)) (CHR ''0'')"
    have f: "format_buffer b k (- 4) 15 = Inr (float_text ?w ''0'' [])"
      using whole by (simp add: fb float_text_def)
    have s: "float_shape ?w ''0'' []"
      using b z nt by (auto simp: float_shape_def number_text_def all_digits_def)
    have "digits_value (?w @ ''0'') = digits_num ds * 10 ^ nat k * 10"
      unfolding digits_value_append[of ?w] digits_value_zeros(2) b(5) zero_value by (simp add: n_def L_def)
    then have "float_value ?w ''0'' [] = of_int (digits_num ds) * 10 powi k"
      using whole by (simp add: float_value_def power_int_def n_def)
    moreover have "length (float_text ?w ''0'' []) \<le> 23" using whole b(4) by (simp add: float_text_def)
    ultimately show ?thesis using f s unfolding b_def by blast
  next
    case point
    let ?w = "take (nat n) b" and ?f = "drop (nat n) b"
    have ne: "?f \<noteq> []" "?w \<noteq> []" using point b(2,4) by auto
    have f: "format_buffer b k (- 4) 15 = Inr (float_text ?w ?f [])"
      using point ne by (simp add: fb float_text_def)
    have hdw: "hd ?w = hd b" using ne by (simp add: hd_take)
    have s: "float_shape ?w ?f []"
      using b ne hdw by (auto simp: float_shape_def number_text_def all_digits_def dest: in_set_takeD in_set_dropD)
    have "float_value ?w ?f [] = of_int (digits_num ds) * 10 powi k"
      using point b(4,5) by (simp add: float_value_def n_def of_nat_diff)
    moreover have "length (float_text ?w ?f []) \<le> 23" using b(4) l by (simp add: float_text_def L_def)
    ultimately show ?thesis using f s unfolding b_def by blast
  next
    case below
    let ?f = "replicate (nat (- n)) (CHR ''0'') @ b"
    have f: "format_buffer b k (- 4) 15 = Inr (float_text ''0'' ?f [])"
      using below L1 b(2) by (simp add: fb float_text_def)
    have s: "float_shape ''0'' ?f []"
      using b z by (auto simp: float_shape_def number_text_def all_digits_def)
    have "digits_value (''0'' @ ?f) = digits_num ds"
      using digits_value_zeros(1)[of "Suc (nat (- n))" b] b(5) by simp
    then have "float_value ''0'' ?f [] = of_int (digits_num ds) * 10 powi k"
      using below b(4) by (simp add: float_value_def n_def)
    moreover have "length (float_text ''0'' ?f []) \<le> 23" using below b(4) l L_def by (simp add: float_text_def) linarith
    ultimately show ?thesis using f s unfolding b_def by blast
  next
    case expo
    have "\<bar>n - 1\<bar> < 1000" using k l by (simp add: n_def L_def)
    then obtain x where x: "append_exponent (n - 1) = Inr x" "exponent_shape x" "exponent_value x = n - 1" "length x \<le> 4"
      using append_exponent_shape by blast
    have xne: "x \<noteq> []" using x(2) by (auto simp: exponent_shape_def)
    let ?w = "take 1 b" and ?f = "drop 1 b"
    have f: "format_buffer b k (- 4) 15 = Inr (float_text ?w ?f x)"
    proof (cases "L = 1")
      case True
      then show ?thesis using expo b(4) x(1) xne by (auto simp: fb float_text_def)
    next
      case False
      then have "?f \<noteq> []" using L1 b(4) by simp
      then show ?thesis using expo x(1) xne False L1 by (auto simp: fb float_text_def)
    qed
    have s: "float_shape ?w ?f x"
      using b xne x(2) by (cases b) (auto simp: float_shape_def number_text_def all_digits_def)
    have "float_value ?w ?f x = of_int (digits_num ds) * 10 powi k"
      using b(4,5) x(3) xne L1 by (simp add: float_value_def n_def of_nat_diff)
    moreover have "length (float_text ?w ?f x) \<le> 23" using b(4) l x(4) xne by (simp add: float_text_def L_def)
    ultimately show ?thesis using f s unfolding b_def by blast
  qed
qed

section \<open>Scanning\<close>

text \<open>The scanner ends a floating-point token having taken a text and left the rest.\<close>

definition ends_float :: "lexer \<times> token_type \<Rightarrow> lexer \<Rightarrow> string \<Rightarrow> string \<Rightarrow> bool" where
  "ends_float res s t r \<longleftrightarrow> (\<exists>s'. res = scan_number_done T_value_float (get_char s') \<and> inp s' = r \<and> sane s' \<and>
     token_buffer s' = token_buffer s @ t)"

lemma ends_float_step:
  "ends_float res (add c (get_char s)) t r \<Longrightarrow> ends_float res s (c # t) r"
  by (auto simp: ends_float_def)

lemma any2_digits:
  "all_digits ds \<Longrightarrow> inp s = ds @ r \<Longrightarrow> sane s \<Longrightarrow> ends_number r \<Longrightarrow>
   ends_float (scan_number_any2 T_value_float s) s ds r"
proof (induction ds arbitrary: s)
  case Nil
  from ends_number_get[OF Nil(4), of s] Nil show ?case
    by (subst scan_number_any2.simps) (auto simp: Let_def ends_float_def)
next
  case (Cons d ds)
  from get_char_Cons[of s d "ds @ r"] Cons.prems
  have g: "current (get_char s) = Some d" "inp (get_char s) = ds @ r" "sane (get_char s)" "cur (get_char s) = of_char d"
    by auto
  have d: "cur_digit (get_char s)" using cur_digit_char[OF g(4)] Cons.prems(1) by (simp add: all_digits_def)
  have "scan_number_any2 T_value_float s = scan_number_any2 T_value_float (add d (get_char s))"
    using d g by (subst scan_number_any2.simps) (simp add: Let_def add_current_Some)
  moreover have "ends_float (scan_number_any2 T_value_float (add d (get_char s))) (add d (get_char s)) ds r"
    using Cons.IH[of "add d (get_char s)"] Cons.prems g by (simp add: all_digits_def)
  ultimately show ?case by (simp add: ends_float_step)
qed

lemma exponent_reads:
  assumes "exponent_shape x" and "inp s = x @ r" and "sane s" and "ends_number r"
  shows "ends_float (scan_number_exponent s) s x r"
proof -
  obtain sg d ds where x: "x = sg # d # ds" "sg = CHR ''+'' \<or> sg = CHR ''-''" "is_digit d" "all_digits ds"
    using assms(1) by (auto simp: exponent_shape_def all_digits_def neq_Nil_conv)
  have g: "current (get_char s) = Some sg" "inp (get_char s) = d # ds @ r" "sane (get_char s)" "cur (get_char s) = of_char sg"
    using get_char_Cons[of s sg "d # ds @ r"] assms x by auto
  let ?s = "add sg (get_char s)"
  have h: "current (get_char ?s) = Some d" "inp (get_char ?s) = ds @ r" "sane (get_char ?s)" "cur (get_char ?s) = of_char d"
    using get_char_Cons[of ?s d "ds @ r"] g by auto
  have "scan_number_exponent s = scan_number_sign T_value_float ?s"
    using x(2) g(4) by (auto simp: scan_number_exponent_def Let_def add_current_Some[OF g(1)])
  also have "\<dots> = scan_number_any2 T_value_float (add d (get_char ?s))"
    using cur_digit_char[OF h(4)] x(3) by (simp add: scan_number_sign_def Let_def add_current_Some[OF h(1)])
  finally show ?thesis
    using any2_digits[OF x(4), of "add d (get_char ?s)" r] h assms(4) unfolding x(1)
    by (intro ends_float_step) simp
qed

definition exponent_part :: "string \<Rightarrow> string" where
  "exponent_part x = (if x = [] then [] else CHR ''e'' # x)"

lemma decimal2_reads:
  "all_digits f \<Longrightarrow> x \<noteq> [] \<longrightarrow> exponent_shape x \<Longrightarrow> inp s = f @ exponent_part x @ r \<Longrightarrow> sane s \<Longrightarrow> ends_number r \<Longrightarrow>
   ends_float (scan_number_decimal2 T_value_float s) s (f @ exponent_part x) r"
proof (induction f arbitrary: s)
  case Nil
  show ?case
  proof (cases "x = []")
    case True
    then show ?thesis using ends_number_get[OF Nil(5), of s] Nil(3-5)
      by (subst scan_number_decimal2.simps) (auto simp: Let_def ends_float_def exponent_part_def)
  next
    case False
    have g: "current (get_char s) = Some (CHR ''e'')" "inp (get_char s) = x @ r" "sane (get_char s)" "cur (get_char s) = 0x65"
      using get_char_Cons[of s "CHR ''e''" "x @ r"] Nil(3,4) False by (auto simp: exponent_part_def)
    have "scan_number_decimal2 T_value_float s = scan_number_exponent (add (CHR ''e'') (get_char s))"
      using g by (subst scan_number_decimal2.simps) (simp add: Let_def add_current_Some cur_digit_def)
    then show ?thesis
      using exponent_reads[of x "add (CHR ''e'') (get_char s)" r] Nil(2,5) False g
      by (simp add: exponent_part_def ends_float_step)
  qed
next
  case (Cons d f)
  from get_char_Cons[of s d "f @ exponent_part x @ r"] Cons.prems
  have g: "current (get_char s) = Some d" "inp (get_char s) = f @ exponent_part x @ r" "sane (get_char s)" "cur (get_char s) = of_char d"
    by auto
  have d: "cur_digit (get_char s)" using cur_digit_char[OF g(4)] Cons.prems(1) by (simp add: all_digits_def)
  have "scan_number_decimal2 T_value_float s = scan_number_decimal2 T_value_float (add d (get_char s))"
    using d g by (subst scan_number_decimal2.simps) (simp add: Let_def add_current_Some)
  moreover have "ends_float (scan_number_decimal2 T_value_float (add d (get_char s))) (add d (get_char s)) (f @ exponent_part x) r"
    using Cons.IH[of "add d (get_char s)"] Cons.prems g by (simp add: all_digits_def)
  ultimately show ?case by (simp add: ends_float_step)
qed

text \<open>What follows the integral part.\<close>

definition float_tail :: "string \<Rightarrow> string \<Rightarrow> string" where
  "float_tail f x = (if f = [] then [] else CHR ''.'' # f) @ exponent_part x"

lemma float_text_tail: "float_text w f x = w @ float_tail f x"
  by (simp add: float_text_def float_tail_def exponent_part_def)

text \<open>Both states after the integral part go on in the same way.\<close>

lemma tail_reads:
  assumes f: "all_digits f" "f \<noteq> [] \<or> x \<noteq> []" "x \<noteq> [] \<longrightarrow> exponent_shape x"
    and i: "inp s = float_tail f x @ r" "sane s" "ends_number r"
  shows "ends_float (scan_number_zero nt s) s (float_tail f x) r" "ends_float (scan_number_any1 nt s) s (float_tail f x) r"
proof -
  have "ends_float (scan_number_zero nt s) s (float_tail f x) r \<and> ends_float (scan_number_any1 nt s) s (float_tail f x) r"
  proof (cases f)
    case Nil
    then have x: "x \<noteq> []" "exponent_shape x" "float_tail f x = CHR ''e'' # x"
      using f by (auto simp: float_tail_def exponent_part_def)
    have g: "current (get_char s) = Some (CHR ''e'')" "inp (get_char s) = x @ r" "sane (get_char s)" "cur (get_char s) = 0x65"
      using get_char_Cons[of s "CHR ''e''" "x @ r"] i x(3) by auto
    have "scan_number_zero nt s = scan_number_exponent (add (CHR ''e'') (get_char s))"
      "scan_number_any1 nt s = scan_number_exponent (add (CHR ''e'') (get_char s))"
      using g by (simp add: scan_number_zero_def Let_def add_current_Some)
        (subst scan_number_any1.simps, simp add: g Let_def add_current_Some cur_digit_def)
    then show ?thesis
      using exponent_reads[of x "add (CHR ''e'') (get_char s)" r] x i(3) g by (simp add: ends_float_step)
  next
    case (Cons d f')
    then have t: "float_tail f x = CHR ''.'' # d # f' @ exponent_part x" by (simp add: float_tail_def)
    have g: "inp (get_char s) = d # f' @ exponent_part x @ r" "sane (get_char s)" "cur (get_char s) = 0x2E"
      using get_char_Cons[of s "CHR ''.''" "d # f' @ exponent_part x @ r"] i t by auto
    let ?s = "add (CHR ''.'') (get_char s)"
    have h: "current (get_char ?s) = Some d" "inp (get_char ?s) = f' @ exponent_part x @ r" "sane (get_char ?s)"
      "cur (get_char ?s) = of_char d"
      using get_char_Cons[of ?s d "f' @ exponent_part x @ r"] g by auto
    have z: "scan_number_zero nt s = scan_number_decimal1 ?s" "scan_number_any1 nt s = scan_number_decimal1 ?s"
      using g by (simp add: scan_number_zero_def Let_def)
        (subst scan_number_any1.simps, simp add: g Let_def cur_digit_def)
    have "cur_digit (get_char ?s)" using cur_digit_char[OF h(4)] f(1) Cons by (simp add: all_digits_def)
    then have "scan_number_decimal1 ?s = scan_number_decimal2 T_value_float (add d (get_char ?s))"
      by (simp add: scan_number_decimal1_def Let_def add_current_Some[OF h(1)])
    moreover have "ends_float (scan_number_decimal2 T_value_float (add d (get_char ?s))) (add d (get_char ?s)) (f' @ exponent_part x) r"
      using decimal2_reads[of f' x "add d (get_char ?s)" r] f Cons h i(3) by (simp add: all_digits_def)
    ultimately show ?thesis unfolding z t by (simp add: ends_float_step)
  qed
  then show "ends_float (scan_number_zero nt s) s (float_tail f x) r" "ends_float (scan_number_any1 nt s) s (float_tail f x) r"
    by auto
qed

lemma any1_tail_reads:
  "all_digits ds \<Longrightarrow> all_digits f \<Longrightarrow> f \<noteq> [] \<or> x \<noteq> [] \<Longrightarrow> x \<noteq> [] \<longrightarrow> exponent_shape x \<Longrightarrow>
   inp s = ds @ float_tail f x @ r \<Longrightarrow> sane s \<Longrightarrow> ends_number r \<Longrightarrow>
   ends_float (scan_number_any1 nt s) s (ds @ float_tail f x) r"
proof (induction ds arbitrary: s)
  case Nil
  then show ?case using tail_reads(2)[of f x s r nt] by simp
next
  case (Cons d ds)
  from get_char_Cons[of s d "ds @ float_tail f x @ r"] Cons.prems
  have g: "current (get_char s) = Some d" "inp (get_char s) = ds @ float_tail f x @ r" "sane (get_char s)" "cur (get_char s) = of_char d"
    by auto
  have d: "cur_digit (get_char s)" using cur_digit_char[OF g(4)] Cons.prems(1) by (simp add: all_digits_def)
  have "scan_number_any1 nt s = scan_number_any1 nt (add d (get_char s))"
    using d g by (subst scan_number_any1.simps) (simp add: Let_def add_current_Some)
  moreover have "ends_float (scan_number_any1 nt (add d (get_char s))) (add d (get_char s)) (ds @ float_tail f x) r"
    using Cons.IH[of "add d (get_char s)"] Cons.prems g by (simp add: all_digits_def)
  ultimately show ?case by (simp add: ends_float_step)
qed

text \<open>After the first digit.\<close>

lemma first_digit_reads:
  assumes s: "float_shape (d # ds) f x" and i: "inp s = ds @ float_tail f x @ r" "sane s" "ends_number r"
  shows "ends_float (if d = CHR ''0'' then scan_number_zero nt s else scan_number_any1 nt s) s (ds @ float_tail f x) r"
proof (cases "d = CHR ''0''")
  case True
  then have "ds = []" using s by (simp add: float_shape_def number_text_def)
  then show ?thesis using True tail_reads(1)[of f x s r nt] s i by (simp add: float_shape_def)
next
  case False
  have "all_digits ds" using s by (simp add: float_shape_def number_text_def all_digits_def)
  then show ?thesis using False any1_tail_reads[of ds f x s r nt] s i by (simp add: float_shape_def)
qed

lemma ends_float_done:
  assumes "ends_float (scan l) s t r" and "token_buffer s = b"
  shows "reads l T_value_float r \<and> value_float (fst (scan l)) = strtod (b @ t)"
proof -
  obtain s' where s': "scan l = scan_number_done T_value_float (get_char s')" "inp s' = r" "sane s'" "token_buffer s' = b @ t"
    using assms by (auto simp: ends_float_def)
  then show ?thesis
    using number_done_sel[OF s'(3), of T_value_float] by (simp add: reads_def) (simp add: scan_number_done_def Let_def)
qed

lemma reads_float:
  assumes s: "float_shape w f x" and i: "inp l = (if neg then ''-'' else []) @ float_text w f x @ r" "sane l" "ends_number r"
  shows "reads l T_value_float r \<and> value_float (fst (scan l)) = strtod ((if neg then ''-'' else []) @ float_text w f x)"
proof -
  obtain d ds where w: "w = d # ds" and dig: "is_digit d"
    using s by (cases w) (auto simp: float_shape_def number_text_def)
  note sh = s[unfolded w]
  show ?thesis
  proof (cases neg)
    case False
    obtain s0 where s0: "scan l = scan_token s0" "current s0 = Some d" "inp s0 = ds @ float_tail f x @ r" "sane s0" "cur s0 = of_char d"
      using scan_Cons[of l d "ds @ float_tail f x @ r"] i w digit_starts[OF dig] False by (auto simp: float_text_tail)
    have c: "cur_digit s0" using cur_digit_char[OF s0(5)] dig by simp
    then have n: "scan_token s0 = scan_number s0" by (auto simp: scan_token_def cur_digit_def)
    have r: "current (reset s0) = Some d" using s0(2) by (simp add: reset_def)
    have "scan_number s0 = (if d = CHR ''0'' then scan_number_zero T_value_unsigned (add d (reset s0))
        else scan_number_any1 T_value_unsigned (add d (reset s0)))"
      using c cur_zero[OF s0(5)] by (auto simp: scan_number_def Let_def add_current_Some[OF r] cur_digit_def)
    then have "ends_float (scan l) (add d (reset s0)) (ds @ float_tail f x) r"
      using first_digit_reads[OF sh, of "add d (reset s0)" r T_value_unsigned] s0 i n by simp
    from ends_float_done[OF this refl] show ?thesis using False by (simp add: w float_text_tail)
  next
    case True
    obtain s0 where s0: "scan l = scan_token s0" "current s0 = Some (CHR ''-'')" "inp s0 = w @ float_tail f x @ r" "sane s0" "cur s0 = 0x2D"
      using scan_Cons[of l "CHR ''-''" "w @ float_tail f x @ r"] i True by (auto simp: starts_token_def is_ws_def float_text_tail)
    have n: "scan_token s0 = scan_number s0" using s0(5) by (auto simp: scan_token_def)
    have r: "current (reset s0) = Some (CHR ''-'')" using s0(2) by (simp add: reset_def)
    let ?s = "add (CHR ''-'') (reset s0)"
    have g: "current (get_char ?s) = Some d" "inp (get_char ?s) = ds @ float_tail f x @ r" "sane (get_char ?s)" "cur (get_char ?s) = of_char d"
      using get_char_Cons[of ?s d "ds @ float_tail f x @ r"] s0 w by auto
    have "scan_number s0 = scan_number_minus ?s"
      using s0(5) by (simp add: scan_number_def Let_def add_current_Some[OF r])
    also have "\<dots> = (if d = CHR ''0'' then scan_number_zero T_value_integer (add d (get_char ?s))
        else scan_number_any1 T_value_integer (add d (get_char ?s)))"
      using cur_digit_char[OF g(4)] dig cur_zero[OF g(4)]
      by (auto simp: scan_number_minus_def Let_def add_current_Some[OF g(1)])
    finally have "ends_float (scan l) (add d (get_char ?s)) (ds @ float_tail f x) r"
      using first_digit_reads[OF sh, of "add d (get_char ?s)" r T_value_integer] s0 g i n by simp
    from ends_float_done[OF this refl] show ?thesis using True by (simp add: w float_text_tail)
  qed
qed

end
