(* ===== verification/Json_Values_Roundtrip.thy ===== *)
theory Json_Values_Roundtrip imports Json_Roundtrip begin

text \<open>
  Reading back what \<^verbatim>\<open>dump\<close> writes: the parser of \<^verbatim>\<open>Json_Parser\<close> run on the output of
  \<^verbatim>\<open>Json_Dump\<close> attaches the value that was written, container by container.
\<close>


section \<open>Values\<close>

text \<open>
  The text does not tell a non-negative signed integer from an unsigned one, and \<^verbatim>\<open>null\<close> is written
  for what is no number.
\<close>

fun norm :: "json \<Rightarrow> json" where
  "norm (JInt i) = (if 0 \<le> i then JUInt i else JInt i)"
| "norm (JArray xs) = JArray (map norm xs)"
| "norm (JObject m) = JObject (map (\<lambda>kv. (fst kv, norm (snd kv))) m)"
| "norm (JFloat (Infinite s)) = JNull"
| "norm (JFloat NaN) = JNull"
| "norm j = j"

fun no_floats :: "json \<Rightarrow> bool" where
  "no_floats (JFloat d) = False"
| "no_floats (JArray xs) = (\<forall>x \<in> set xs. no_floats x)"
| "no_floats (JObject m) = (\<forall>kv \<in> set m. no_floats (snd kv))"
| "no_floats j = True"

fun floats_all :: "(dbl \<Rightarrow> bool) \<Rightarrow> json \<Rightarrow> bool" where
  "floats_all P (JFloat d) = P d"
| "floats_all P (JArray xs) = (\<forall>x \<in> set xs. floats_all P x)"
| "floats_all P (JObject m) = (\<forall>kv \<in> set m. floats_all P (snd kv))"
| "floats_all P j = True"

lemma no_floats_all: "no_floats j \<Longrightarrow> floats_all P j"
  by (induction j rule: no_floats.induct) auto

lemma floats_all_mono: "floats_all P j \<Longrightarrow> (\<And>d. P d \<Longrightarrow> Q d) \<Longrightarrow> floats_all Q j"
  by (induction j rule: no_floats.induct) auto

lemma norm_depth [simp]: "json_depth (norm j) = json_depth j"
  by (induction j rule: norm.induct) (auto simp: o_def intro!: arg_cong[where f = max_list])

definition reading :: "lexer \<Rightarrow> token_type \<Rightarrow> parser \<Rightarrow> parser" where
  "reading l t p = p\<lparr>m_lexer := l, last_token := t\<rparr>"

lemma reading_sel [simp]:
  "m_lexer (reading l t p) = l" "last_token (reading l t p) = t" "states (reading l t p) = states p"
  "ref_stack (reading l t p) = ref_stack p" "root (reading l t p) = root p"
  "reading l t (reading l' t' p) = reading l t p"
  by (simp_all add: reading_def)

lemma reading_attach: "reading l t (attach v p) = attach v (reading l t p)"
  by (simp add: reading_def attach_def split: list.split frame.split)

lemma get_token_reads:
  assumes "reads (m_lexer p) tok r"
  shows "\<exists>l. get_token p = reading l tok p \<and> inp l = r \<and> sane l"
  using assms by (auto simp: reads_def get_token_def reading_def)

lemma loop_value:
  "parse_value cb p = Inr (p', Next_state) \<Longrightarrow> parse_loop cb False p = parse_loop cb True p'"
  by (subst (1 2) parse_loop_step) simp

lemma loop_next:
  "parse_value cb p = Inr (p', Next_value) \<Longrightarrow> parse_loop cb False p = parse_loop cb False p'"
  by (subst parse_loop_step) simp

lemma loop_state:
  "parse_state cb p = Inr (p', n) \<Longrightarrow> n \<noteq> Done \<Longrightarrow> parse_loop cb True p = parse_loop cb (n = Next_state) p'"
  by (subst parse_loop_step) simp

definition lenient :: "callback \<Rightarrow> nat \<Rightarrow> bool" where
  "lenient cb D \<longleftrightarrow> (\<forall>d \<le> D. cb d = Inr ())"

text \<open>The parser reads a value and goes on after it, with the value attached.\<close>

definition continues :: "callback \<Rightarrow> parser \<Rightarrow> json \<Rightarrow> string \<Rightarrow> bool" where
  "continues cb q v r \<longleftrightarrow> (\<exists>l t. inp l = r \<and> sane l \<and>
     parse_loop cb False (get_token q) = parse_loop cb True (attach v (reading l t q)))"

lemma scalar_continues:
  assumes "reads (m_lexer q) tok r" and "lenient cb D" and "length (ref_stack q) \<le> D"
    and "\<And>l. get_token q = reading l tok q \<Longrightarrow> inp l = r \<Longrightarrow>
      parse_value cb (reading l tok q) = andThen (sax_value cb v (reading l tok q)) (\<lambda>p. Inr (p, Next_state))"
  shows "continues cb q v r"
proof -
  obtain l where l: "get_token q = reading l tok q" "inp l = r" "sane l"
    using get_token_reads[OF assms(1)] by blast
  have "parse_value cb (reading l tok q) = Inr (attach v (reading l tok q), Next_state)"
    using assms(2,3) assms(4)[OF l(1,2)] by (simp add: sax_value_def lenient_def)
  from loop_value[OF this] show ?thesis unfolding continues_def using l by auto
qed

lemma join_commas_Cons: "join_commas (t # ts) = t @ concat (map (\<lambda>t. CHR '','' # t) ts)"
  by (induction ts arbitrary: t) auto

lemma attach_states: "attach v (p\<lparr>states := ss\<rparr>) = (attach v p)\<lparr>states := ss\<rparr>"
  by (simp add: attach_def split: list.split frame.split)

definition closed_frame :: "lexer \<Rightarrow> token_type \<Rightarrow> bool list \<Rightarrow> frame list \<Rightarrow> parser \<Rightarrow> parser" where
  "closed_frame l t ss fs p = (reading l t p)\<lparr>ref_stack := fs, states := ss\<rparr>"

lemma ends_number_simps [simp]:
  "ends_number (CHR '','' # r)" "ends_number (CHR '']'' # r)" "ends_number (CHR ''}'' # r)" "ends_number []"
  by (simp_all add: ends_number_def is_digit_def)

lemma tail_ends: "ends_number (concat (map (\<lambda>t. CHR '','' # t) ts) @ CHR '']'' # r)"
  "ends_number (concat (map (\<lambda>t. CHR '','' # t) ts) @ CHR ''}'' # r)"
  by (cases ts; simp)+

text \<open>The end of a container.\<close>

lemma sax_end_closes:
  assumes "lenient cb D" and "length fs \<le> D" and "ref_stack p = f # fs"
  shows "sax_end cb p = Inr (attach (frame_json f) (p\<lparr>ref_stack := fs\<rparr>))"
  using assms by (simp add: sax_end_def lenient_def)

lemma array_end:
  assumes "lenient cb D" and "length fs \<le> D" and "ref_stack p = FArr acc # fs" and "states p = True # ss"
    and "inp (m_lexer p) = CHR '']'' # r" and "sane (m_lexer p)"
  shows "\<exists>l t. inp l = r \<and> sane l \<and>
    parse_loop cb True p = parse_loop cb True (attach (JArray acc) (closed_frame l t ss fs p))"
proof -
  obtain l where l: "get_token p = reading l T_end_array p" "inp l = r" "sane l"
    using get_token_reads[OF reads_structural(2)[OF assms(5,6)]] by blast
  have "parse_state cb p = Inr (attach (JArray acc) (closed_frame l T_end_array ss fs p), Next_state)"
    using sax_end_closes[OF assms(1,2), of "reading l T_end_array p" "FArr acc"] assms(3,4) l(1)
    by (simp add: parse_state_def closed_frame_def reading_def attach_states[symmetric])
  from loop_state[OF this] show ?thesis using l by auto
qed

lemma object_end:
  assumes "lenient cb D" and "length fs \<le> D" and "ref_stack p = FObj acc k # fs" and "states p = False # ss"
    and "inp (m_lexer p) = CHR ''}'' # r" and "sane (m_lexer p)"
  shows "\<exists>l t. inp l = r \<and> sane l \<and>
    parse_loop cb True p = parse_loop cb True (attach (JObject acc) (closed_frame l t ss fs p))"
proof -
  obtain l where l: "get_token p = reading l T_end_object p" "inp l = r" "sane l"
    using get_token_reads[OF reads_structural(4)[OF assms(5,6)]] by blast
  have "parse_state cb p = Inr (attach (JObject acc) (closed_frame l T_end_object ss fs p), Next_state)"
    using sax_end_closes[OF assms(1,2), of "reading l T_end_object p" "FObj acc k"] assms(3,4) l(1)
    by (simp add: parse_state_def closed_frame_def reading_def attach_states[symmetric])
  from loop_state[OF this] show ?thesis using l by auto
qed

text \<open>What is known of the elements of a container at nesting depth \<open>n\<close>.\<close>

definition element_reads :: "(dbl \<Rightarrow> string) \<Rightarrow> callback \<Rightarrow> nat \<Rightarrow> json \<Rightarrow> bool" where
  "element_reads tc cb n x \<longleftrightarrow> (\<forall>q t r. dump tc x = Inr t \<longrightarrow> inp (m_lexer q) = t @ r \<longrightarrow> sane (m_lexer q) \<longrightarrow>
     ends_number r \<longrightarrow> length (ref_stack q) = n \<longrightarrow>
     continues cb q (norm x) r \<and> last_token (get_token q) \<noteq> T_end_array)"

lemma element_readsD:
  "element_reads tc cb n x \<Longrightarrow> dump tc x = Inr t \<Longrightarrow> inp (m_lexer q) = t @ r \<Longrightarrow> sane (m_lexer q) \<Longrightarrow>
   ends_number r \<Longrightarrow> length (ref_stack q) = n \<Longrightarrow>
   \<exists>l t. inp l = r \<and> sane l \<and>
     parse_loop cb False (get_token q) = parse_loop cb True (attach (norm x) (reading l t q))"
  by (auto simp: element_reads_def continues_def)

lemma element_first_token:
  "element_reads tc cb n x \<Longrightarrow> dump tc x = Inr t \<Longrightarrow> inp (m_lexer q) = t @ r \<Longrightarrow> sane (m_lexer q) \<Longrightarrow>
   ends_number r \<Longrightarrow> length (ref_stack q) = n \<Longrightarrow> last_token (get_token q) \<noteq> T_end_array"
  by (auto simp: element_reads_def)

lemma array_tail:
  assumes "lenient cb D" and "length fs \<le> D"
  shows "\<forall>x \<in> set xs. element_reads tc cb (Suc (length fs)) x \<Longrightarrow>
    mapR (dump tc) xs = Inr ts \<Longrightarrow> ref_stack p = FArr acc # fs \<Longrightarrow> states p = True # ss \<Longrightarrow>
    inp (m_lexer p) = concat (map (\<lambda>t. CHR '','' # t) ts) @ CHR '']'' # r \<Longrightarrow> sane (m_lexer p) \<Longrightarrow>
    \<exists>l t. inp l = r \<and> sane l \<and>
      parse_loop cb True p = parse_loop cb True (attach (JArray (acc @ map norm xs)) (closed_frame l t ss fs p))"
proof (induction xs arbitrary: ts p acc)
  case Nil
  then show ?case using array_end[OF assms, of p acc ss r] by simp
next
  case (Cons x xs)
  obtain t ts' where ts: "ts = t # ts'" "dump tc x = Inr t" "mapR (dump tc) xs = Inr ts'"
    using Cons.prems(2) by (auto simp: andThen_eq_Inr)
  let ?rest = "concat (map (\<lambda>t. CHR '','' # t) ts') @ CHR '']'' # r"
  obtain l where l: "get_token p = reading l T_value_separator p" "inp l = t @ ?rest" "sane l"
    using get_token_reads[OF reads_structural(6)[of "m_lexer p" _ "t @ ?rest"]] Cons.prems(5,6) ts(1) by auto
  let ?q = "reading l T_value_separator p"
  have "parse_state cb p = Inr (get_token ?q, Next_value)"
    using Cons.prems(4) l(1) by (simp add: parse_state_def)
  from loop_state[OF this] have 1: "parse_loop cb True p = parse_loop cb False (get_token ?q)" by simp
  obtain l' t' where l': "inp l' = ?rest" "sane l'"
    "parse_loop cb False (get_token ?q) = parse_loop cb True (attach (norm x) (reading l' t' ?q))"
    using element_readsD[of tc cb "Suc (length fs)" x t ?q ?rest] Cons.prems(1,3) ts(2) l tail_ends by auto
  let ?p = "attach (norm x) (reading l' t' ?q)"
  have p: "ref_stack ?p = FArr (acc @ [norm x]) # fs" "states ?p = True # ss"
    "inp (m_lexer ?p) = ?rest" "sane (m_lexer ?p)"
    using Cons.prems(3,4) l' by (simp_all add: attach_def)
  have elems: "\<forall>x \<in> set xs. element_reads tc cb (Suc (length fs)) x" using Cons.prems(1) by simp
  obtain l'' t'' where l'': "inp l'' = r" "sane l''"
    "parse_loop cb True ?p = parse_loop cb True (attach (JArray ((acc @ [norm x]) @ map norm xs)) (closed_frame l'' t'' ss fs ?p))"
    using Cons.IH[OF elems ts(3) p] by blast
  have "closed_frame l'' t'' ss fs ?p = closed_frame l'' t'' ss fs p"
    using Cons.prems(3) by (simp add: closed_frame_def attach_def reading_def)
  then have "parse_loop cb True p = parse_loop cb True (attach (JArray (acc @ map norm (x # xs))) (closed_frame l'' t'' ss fs p))"
    using 1 l'(3) l''(3) by simp
  then show ?case using l''(1,2) by blast
qed

text \<open>An object key with its colon.\<close>

lemma key_reads:
  assumes "lenient cb D" and "Suc (length fs) \<le> D" and "dump_string k = Inr kt"
    and "inp (m_lexer p) = kt @ CHR '':'' # r" and "sane (m_lexer p)" and "ref_stack p = FObj m k0 # fs"
  shows "\<exists>l t. parse_key cb (get_token p) = Inr ((reading l t p)\<lparr>ref_stack := FObj m k # fs\<rparr>) \<and> inp l = r \<and> sane l"
proof -
  note rs = reads_string[OF assms(3,4,5)]
  obtain l where l: "get_token p = reading l T_value_string p" "inp l = CHR '':'' # r" "sane l"
    using get_token_reads[OF conjunct1[OF rs]] by blast
  then have "m_lexer (get_token p) = l" by simp
  then have tb: "token_buffer l = k" using rs by (simp add: get_token_def)
  let ?q = "(reading l T_value_string p)\<lparr>ref_stack := FObj m k # fs\<rparr>"
  have "reads (m_lexer ?q) T_name_separator r" using reads_structural(5)[of l _ r] l by simp
  from get_token_reads[OF this] obtain l' where l': "get_token ?q = reading l' T_name_separator ?q" "inp l' = r" "sane l'"
    by blast
  have "sax_key cb k (reading l T_value_string p) = Inr ?q"
    using assms(1,2,6) by (simp add: sax_key_def lenient_def)
  then have "parse_key cb (get_token p) = Inr (reading l' T_name_separator ?q)"
    using l(1) tb l'(1) by (simp add: parse_key_def)
  moreover have "reading l' T_name_separator ?q = (reading l' T_name_separator p)\<lparr>ref_stack := FObj m k # fs\<rparr>"
    by (simp add: reading_def)
  ultimately show ?thesis using l'(2,3) by auto
qed

definition put_all :: "(string \<times> json) list \<Rightarrow> (string \<times> json) list \<Rightarrow> (string \<times> json) list" where
  "put_all m acc = fold (\<lambda>kv. om_put (fst kv) (norm (snd kv))) m acc"

definition dump_member :: "(dbl \<Rightarrow> string) \<Rightarrow> string \<times> json \<Rightarrow> string result" where
  "dump_member tc kv = andThen (dump_string (fst kv)) (\<lambda>k. andThen (dump tc (snd kv)) (\<lambda>t. Inr (k @ '':'' @ t)))"

lemma dump_member_Inr:
  "dump_member tc kv = Inr t \<Longrightarrow>
   \<exists>kt vt. dump_string (fst kv) = Inr kt \<and> dump tc (snd kv) = Inr vt \<and> t = kt @ CHR '':'' # vt"
  by (auto simp: dump_member_def andThen_eq_Inr)

text \<open>The value of a member, after its key was read.\<close>

lemma object_tail:
  assumes "lenient cb D" and "Suc (length fs) \<le> D"
  shows "\<forall>kv \<in> set m. element_reads tc cb (Suc (length fs)) (snd kv) \<Longrightarrow>
    mapR (dump_member tc) m = Inr ts \<Longrightarrow> ref_stack p = FObj acc k # fs \<Longrightarrow> states p = False # ss \<Longrightarrow>
    inp (m_lexer p) = concat (map (\<lambda>t. CHR '','' # t) ts) @ CHR ''}'' # r \<Longrightarrow> sane (m_lexer p) \<Longrightarrow>
    \<exists>l t. inp l = r \<and> sane l \<and>
      parse_loop cb True p = parse_loop cb True (attach (JObject (put_all m acc)) (closed_frame l t ss fs p))"
proof (induction m arbitrary: ts p acc k)
  case Nil
  then show ?case using object_end[OF assms(1), of fs p acc k ss r] assms(2) by (simp add: put_all_def)
next
  case (Cons kv m)
  obtain t ts' where ts: "ts = t # ts'" "dump_member tc kv = Inr t" "mapR (dump_member tc) m = Inr ts'"
    using Cons.prems(2) by (auto simp: andThen_eq_Inr)
  obtain kt vt where t: "dump_string (fst kv) = Inr kt" "dump tc (snd kv) = Inr vt" "t = kt @ CHR '':'' # vt"
    using dump_member_Inr[OF ts(2)] by blast
  let ?rest = "concat (map (\<lambda>t. CHR '','' # t) ts') @ CHR ''}'' # r"
  obtain l where l: "get_token p = reading l T_value_separator p" "inp l = kt @ CHR '':'' # (vt @ ?rest)" "sane l"
    using get_token_reads[OF reads_structural(6)[of "m_lexer p" _ "t @ ?rest"]] Cons.prems(5,6) ts(1) t(3) by auto
  let ?q = "reading l T_value_separator p"
  obtain lk tk where k: "parse_key cb (get_token ?q) = Inr ((reading lk tk ?q)\<lparr>ref_stack := FObj acc (fst kv) # fs\<rparr>)"
    "inp lk = vt @ ?rest" "sane lk"
    using key_reads[OF assms t(1), of ?q "vt @ ?rest" acc k] l(2,3) Cons.prems(3) by auto
  let ?k = "(reading lk tk ?q)\<lparr>ref_stack := FObj acc (fst kv) # fs\<rparr>"
  have "parse_state cb p = Inr (get_token ?k, Next_value)"
    using Cons.prems(4) l(1) k(1) by (simp add: parse_state_def)
  from loop_state[OF this] have 1: "parse_loop cb True p = parse_loop cb False (get_token ?k)" by simp
  obtain l' t' where l': "inp l' = ?rest" "sane l'"
    "parse_loop cb False (get_token ?k) = parse_loop cb True (attach (norm (snd kv)) (reading l' t' ?k))"
    using element_readsD[of tc cb "Suc (length fs)" "snd kv" vt ?k ?rest] Cons.prems(1) t(2) k(2,3) tail_ends by auto
  let ?p = "attach (norm (snd kv)) (reading l' t' ?k)"
  have p: "ref_stack ?p = FObj (om_put (fst kv) (norm (snd kv)) acc) (fst kv) # fs" "states ?p = False # ss"
    "inp (m_lexer ?p) = ?rest" "sane (m_lexer ?p)"
    using Cons.prems(4) l' by (simp_all add: attach_def reading_def)
  have elems: "\<forall>kv \<in> set m. element_reads tc cb (Suc (length fs)) (snd kv)" using Cons.prems(1) by simp
  obtain l'' t'' where l'': "inp l'' = r" "sane l''"
    "parse_loop cb True ?p = parse_loop cb True (attach (JObject (put_all m (om_put (fst kv) (norm (snd kv)) acc))) (closed_frame l'' t'' ss fs ?p))"
    using Cons.IH[OF elems ts(3) p] by blast
  have "closed_frame l'' t'' ss fs ?p = closed_frame l'' t'' ss fs p"
    by (simp add: closed_frame_def attach_def reading_def)
  then have "parse_loop cb True p = parse_loop cb True (attach (JObject (put_all (kv # m) acc)) (closed_frame l'' t'' ss fs p))"
    using 1 l'(3) l''(3) by (simp add: put_all_def)
  then show ?case using l''(1,2) by blast
qed

lemma put_all_sorted:
  "om_inv m \<Longrightarrow> (\<forall>k \<in> fst ` set acc. \<forall>l \<in> fst ` set m. k < l) \<Longrightarrow>
   put_all m acc = acc @ map (\<lambda>kv. (fst kv, norm (snd kv))) m"
proof (induction m arbitrary: acc)
  case (Cons kv m)
  have last: "om_put k v acc = acc @ [(k, v)]" if "\<forall>l \<in> fst ` set acc. l < k" for k and v :: json
    using that by (induction acc) auto
  have "put_all (kv # m) acc = put_all m (acc @ [(fst kv, norm (snd kv))])"
    using Cons.prems(2) by (subst last[symmetric]) (auto simp: put_all_def)
  then show ?case using Cons.IH[of "acc @ [(fst kv, norm (snd kv))]"] Cons.prems by auto
qed (simp add: put_all_def)

lemma dump_object: "dump tc (JObject m) =
    andThen (mapR (dump_member tc) m) (\<lambda>ts. Inr (''{'' @ join_commas ts @ ''}''))"
  by (simp add: dump_member_def[abs_def])

lemma element_depth:
  "x \<in> set xs \<Longrightarrow> Suc (json_depth x) \<le> json_depth (JArray xs)"
  "kv \<in> set m \<Longrightarrow> Suc (json_depth (snd kv)) \<le> json_depth (JObject m)"
proof -
  have m: "y \<le> max_list ys" if "y \<in> set ys" for y ys
    using that max_list_le[of ys "max_list ys"] by blast
  show "x \<in> set xs \<Longrightarrow> Suc (json_depth x) \<le> json_depth (JArray xs)"
    unfolding json_depth.simps by (rule m) auto
  show "kv \<in> set m \<Longrightarrow> Suc (json_depth (snd kv)) \<le> json_depth (JObject m)"
    unfolding json_depth.simps by (rule m) auto
qed

lemma container_continues:
  assumes "get_token q = reading l tok q" and "parse_value cb (reading l tok q) = Inr (p, Next_state)"
    and "p = attach v (reading l' t' q)" and "inp l' = r" and "sane l'"
  shows "continues cb q v r"
  unfolding continues_def using loop_value[OF assms(2)] assms(1,3,4,5) by metis

lemma array_reads:
  assumes cb: "lenient cb D" and d: "json_depth (JArray xs) + n \<le> D"
    and elems: "\<forall>x \<in> set xs. element_reads tc cb (Suc n) x"
  shows "element_reads tc cb n (JArray xs)"
  unfolding element_reads_def
proof (intro allI impI conjI)
  fix q :: parser and tx r
  assume tx: "dump tc (JArray xs) = Inr tx" and i: "inp (m_lexer q) = tx @ r" and sn: "sane (m_lexer q)"
    and n: "length (ref_stack q) = n"
  obtain ts where ts: "mapR (dump tc) xs = Inr ts" "tx = CHR ''['' # join_commas ts @ '']''"
    using tx by (auto simp: andThen_eq_Inr)
  obtain l where l: "get_token q = reading l T_begin_array q" "inp l = join_commas ts @ CHR '']'' # r" "sane l"
    using get_token_reads[OF reads_structural(1)[of "m_lexer q"]] i ts(2) sn by auto
  define q1 where "q1 = (reading l T_begin_array q)\<lparr>ref_stack := FArr [] # ref_stack q\<rparr>"
  have start: "sax_start cb (FArr []) (reading l T_begin_array q) = Inr q1"
    using cb d n by (simp add: sax_start_def lenient_def q1_def)
  show "last_token (get_token q) \<noteq> T_end_array" using l(1) by simp
  show "continues cb q (norm (JArray xs)) r"
  proof (cases xs)
    case Nil
    then have "inp l = CHR '']'' # r" using l(2) ts(1) by simp
    from reads_structural(2)[OF this l(3)] have "reads (m_lexer q1) T_end_array r" by (simp add: q1_def)
    from get_token_reads[OF this] obtain l1 where l1: "get_token q1 = reading l1 T_end_array q1" "inp l1 = r" "sane l1" by blast
    have "sax_end cb (reading l1 T_end_array q1) = Inr (attach (JArray []) (reading l1 T_end_array q))"
      using sax_end_closes[OF cb, of "ref_stack q" "reading l1 T_end_array q1" "FArr []"] d n
      by (simp add: q1_def reading_def)
    then have "parse_value cb (reading l T_begin_array q) = Inr (attach (JArray []) (reading l1 T_end_array q), Next_state)"
      using start l1(1) by (simp add: parse_value_def)
    from container_continues[OF l(1) this refl l1(2,3)] show ?thesis using Nil by simp
  next
    case (Cons x xs')
    obtain t ts' where t: "ts = t # ts'" "dump tc x = Inr t" "mapR (dump tc) xs' = Inr ts'"
      using ts(1) Cons by (auto simp: andThen_eq_Inr)
    let ?rest = "concat (map (\<lambda>t. CHR '','' # t) ts') @ CHR '']'' # r"
    have nD: "Suc n \<le> D" using element_depth(1)[of x xs] Cons d by simp
    have i1: "inp (m_lexer q1) = t @ ?rest" using l(2) t(1) by (simp add: q1_def join_commas_Cons)
    have tok: "last_token (get_token q1) \<noteq> T_end_array"
      using element_first_token[of tc cb "Suc n" x t q1 ?rest] elems Cons t(2) i1 l(3) n tail_ends
      by (simp add: q1_def)
    define q2 where "q2 = q1\<lparr>states := True # states q\<rparr>"
    have "parse_value cb (reading l T_begin_array q) = Inr (get_token q2, Next_value)"
      using start tok by (simp add: parse_value_def q2_def get_token_def q1_def)
    from loop_next[OF this] have 1: "parse_loop cb False (get_token q) = parse_loop cb False (get_token q2)"
      using l(1) by simp
    obtain l' t' where l': "inp l' = ?rest" "sane l'"
      "parse_loop cb False (get_token q2) = parse_loop cb True (attach (norm x) (reading l' t' q2))"
      using element_readsD[of tc cb "Suc n" x t q2 ?rest] elems Cons t(2) i1 l(3) n tail_ends
      by (auto simp: q2_def q1_def)
    let ?p = "attach (norm x) (reading l' t' q2)"
    have p: "ref_stack ?p = FArr [norm x] # ref_stack q" "states ?p = True # states q"
      "inp (m_lexer ?p) = ?rest" "sane (m_lexer ?p)"
      using l' by (simp_all add: attach_def q2_def q1_def reading_def)
    have es: "\<forall>x \<in> set xs'. element_reads tc cb (Suc (length (ref_stack q))) x" and fD: "length (ref_stack q) \<le> D"
      using elems Cons n nD by auto
    obtain l'' t'' where l'': "inp l'' = r" "sane l''"
      "parse_loop cb True ?p = parse_loop cb True (attach (JArray ([norm x] @ map norm xs')) (closed_frame l'' t'' (states q) (ref_stack q) ?p))"
      using array_tail[OF cb fD es t(3) p] by blast
    have "closed_frame l'' t'' (states q) (ref_stack q) ?p = reading l'' t'' q"
      by (simp add: closed_frame_def attach_def reading_def q2_def q1_def)
    then show ?thesis using 1 l'(3) l'' Cons unfolding continues_def by auto
  qed
qed

lemma object_reads:
  assumes cb: "lenient cb D" and d: "json_depth (JObject m) + n \<le> D" and inv: "om_inv m"
    and elems: "\<forall>kv \<in> set m. element_reads tc cb (Suc n) (snd kv)"
  shows "element_reads tc cb n (JObject m)"
  unfolding element_reads_def
proof (intro allI impI conjI)
  fix q :: parser and tx r
  assume tx: "dump tc (JObject m) = Inr tx" and i: "inp (m_lexer q) = tx @ r" and sn: "sane (m_lexer q)"
    and n: "length (ref_stack q) = n"
  obtain ts where ts: "mapR (dump_member tc) m = Inr ts" "tx = CHR ''{'' # join_commas ts @ ''}''"
    using tx unfolding dump_object by (auto simp: andThen_eq_Inr)
  obtain l where l: "get_token q = reading l T_begin_object q" "inp l = join_commas ts @ CHR ''}'' # r" "sane l"
    using get_token_reads[OF reads_structural(3)[of "m_lexer q"]] i ts(2) sn by auto
  show "last_token (get_token q) \<noteq> T_end_array" using l(1) by simp
  define q1 where "q1 = (reading l T_begin_object q)\<lparr>ref_stack := FObj [] [] # ref_stack q\<rparr>"
  have start: "sax_start cb (FObj [] []) (reading l T_begin_object q) = Inr q1"
    using cb d n by (simp add: sax_start_def lenient_def q1_def)
  show "continues cb q (norm (JObject m)) r"
  proof (cases m)
    case Nil
    then have "inp l = CHR ''}'' # r" using l(2) ts(1) by simp
    from reads_structural(4)[OF this l(3)] have "reads (m_lexer q1) T_end_object r" by (simp add: q1_def)
    from get_token_reads[OF this] obtain l1 where l1: "get_token q1 = reading l1 T_end_object q1" "inp l1 = r" "sane l1" by blast
    have "sax_end cb (reading l1 T_end_object q1) = Inr (attach (JObject []) (reading l1 T_end_object q))"
      using sax_end_closes[OF cb, of "ref_stack q" "reading l1 T_end_object q1" "FObj [] []"] d n
      by (simp add: q1_def reading_def)
    then have "parse_value cb (reading l T_begin_object q) = Inr (attach (JObject []) (reading l1 T_end_object q), Next_state)"
      using start l1(1) by (simp add: parse_value_def)
    from container_continues[OF l(1) this refl l1(2,3)] show ?thesis using Nil by simp
  next
    case (Cons kv m')
    obtain t ts' where t: "ts = t # ts'" "dump_member tc kv = Inr t" "mapR (dump_member tc) m' = Inr ts'"
      using ts(1) Cons by (auto simp: andThen_eq_Inr)
    obtain kt vt where k: "dump_string (fst kv) = Inr kt" "dump tc (snd kv) = Inr vt" "t = kt @ CHR '':'' # vt"
      using dump_member_Inr[OF t(2)] by blast
    let ?rest = "concat (map (\<lambda>t. CHR '','' # t) ts') @ CHR ''}'' # r"
    have nD: "Suc (length (ref_stack q)) \<le> D" using element_depth(2)[of kv m] Cons d n by simp
    have i1: "inp (m_lexer q1) = kt @ CHR '':'' # (vt @ ?rest)" "sane (m_lexer q1)" "ref_stack q1 = FObj [] [] # ref_stack q"
      using l(2,3) t(1) k(3) by (simp_all add: q1_def join_commas_Cons)
    have tok: "last_token (get_token q1) = T_value_string"
      using reads_string[OF k(1) i1(1,2)] by (simp add: reads_def get_token_def)
    obtain lk tk where key: "parse_key cb (get_token q1) = Inr ((reading lk tk q1)\<lparr>ref_stack := FObj [] (fst kv) # ref_stack q\<rparr>)"
      "inp lk = vt @ ?rest" "sane lk" using key_reads[OF cb nD k(1) i1] by blast
    define q2 where "q2 = (reading lk tk q)\<lparr>ref_stack := FObj [] (fst kv) # ref_stack q, states := False # states q\<rparr>"
    have "parse_value cb (reading l T_begin_object q) = Inr (get_token q2, Next_value)"
      using start tok key(1) by (simp add: parse_value_def q2_def q1_def reading_def)
    from loop_next[OF this] have 1: "parse_loop cb False (get_token q) = parse_loop cb False (get_token q2)"
      using l(1) by simp
    obtain l' t' where l': "inp l' = ?rest" "sane l'"
      "parse_loop cb False (get_token q2) = parse_loop cb True (attach (norm (snd kv)) (reading l' t' q2))"
      using element_readsD[of tc cb "Suc n" "snd kv" vt q2 ?rest] elems Cons k(2) key(2,3) n tail_ends
      by (auto simp: q2_def)
    let ?p = "attach (norm (snd kv)) (reading l' t' q2)"
    have p: "ref_stack ?p = FObj [(fst kv, norm (snd kv))] (fst kv) # ref_stack q" "states ?p = False # states q"
      "inp (m_lexer ?p) = ?rest" "sane (m_lexer ?p)"
      using l' by (simp_all add: attach_def q2_def reading_def)
    have es: "\<forall>kv \<in> set m'. element_reads tc cb (Suc (length (ref_stack q))) (snd kv)"
      using elems Cons n by auto
    obtain l'' t'' where l'': "inp l'' = r" "sane l''"
      "parse_loop cb True ?p = parse_loop cb True (attach (JObject (put_all m' [(fst kv, norm (snd kv))])) (closed_frame l'' t'' (states q) (ref_stack q) ?p))"
      using object_tail[OF cb nD es t(3) p] by blast
    have "put_all m' [(fst kv, norm (snd kv))] = map (\<lambda>kv. (fst kv, norm (snd kv))) m"
      using put_all_sorted[of m' "[(fst kv, norm (snd kv))]"] inv Cons by simp
    moreover have "closed_frame l'' t'' (states q) (ref_stack q) ?p = reading l'' t'' q"
      by (simp add: closed_frame_def attach_def reading_def q2_def)
    ultimately show ?thesis using 1 l'(3) l'' unfolding continues_def by auto
  qed
qed

lemma scalar_element:
  assumes "lenient cb D" and "n \<le> D"
    and "\<And>l t r. dump tc x = Inr t \<Longrightarrow> inp l = t @ r \<Longrightarrow> sane l \<Longrightarrow> ends_number r \<Longrightarrow>
      reads l tok r \<and> (\<forall>q. m_lexer q = fst (scan l) \<longrightarrow> last_token q = tok \<longrightarrow>
        parse_value cb q = andThen (sax_value cb (norm x) q) (\<lambda>p. Inr (p, Next_state)))"
    and "tok \<noteq> T_end_array"
  shows "element_reads tc cb n x"
  unfolding element_reads_def
proof (intro allI impI conjI)
  fix q :: parser and t r
  assume a: "dump tc x = Inr t" "inp (m_lexer q) = t @ r" "sane (m_lexer q)" "ends_number r" "length (ref_stack q) = n"
  note s = assms(3)[OF a(1-4)]
  show "continues cb q (norm x) r"
  proof (rule scalar_continues[OF conjunct1[OF s] assms(1)])
    show "length (ref_stack q) \<le> D" using a(5) assms(2) by simp
    fix l
    assume g: "get_token q = reading l tok q"
    have "m_lexer (get_token q) = l" using g by simp
    then have "l = fst (scan (m_lexer q))" by (simp add: get_token_def)
    then show "parse_value cb (reading l tok q) = andThen (sax_value cb (norm x) (reading l tok q)) (\<lambda>p. Inr (p, Next_state))"
      using s by simp
  qed
  show "last_token (get_token q) \<noteq> T_end_array"
    using s assms(4) by (simp add: reads_def get_token_def)
qed

text \<open>The writer of floats is a parameter here: all that is asked of it is that its texts are read back.\<close>

definition float_reads :: "(dbl \<Rightarrow> string) \<Rightarrow> dbl \<Rightarrow> bool" where
  "float_reads tc d \<longleftrightarrow> (\<forall>cb D n. lenient cb D \<longrightarrow> n \<le> D \<longrightarrow> element_reads tc cb n (JFloat d))"

lemma dump_reads:
  "lenient cb D \<Longrightarrow> floats_all (float_reads tc) j \<Longrightarrow> json_wf j \<Longrightarrow> json_depth j + n \<le> D \<Longrightarrow> element_reads tc cb n j"
proof (induction j arbitrary: n)
  case JNull
  show ?case
    by (rule scalar_element[OF JNull(1), where tok = T_literal_null])
      (use JNull reads_literal(3) in \<open>auto simp: parse_value_def\<close>)
next
  case (JBool b)
  show ?case
    by (rule scalar_element[OF JBool(1), where tok = "if b then T_literal_true else T_literal_false"])
      (use JBool reads_literal(1,2) in \<open>auto simp: parse_value_def\<close>)
next
  case (JUInt i)
  then have i: "number_text (dump_integer i)" "digits_value (dump_integer i) = i" "in_unsigned 64 i"
    using dump_integer_nonneg[of i] by (auto simp: in_unsigned_def)
  show ?case
    by (rule scalar_element[OF JUInt(1), where tok = T_value_unsigned])
      (use JUInt(4) reads_unsigned[OF i(1)] i in \<open>auto simp: parse_value_def\<close>)
next
  case (JInt i)
  show ?case
  proof (cases "0 \<le> i")
    case True
    then have i: "number_text (dump_integer i)" "digits_value (dump_integer i) = i" "in_unsigned 64 i"
      using dump_integer_nonneg[of i] JInt(3) by (auto simp: in_unsigned_def in_signed_def)
    show ?thesis
      by (rule scalar_element[OF JInt(1), where tok = T_value_unsigned])
        (use True JInt(4) reads_unsigned[OF i(1)] i in \<open>auto simp: parse_value_def\<close>)
  next
    case False
    then obtain ds where ds: "dump_integer i = CHR ''-'' # ds" "number_text ds" "digits_value ds = - i"
      using dump_integer_neg[of i] by auto
    show ?thesis
      by (rule scalar_element[OF JInt(1), where tok = T_value_integer])
        (use False JInt(3,4) reads_negative[OF ds(2)] ds in \<open>auto simp: parse_value_def\<close>)
  qed
next
  case (JString s)
  show ?case
    by (rule scalar_element[OF JString(1), where tok = T_value_string])
      (use JString(4) reads_string[of s] in \<open>auto simp: parse_value_def\<close>)
next
  case (JArray xs)
  have "element_reads tc cb (Suc n) x" if "x \<in> set xs" for x
    using JArray.IH[OF that JArray.prems(1), of "Suc n"] that JArray.prems element_depth(1)[OF that] by simp
  then show ?case using array_reads[OF JArray.prems(1,4)] by blast
next
  case (JObject m)
  have "element_reads tc cb (Suc n) (snd kv)" if kv: "kv \<in> set m" for kv
  proof -
    have "floats_all (float_reads tc) (snd kv)" "json_wf (snd kv)"
      using kv JObject.prems(2,3) by auto
    moreover have "json_depth (snd kv) + Suc n \<le> D"
      using element_depth(2)[OF kv] JObject.prems(4) by simp
    ultimately show ?thesis
      using JObject.IH[OF kv _ JObject.prems(1), of "snd kv" "Suc n"] by (simp add: snds.simps)
  qed
  then show ?case using object_reads[OF JObject.prems(1,4)] JObject.prems(3) by auto
next
  case (JFloat d)
  then show ?case by (auto simp: float_reads_def)
qed

section \<open>Whole texts\<close>

lemma loop_done:
  "states p = [] \<Longrightarrow> parse_loop cb True p = Inr p"
  by (subst parse_loop_step) (simp add: parse_state_def)

lemma inp_init: "inp (init_lexer t) = t" "sane (init_lexer t)"
  by (simp_all add: inp_def sane_def init_lexer_def)

lemma parse_dumped:
  assumes "lenient cb (json_depth j)" and "floats_all (float_reads tc) j" and "json_wf j" and "dump tc j = Inr t"
  shows "json_parse cb t = Inr (norm j)"
proof -
  let ?q = "\<lparr>m_lexer = init_lexer t, last_token = T_uninitialized, states = [], ref_stack = [], root = JNull\<rparr>"
  have "element_reads tc cb 0 j" by (rule dump_reads[OF assms(1-3)]) simp
  from element_readsD[OF this assms(4), of ?q "[]"] obtain l tok where l: "inp l = []" "sane l"
    "parse_loop cb False (init_parser t) = parse_loop cb True (attach (norm j) (reading l tok ?q))"
    by (auto simp: inp_init init_parser_def)
  let ?p = "attach (norm j) (reading l tok ?q)"
  have p: "m_lexer ?p = l" "states ?p = []" "root ?p = norm j"
    by (simp_all add: attach_def reading_def)
  have "last_token (get_token ?p) = T_end_of_input" "root (get_token ?p) = norm j"
    using scan_Nil[OF l(1,2)] p by (simp_all add: get_token_def split: prod.split)
  then show ?thesis using l(3) loop_done[OF p(2)] by (simp add: json_parse_def)
qed

lemma parse_request_floats:
  assumes "floats_all (float_reads tc) j" and "json_wf j" and "dump tc j = Inr t"
  shows "parse_request_json t =
    (if json_depth j \<le> MAX_JSON_NESTING_DEPTH then Inr (norm j) else Inl nesting_error)"
proof (cases "json_depth j \<le> MAX_JSON_NESTING_DEPTH")
  case True
  then have "lenient depth_callback (json_depth j)" by (simp add: lenient_def depth_callback_def)
  from parse_dumped[OF this assms] True show ?thesis by (simp add: parse_request_json_def)
next
  case False
  have "json_parse free_callback t = Inr (norm j)"
    using parse_dumped[OF _ assms] by (simp add: lenient_def free_callback_def)
  then show ?thesis
    using json_parse_guard[OF depth_callback_guards, of t] parse_request_depth[of t "norm j"] False
    by (auto simp: parse_request_json_def)
qed

lemmas parse_request_dump = parse_request_floats[OF no_floats_all]

text \<open>
  What the server writes it reads back. What \<^verbatim>\<open>dump\<close> writes for a value without floats is
  accepted as a request body exactly when the value is nested at most 64 deep; the value read
  is then the value written, its non-negative integers as unsigned numbers. A deeper value is refused with the
  \<^verbatim>\<open>bad_request_error\<close> of the nesting limit.
\<close>

theorem dump_parse_roundtrip:
  assumes "no_floats j" and "json_wf j" and "dump tc j = Inr t"
  shows "parse_request_json t =
    (if json_depth j \<le> MAX_JSON_NESTING_DEPTH then Inr (norm j) else Inl nesting_error)"
  by (rule parse_request_dump[OF assms])

theorem dump_parse_roundtrip_witness:
  "\<exists>t. dump (\<lambda>_. ''1.5'') (JObject [(''a'', JArray [JInt 7, JInt (- 3), JNull]), (''b'', JString ''x'')]) = Inr t \<and>
     parse_request_json t = Inr (JObject [(''a'', JArray [JUInt 7, JInt (- 3), JNull]), (''b'', JString ''x'')])"
proof -
  let ?j = "JObject [(''a'', JArray [JInt 7, JInt (- 3), JNull]), (''b'', JString ''x'')]"
  obtain t where t: "dump (\<lambda>_. ''1.5'') ?j = Inr t"
    by (cases "dump (\<lambda>_. ''1.5'') ?j") (simp, code_simp)
  have "no_floats ?j" "json_wf ?j" "json_depth ?j \<le> MAX_JSON_NESTING_DEPTH" by code_simp+
  with t show ?thesis using dump_parse_roundtrip[OF _ _ t] by simp
qed

end
