(* ===== verification/Float_Roundtrip.thy ===== *)
theory Float_Roundtrip
  imports Float_Text Json_Values_Roundtrip
begin

text \<open>
  Doubles through the serializer and the parser: \<^verbatim>\<open>to_chars\<close> returns for every double, within the
  room of its buffer, and \<^verbatim>\<open>strtod\<close> reads the text back as that double; so whole values are read
  back with their floats.
\<close>

section \<open>One double\<close>

lemma to_chars_shape:
  assumes "is_double (Finite s q)"
  shows "\<exists>w f x. to_chars (Finite s q) = Some (Inr ((if s then ''-'' else []) @ float_text w f x)) \<and> float_shape w f x \<and>
    to_double s (float_value w f x) = Finite s q \<and> length (float_text w f x) \<le> 23"
proof (cases "q = 0")
  case True
  have "to_chars (Finite s q) = Some (Inr ((if s then ''-'' else []) @ float_text ''0'' ''0'' []))"
    using True by (simp add: to_chars_def float_text_def)
  moreover have "float_shape ''0'' ''0'' []"
    by (simp add: float_shape_def number_text_def all_digits_def is_digit_def)
  moreover have "to_double s (float_value ''0'' ''0'' []) = Finite s q"
    using True by (simp add: float_value_def digits_value_def digit_value_def to_double_def round_to_def)
  moreover have "length (float_text ''0'' ''0'' []) \<le> 23" by (simp add: float_text_def)
  ultimately show ?thesis by blast
next
  case False
  obtain n u where p: "double_parts n u" and q: "q = of_int n * pow2 u"
    using is_double_parts[OF assms False] by blast
  obtain ds k where d: "grisu2 q = Some (Inr (ds, k))" "good_digits ds" "length ds \<le> 17" "\<bar>k\<bar> \<le> 400"
    "to_double s (of_int (digits_num ds) * 10 powi k) = Finite s q"
    using grisu2_sound[OF p] unfolding q by blast
  obtain w f x where t: "format_buffer (map digit_char ds) k (- 4) 15 = Inr (float_text w f x)" "float_shape w f x"
    "float_value w f x = of_int (digits_num ds) * 10 powi k" "length (float_text w f x) \<le> 23"
    using format_buffer_shape[OF d(2-4)] by blast
  have "to_chars (Finite s q) = Some (Inr ((if s then ''-'' else []) @ float_text w f x))"
    using False d(1,3) t(1) by (simp add: to_chars_def)
  then show ?thesis using t d(5) by metis
qed

lemma to_chars_back:
  assumes "is_double (Finite s q)"
  shows "\<exists>t. to_chars (Finite s q) = Some (Inr t) \<and> strtod t = Finite s q \<and> t \<noteq> [] \<and> length t \<le> 24"
proof -
  obtain w f x where t: "to_chars (Finite s q) = Some (Inr ((if s then ''-'' else []) @ float_text w f x))" "float_shape w f x"
    "to_double s (float_value w f x) = Finite s q" "length (float_text w f x) \<le> 23"
    using to_chars_shape[OF assms] by blast
  have "(if s then ''-'' else []) @ float_text w f x \<noteq> []"
    using t(2) by (auto simp: float_text_def float_shape_def)
  then show ?thesis using t strtod_float_text[OF t(2), of s] by simp
qed

lemma double_reads:
  assumes d: "is_double d"
  shows "float_reads float_chars d"
  unfolding float_reads_def
proof (intro allI impI)
  fix cb D n
  assume cb: "lenient cb D" "n \<le> D"
  show "element_reads float_chars cb n (JFloat d)"
  proof (cases d)
    case (Finite s q)
    obtain w f x where t: "to_chars (Finite s q) = Some (Inr ((if s then ''-'' else []) @ float_text w f x))" "float_shape w f x"
      "to_double s (float_value w f x) = Finite s q"
      using to_chars_shape d Finite by blast
    have v: "strtod ((if s then ''-'' else []) @ float_text w f x) = Finite s q"
      using strtod_float_text[OF t(2), of s] t(3) by simp
    have dt: "dump float_chars (JFloat d) = Inr ((if s then ''-'' else []) @ float_text w f x)"
      using t(1) Finite by (simp add: float_chars_def)
    show ?thesis
    proof (rule scalar_element[OF cb, where tok = T_value_float])
      fix l t' r
      assume a: "dump float_chars (JFloat d) = Inr t'" "inp l = t' @ r" "sane l" "ends_number r"
      have i: "inp l = (if s then ''-'' else []) @ float_text w f x @ r" using a(1,2) dt by simp
      show "reads l T_value_float r \<and> (\<forall>q. m_lexer q = fst (scan l) \<longrightarrow> last_token q = T_value_float \<longrightarrow>
          parse_value cb q = andThen (sax_value cb (norm (JFloat d)) q) (\<lambda>p. Inr (p, Next_state)))"
        using reads_float[OF t(2) i a(3,4)] v Finite by (auto simp: parse_value_def)
    qed simp
  next
    case (Infinite s)
    show ?thesis
      by (rule scalar_element[OF cb, where tok = T_literal_null])
        (use Infinite reads_literal(3) in \<open>auto simp: parse_value_def\<close>)
  next
    case NaN
    show ?thesis
      by (rule scalar_element[OF cb, where tok = T_literal_null])
        (use NaN reads_literal(3) in \<open>auto simp: parse_value_def\<close>)
  qed
qed

lemma double_of_parts:
  assumes "double_parts n u"
  shows "is_double (Finite s (of_int n * pow2 u))"
proof -
  have "to_double s (of_int n * pow2 u) = Finite s (of_int n * pow2 u)"
    by (rule rounds_back[OF assms]) (simp_all add: lower_gap_def)
  moreover have "0 \<le> of_int n * pow2 u" using assms by (simp add: double_parts_def less_imp_le)
  ultimately show ?thesis by (simp add: is_double_def)
qed

section \<open>Whole values\<close>

lemma wf_floats: "json_wf j \<Longrightarrow> floats_all (float_reads float_chars) j"
proof (induction j rule: no_floats.induct)
  case (1 d)
  then show ?case by (simp add: double_reads)
qed auto

lemma parse_document: "json_wf j \<Longrightarrow> dump float_chars j = Inr t \<Longrightarrow> json_parse free_callback t = Inr (norm j)"
  using parse_dumped[OF _ wf_floats] by (simp add: lenient_def free_callback_def)

lemma parse_request_document:
  "json_wf j \<Longrightarrow> dump float_chars j = Inr t \<Longrightarrow> parse_request_json t =
    (if json_depth j \<le> MAX_JSON_NESTING_DEPTH then Inr (norm j) else Inl nesting_error)"
  by (rule parse_request_floats[OF wf_floats])

lemma write_digits_not_Nil: "write_digits x \<noteq> []"
  by (subst write_digits.simps) (simp add: digits_to_99_def)

lemma dump_not_Nil: "json_wf j \<Longrightarrow> dump float_chars j \<noteq> Inr []"
proof (cases j)
  case (JFloat d)
  moreover assume "json_wf j"
  ultimately show ?thesis using to_chars_back by (cases d) (fastforce simp: float_chars_def)+
qed (use write_digits_not_Nil in \<open>auto simp: andThen_eq_Inr dump_string_def dump_integer_def\<close>)

text \<open>
  C4. Every double survives its text. For every double \<^verbatim>\<open>to_chars\<close> returns without failing an
  assertion; its text has at most 24 characters, which is within the buffer of 64, and \<^verbatim>\<open>strtod\<close>,
  with which the lexer reads a number, yields exactly that double again, the sign of zero included.
\<close>

theorem double_text_roundtrip:
  assumes "is_double (Finite s q)"
  shows "\<exists>t. to_chars (Finite s q) = Some (Inr t) \<and> strtod t = Finite s q \<and> length t \<le> 24"
  using to_chars_back[OF assms] by blast

text \<open>The double next to a tenth.\<close>

lemma tenth_double: "is_double (Finite s (3602879701896397 / 36028797018963968))"
  using double_of_parts[of 7205759403792794 "- 56" s] by (simp add: double_parts_def pow2_def)

theorem double_text_roundtrip_witness:
  "\<exists>t. to_chars (Finite True (3602879701896397 / 36028797018963968)) = Some (Inr t) \<and>
     strtod t = Finite True (3602879701896397 / 36028797018963968)"
  using double_text_roundtrip[OF tenth_double] by blast

text \<open>
  C3. What the server writes it reads back. The parser reads what \<^verbatim>\<open>dump\<close> writes for a
  well-formed value as that value, every double exactly, its non-negative integers as unsigned
  numbers, its infinities and NaNs as \<^verbatim>\<open>null\<close>. As a request body it is accepted exactly when it is
  nested at most 64 deep, and refused with the \<^verbatim>\<open>bad_request_error\<close> of the nesting limit otherwise.
\<close>

theorem document_roundtrip:
  assumes "json_wf j" and "dump float_chars j = Inr t"
  shows "json_parse free_callback t = Inr (norm j) \<and> parse_request_json t =
    (if json_depth j \<le> MAX_JSON_NESTING_DEPTH then Inr (norm j) else Inl nesting_error)"
  using parse_document[OF assms] parse_request_document[OF assms] by blast

theorem document_roundtrip_witness:
  "\<exists>t. dump float_chars (JObject [(''a'', JArray [JInt 7, JFloat NaN, JNull]), (''b'', JFloat (Finite True (3602879701896397 / 36028797018963968)))]) = Inr t \<and>
     parse_request_json t = Inr (JObject [(''a'', JArray [JUInt 7, JNull, JNull]), (''b'', JFloat (Finite True (3602879701896397 / 36028797018963968)))])"
proof -
  let ?v = "Finite True (3602879701896397 / 36028797018963968)"
  let ?j = "JObject [(''a'', JArray [JInt 7, JFloat NaN, JNull]), (''b'', JFloat ?v)]"
  obtain ft where "to_chars ?v = Some (Inr ft)"
    using to_chars_back[OF tenth_double] by blast
  then have f: "float_chars ?v = ft" by (simp add: float_chars_def)
  have k: "dump_string ''a'' = Inr [CHR 0x22, CHR ''a'', CHR 0x22]" "dump_string ''b'' = Inr [CHR 0x22, CHR ''b'', CHR 0x22]"
    by code_simp+
  obtain t where t: "dump float_chars ?j = Inr t" using k by simp
  have "json_wf ?j" "json_depth ?j \<le> MAX_JSON_NESTING_DEPTH"
    using tenth_double by (simp_all add: in_signed_def MAX_JSON_NESTING_DEPTH_def is_double_def[of NaN])
  then show ?thesis using document_roundtrip[OF _ t] t by simp
qed

end
