(* ===== verification/Answers.thy ===== *)
theory Answers
  imports Session_Correct Float_Roundtrip
begin

text \<open>
  Type safety of what the server answers: the options a session keeps, its JSON, the elements of
  a tensor, the outputs of an inference and the list of sessions are well-formed values for
  every runtime, hence so is the answer of every task (\<open>answers_well_formed\<close>).
\<close>

section \<open>Answers are well-formed\<close>

definition members_wf :: "(string \<times> json) list \<Rightarrow> bool" where
  "members_wf m \<longleftrightarrow> json_wf (JObject m)"

lemma members_wf_put [simp]: "members_wf m \<Longrightarrow> json_wf v \<Longrightarrow> members_wf (om_put k v m)"
  unfolding members_wf_def by (rule json_wf_om_put)

lemma members_wf_Nil [simp]: "members_wf []"
  by (simp add: members_wf_def)

lemma foldl_put_wf:
  "members_wf m \<Longrightarrow> \<forall>x \<in> set xs. json_wf (f x) \<Longrightarrow> members_wf (foldl (\<lambda>m x. om_put (g x) (f x) m) m xs)"
  by (induction xs arbitrary: m) simp_all

lemma in_signed_mono: "v \<le> w \<Longrightarrow> in_signed v i \<Longrightarrow> in_signed w i"
proof -
  assume "v \<le> w"
  then have "(2::int) ^ (v - 1) \<le> 2 ^ (w - 1)" by (simp add: power_increasing)
  then show "in_signed v i \<Longrightarrow> in_signed w i" unfolding in_signed_def by linarith
qed

lemma wrapped_wf: "json_wf (JInt (wrap_signed 32 i))" "json_wf (JInt (wrap_signed 64 i))"
  by (auto intro: in_signed_mono[OF _ wrap_signed_range[of 32 i]] wrap_signed_range)

lemma try_apply_wf:
  "members_wf (snd st) \<Longrightarrow> \<forall>kv \<in> set echo. json_wf (snd kv) \<Longrightarrow>
   members_wf (snd (try_apply ort call echo st))"
  by (simp add: try_apply_def foldl_put_wf split: option.split)

lemma apply_wf:
  "members_wf (snd st) \<Longrightarrow> members_wf (snd (apply_int ort input k call st))"
  "members_wf (snd st) \<Longrightarrow> members_wf (snd (apply_bool ort input k enable disable st))"
  "members_wf (snd st) \<Longrightarrow> members_wf (snd (apply_string ort input k parse st))"
  "members_wf (snd st) \<Longrightarrow> members_wf (snd (apply_profiling ort input st))"
  "members_wf (snd st) \<Longrightarrow> members_wf (snd (apply_dimension ort kv st))"
  "members_wf (snd st) \<Longrightarrow> members_wf (snd (apply_config ort kv st))"
proof -
  note wf = try_apply_wf wrapped_wf
  show "members_wf (snd st) \<Longrightarrow> members_wf (snd (apply_int ort input k call st))"
    by (cases "member input k"; cases "the (member input k)")
      (simp_all add: apply_int_def get_signed_def wf del: json_wf.simps(3))
  show "members_wf (snd st) \<Longrightarrow> members_wf (snd (apply_bool ort input k enable disable st))"
    by (simp add: apply_bool_def wf split: option.split json.split)
  show "members_wf (snd st) \<Longrightarrow> members_wf (snd (apply_string ort input k parse st))"
    by (simp add: apply_string_def wf split: option.split json.split)
  show "members_wf (snd st) \<Longrightarrow> members_wf (snd (apply_profiling ort input st))"
    by (simp add: apply_profiling_def wf Let_def split: option.split json.split bool.split)
  show "members_wf (snd st) \<Longrightarrow> members_wf (snd (apply_dimension ort kv st))"
    by (cases "snd kv") (simp_all add: apply_dimension_def get_int64_def wf del: json_wf.simps(3))
  show "members_wf (snd st) \<Longrightarrow> members_wf (snd (apply_config ort kv st))"
    by (simp add: apply_config_def wf split: option.split)
qed

lemma fold_wf:
  "(\<And>x st. members_wf (snd st) \<Longrightarrow> members_wf (snd (step x st))) \<Longrightarrow> members_wf (snd st) \<Longrightarrow>
   members_wf (snd (fold step xs st))"
  by (induction xs arbitrary: st) simp_all

lemma apply_entries_wf:
  assumes "\<And>x st. members_wf (snd st) \<Longrightarrow> members_wf (snd (step x st))" and "members_wf (snd st)"
  shows "members_wf (snd (apply_entries step input k st))"
proof -
  have entries: "members_wf (snd (fold step xs (fst st, [])))" for xs
    by (rule fold_wf[OF assms(1)]) simp_all
  show ?thesis
  proof (cases "\<exists>xs. member input k = Some (JObject xs)")
    case True
    then obtain xs where xs: "member input k = Some (JObject xs)" by blast
    obtain so n where n: "fold step xs (fst st, []) = (so, n)" by (cases "fold step xs (fst st, [])")
    with entries[of xs] have "json_wf (JObject n)" by (simp add: members_wf_def)
    then show ?thesis using assms(2) xs n by (simp add: apply_entries_def del: json_wf.simps)
  qed (use assms(2) in \<open>auto simp: apply_entries_def split: option.split json.split\<close>)
qed

lemma session_options_wf: "members_wf (snd (apply_session_options ort input so))"
  unfolding apply_session_options_def Let_def
  by (simp, intro impI apply_entries_wf apply_wf) simp_all


lemma readback_wf: "members_wf out \<Longrightarrow> members_wf (parse_options_from s out)"
proof (induction s out rule: parse_options_from.induct)
  case (1 s out)
  then show ?case
    by (subst parse_options_from.simps) (simp add: Let_def infer_readback_value_eq infer_value_wf)
qed

lemma members_wf_filter: "members_wf m \<Longrightarrow> members_wf (filter P m)"
  by (auto simp: members_wf_def om_inv_filter)

lemma cuda_echo_wf:
  assumes "append_cuda_session_options ort option so = Inr (so', echo)"
  shows "json_wf echo"
proof -
  have "\<exists>c requested. echo = JObject (case cuda_as_string ort c of None \<Rightarrow> []
      | Some t \<Rightarrow> filter (\<lambda>kv. fst kv \<in> requested) (parse_options_string (c_str t)))"
    using assms unfolding append_cuda_session_options_def Let_def andThen_eq_Inr
    by (elim exE conjE) (simp split: sum.split_asm, blast)
  then obtain c requested where "echo = JObject (case cuda_as_string ort c of None \<Rightarrow> []
      | Some t \<Rightarrow> filter (\<lambda>kv. fst kv \<in> requested) (parse_options_string (c_str t)))" by blast
  moreover have "members_wf (filter (\<lambda>kv. fst kv \<in> requested) (parse_options_string (c_str t)))" for t
    unfolding parse_options_string_def by (intro members_wf_filter readback_wf) simp
  ultimately show ?thesis by (simp add: members_wf_def split: option.split)
qed

lemma session_base_wf:
  assumes wf: "json_wf option" and base: "session_base ort option = Inr (so, opt)"
  shows "members_wf opt"
proof -
  obtain so1 applied where o: "(case member option ''session_options'' of
        Some (JObject m) \<Rightarrow> apply_session_options ort (JObject m) (default_options ort)
      | _ \<Rightarrow> (default_options ort, [])) = (so1, applied)" by (metis surj_pair)
  have "members_wf applied"
  proof (cases "\<exists>m. member option ''session_options'' = Some (JObject m)")
    case True
    then obtain m where "member option ''session_options'' = Some (JObject m)" by blast
    then show ?thesis
      using o session_options_wf[of ort "JObject m" "default_options ort"] by simp
  next
    case False
    then show ?thesis using o by (auto split: option.splits json.splits)
  qed
  then have a: "json_wf (JObject applied)" by (simp add: members_wf_def)
  have put: "members_wf m \<Longrightarrow> json_wf v \<Longrightarrow> members_wf (put_if b k v m)" for b k v m
    by (simp add: put_if_def)
  have copy: "members_wf m \<Longrightarrow> members_wf (copy_shape option k m)" for k m
    using member_wf[OF wf, of k] by (auto simp: copy_shape_def split: option.split json.split simp del: json_wf.simps)
  let ?ps = "collect_extensions option"
  let ?o1 = "put_if (applied \<noteq> []) ''session_options'' (JObject applied) [(''cuda'', JBool False)]"
  let ?o2 = "put_if (?ps \<noteq> []) ''extensions'' (JArray (map JString ?ps)) ?o1"
  have "\<exists>o2. opt = copy_shape option ''output_shape'' (copy_shape option ''input_shape'' o2) \<and>
      (o2 = ?o2 \<or> (\<exists>so so' c. append_cuda_session_options ort option so = Inr (so', c) \<and> o2 = om_put ''cuda'' c ?o2))"
    using base by (auto simp: session_base_def o Let_def andThen_eq_Inr split: if_splits)
  moreover have "members_wf ?o2"
    using a by (intro put) (simp_all add: members_wf_def)
  ultimately show ?thesis using copy cuda_echo_wf members_wf_put by metis
qed

lemma infos_json_wf: "json_wf (infos_json infos)"
  using foldl_put_wf[of "[]" infos "\<lambda>i. JString (type_to_string i)" vname]
  by (simp add: infos_json_def members_wf_def)

definition session_wf :: "int \<Rightarrow> 'm session \<Rightarrow> bool" where
  "session_wf n s \<longleftrightarrow> members_wf (ses_option s) \<and> in_signed 64 (created_at s) \<and>
     in_signed 64 (last_executed_at s) \<and> 0 \<le> execution_count s \<and> execution_count s \<le> n"

lemma session_json_wf:
  assumes "session_wf n s" and "n < 2 ^ 63"
  shows "json_wf (session_json s)"
proof -
  have "in_signed 64 (execution_count s)" using assms by (simp add: session_wf_def in_signed_def)
  moreover have "json_wf (JObject (ses_option s))" using assms(1) by (simp add: session_wf_def members_wf_def)
  ultimately have "\<forall>kv \<in> set
       [(''model'', JString (model_name (ses_key s))),
        (''version'', JString (model_version (ses_key s))),
        (''created_at'', JInt (created_at s)),
        (''last_executed_at'', JInt (last_executed_at s)),
        (''execution_count'', JInt (execution_count s)),
        (''inputs'', infos_json (sinputs s)),
        (''outputs'', infos_json (soutputs s)),
        (''option'', JObject (ses_option s))]. json_wf (snd kv)"
    using assms(1) infos_json_wf by (simp add: session_wf_def)
  from foldl_put_wf[OF members_wf_Nil this, of fst] show ?thesis
    unfolding session_json_def members_wf_def .
qed

lemma make_session_wf:
  assumes "make_session ort now k source option = Inr s" and "json_wf option" and "in_signed 64 now" and "0 \<le> n"
  shows "session_wf n s"
proof -
  obtain so opt where base: "session_base ort option = Inr (so, opt)"
    and s: "ses_option s = om_del ''output_shape'' (om_del ''input_shape'' opt)" "created_at s = now"
      "last_executed_at s = 0" "execution_count s = 0"
    using assms(1) by (auto simp: make_session_def andThen_eq_Inr Let_def)
  have "members_wf opt" by (rule session_base_wf[OF assms(2) base])
  then have "members_wf (ses_option s)"
    unfolding s om_del_def by (intro members_wf_filter)
  with s assms(3,4) show ?thesis by (simp add: session_wf_def in_signed_def)
qed


subsection \<open>Outputs\<close>

lemma le_uint_range: "0 \<le> le_uint bs \<and> le_uint bs < 256 ^ length bs"
proof (induction bs)
  case (Cons b bs)
  have "uint b < 256" using uint_lt2p[of b] by simp
  with Cons show ?case by (simp add: le_uint_def)
qed (simp add: le_uint_def)

lemma read_uint_range: "read_uint n t i = Inr x \<Longrightarrow> 0 \<le> x \<and> x < 256 ^ n"
proof -
  assume "read_uint n t i = Inr x"
  then have "x = le_uint (take n (drop (i * n) (bytes t)))" "i * n + n \<le> length (bytes t)"
    by (auto simp: read_uint_def read_bytes_def andThen_eq_Inr split: if_splits)
  then show ?thesis using le_uint_range[of "take n (drop (i * n) (bytes t))"] by simp
qed

lemma uint8: "uint (b :: 8 word) < 256"
  using uint_lt2p[of b] by simp

lemma is_double_if: "(c \<Longrightarrow> is_double x) \<Longrightarrow> (\<not> c \<Longrightarrow> is_double y) \<Longrightarrow> is_double (if c then x else y)"
  by simp

lemma ieee_value_double:
  fixes b :: int
  assumes m: "m \<le> 52" and e: "(2 :: int) ^ (e - 1) \<le> 1024" "(2 :: int) ^ e - 2 ^ (e - 1) - 1 - int m \<le> 971"
  shows "is_double (ieee_value e m b)"
proof -
  define bias :: int where "bias = 2 ^ (e - 1) - 1"
  define x where "x = b div 2 ^ m mod 2 ^ e"
  define f where "f = b mod 2 ^ m"
  have "(2 :: int) ^ Suc m \<le> 2 ^ 53" using m by (intro power_increasing) auto
  then have p: "2 * 2 ^ m \<le> (2 :: int) ^ 53" by simp
  have m': "0 \<le> int m" "int m \<le> 52" using m by simp_all
  have x: "0 \<le> x" "x < 2 ^ e" and f: "0 \<le> f" "f < 2 ^ m" by (simp_all add: x_def f_def)
  have bias: "0 \<le> bias" "bias \<le> 1023" "2 ^ e - 2 - bias - int m \<le> 971"
    using e by (simp_all add: bias_def)
  have inf: "is_double (Infinite s)" "is_double NaN" for s by (simp_all add: is_double_def)
  have sub: "is_double (Finite s (of_int f * pow2 (1 - bias - int m)))" for s
    by (rule exact_double) (use f p bias m' in linarith)+
  have nrm: "is_double (Finite s (of_int (2 ^ m + f) * pow2 (x - bias - int m)))" if "x \<noteq> 0" "x \<noteq> 2 ^ e - 1" for s
    by (rule exact_double) (use f p bias m' x that in linarith)+
  show ?thesis
    unfolding ieee_value_def Let_def x_def[symmetric] f_def[symmetric] bias_def[symmetric]
    by (intro is_double_if inf sub nrm)
qed

lemma ieee_double: "is_double (ieee_value 8 23 b)" "is_double (ieee_value 11 52 b)"
  "is_double (ieee_value 5 10 b)" "is_double (ieee_value 8 7 b)"
  by (rule ieee_value_double; simp)+

lemma masked_bound: "uint ((w :: 8 word) AND mask n) < 2 ^ n" "0 \<le> uint (w AND mask n)"
  by (simp_all add: take_bit_eq_mask[symmetric] unsigned_take_bit_eq)

lemma float8_double:
  assumes "mb \<le> 3" and "eb \<le> 5" and "0 \<le> bias" and "bias \<le> 16"
  shows "is_double (decode_float8 eb mb bias has_inf fnuz b)"
proof -
  define x where "x = uint (drop_bit mb b AND mask eb)"
  define m where "m = uint (b AND mask mb)"
  have p: "(2 :: int) ^ eb \<le> 2 ^ 5" "(2 :: int) ^ mb \<le> 2 ^ 3" using assms by (intro power_increasing; simp)+
  have x: "0 \<le> x" "x < 32" "0 \<le> m" "m < 2 ^ mb"
    using masked_bound[of "drop_bit mb b" eb] masked_bound[of b mb] p unfolding x_def m_def by simp_all
  have inf: "is_double (Infinite s)" "is_double NaN" for s by (simp_all add: is_double_def)
  have sub: "is_double (Finite s (of_int m / 2 ^ mb * pow2 (1 - bias)))" for s
    using exact_double[of m "1 - bias - int mb" s] x p assms by (simp add: pow2_diff pow2_nat mult.commute)
  have "(1 + of_int m / 2 ^ mb) * pow2 (x - bias) = of_int (2 ^ mb + m) * pow2 (x - bias - int mb)"
    unfolding pow2_diff[of "x - bias"] pow2_nat by (simp add: field_simps)
  then have nrm: "is_double (Finite s ((1 + of_int m / 2 ^ mb) * pow2 (x - bias)))" for s
    using exact_double[of "2 ^ mb + m" "x - bias - int mb" s] x p assms by simp
  show ?thesis
    unfolding decode_float8_def Let_def x_def[symmetric] m_def[symmetric] by (intro is_double_if inf sub nrm)
qed

lemma e2m1_double: "is_double (decode_e2m1 n)"
proof -
  have i: "unat (n AND 7) < 8"
    using word_and_le1[of n "7 :: 8 word"] by (simp add: word_le_nat_alt)
  have "e2m1_magnitude ! i = of_int ([0, 1, 2, 3, 4, 6, 8, 12] ! i) * pow2 (- 1) \<and>
      (0 :: int) \<le> [0, 1, 2, 3, 4, 6, 8, 12] ! i \<and> [0, 1, 2, 3, 4, 6, 8, 12] ! i < (2 :: int) ^ 53" if "i < 8" for i
    using that by (simp add: less_Suc_eq numeral_eq_Suc e2m1_magnitude_def pow2_def) auto
  then show ?thesis using i exact_double by (simp add: decode_e2m1_def)
qed

lemma e8m0_double: "is_double (decode_e8m0 b)"
  using exact_double[of 1 "uint b - 127" False] uint8[of b] by (simp add: decode_e8m0_def is_double_def[of NaN])

text \<open>What ONNX Runtime makes of the bits of a half float is taken to be a number of the range of doubles.\<close>

definition halves_are_doubles :: "('so, 'c, 'm, 'v) ort \<Rightarrow> bool" where
  "halves_are_doubles ort \<longleftrightarrow> (\<forall>et b. is_double (half_to_float ort et b))"

lemma element_json_wf:
  assumes "element_json h et t i = Inr j" and half: "\<And>et b. is_double (h et b)"
  shows "json_wf j"
proof -
  have unsigned: "json_wf (JUInt x)" if "read_uint n t i = Inr x" "n \<le> 8" for n x
  proof -
    have "(256::int) ^ n \<le> 256 ^ 8" using that(2) by (intro power_increasing) auto
    with read_uint_range[OF that(1)] show ?thesis by (simp add: in_unsigned_def)
  qed
  have signed: "json_wf (JInt (wrap_signed w x))" if "0 < w" "w \<le> 64" for w x
    using in_signed_mono[OF that(2) wrap_signed_range[OF that(1)]] by simp
  have byte: "json_wf (JUInt (uint b))" "json_wf (JInt (uint b))" "json_wf (JInt (uint b - 16))" "json_wf (JInt (uint b - 4))"
    for b :: "8 word"
    using uint8[of b] by (simp_all add: in_unsigned_def in_signed_def order_trans[OF _ uint_ge_0])
  have complex: "json_wf (complex_json re im)" if "is_double re" "is_double im" for re im
    using that by (simp add: complex_json_def)
  have read: "read_float t i = Inr d \<Longrightarrow> is_double d" "read_double t i = Inr d \<Longrightarrow> is_double d" for i d
    by (auto simp: read_float_def read_double_def andThen_eq_Inr ieee_double)
  show ?thesis
    using assms by (cases et)
      (auto simp: element_json_def andThen_eq_Inr Let_def complex read half signed byte float8_double e2m1_double e8m0_double
        simp del: json_wf.simps(3,4) intro: unsigned[of "Suc 0"] unsigned[of 2] unsigned[of 4] unsigned[of 8]
        split: if_splits)
qed

lemma fit_rows_wf:
  "fit_rows row vs = Inr rs \<Longrightarrow> \<forall>v \<in> set vs. json_wf v \<Longrightarrow> \<forall>r \<in> set rs. json_wf r"
proof (induction row vs arbitrary: rs rule: fit_rows.induct)
  case (1 row vs)
  show ?case
  proof (cases "vs = []")
    case True
    then show ?thesis using "1.prems" by (simp add: fit_rows.simps)
  next
    case False
    then obtain rs' where r: "row \<noteq> 0" "\<not> length vs < row" "fit_rows row (drop row vs) = Inr rs'"
      "rs = JArray (take row vs) # rs'"
      using "1.prems"(1) by (subst (asm) fit_rows.simps) (auto simp: andThen_eq_Inr split: if_splits)
    have "\<forall>v \<in> set (drop row vs). json_wf v" "\<forall>v \<in> set (take row vs). json_wf v"
      using "1.prems"(2) by (auto dest: in_set_takeD in_set_dropD)
    with "1.IH"[OF False r(1,2,3)] r(4) show ?thesis by simp
  qed
qed

lemma values_fit_shape_wf:
  "values_fit_shape vs sh d = Inr rs \<Longrightarrow> \<forall>v \<in> set vs. json_wf v \<Longrightarrow> \<forall>r \<in> set rs. json_wf r"
  by (induction vs sh d arbitrary: rs rule: values_fit_shape.induct)
    (auto simp: andThen_eq_Inr dest: fit_rows_wf split: if_splits)

lemma tensor_data_wf:
  assumes "get_tensor_data h info t = Inr data" and half: "\<And>et b. is_double (h et b)"
  shows "json_wf (JArray data)"
proof -
  from assms(1) obtain vs where "tensor_elements h (velement_type info) t = Inr vs"
    and fit: "values_fit_shape vs (dims t) (length (dims t)) = Inr data"
    by (auto simp: get_tensor_data_def andThen_eq_Inr)
  then have "\<forall>v \<in> set vs. json_wf v"
    by (auto simp: tensor_elements_def dest!: mapR_set element_json_wf[OF _ half] split: if_splits)
  with values_fit_shape_wf[OF fit] show ?thesis by simp
qed

lemma tensors_to_json_wf:
  "tensors_to_json ort infos ts out = Inr r \<Longrightarrow> halves_are_doubles ort \<Longrightarrow> members_wf out \<Longrightarrow> members_wf r"
proof (induction ort infos ts out rule: tensors_to_json.induct)
  case (3 ort info infos t ts out)
  then show ?case by (auto simp: andThen_eq_Inr halves_are_doubles_def simp del: json_wf.simps dest!: tensor_data_wf)
qed simp_all

lemma infer_wf: "infer ort s data = Inr j \<Longrightarrow> halves_are_doubles ort \<Longrightarrow> json_wf j"
  using tensors_to_json_wf[OF _ _ members_wf_Nil]
  by (fastforce simp: infer_def andThen_eq_Inr members_wf_def)

subsection \<open>The registry\<close>

fun task_wf :: "task \<Rightarrow> bool" where
  "task_wf (Create_session n v option d) = json_wf option"
| "task_wf _ = True"

definition sessions_wf :: "int \<Rightarrow> 'm sessions \<Rightarrow> bool" where
  "sessions_wf n ss \<longleftrightarrow> (\<forall>ks \<in> set ss. session_wf n (snd ks))"

lemma session_wf_mono: "session_wf n s \<Longrightarrow> n \<le> n' \<Longrightarrow> session_wf n' s"
  by (simp add: session_wf_def)

lemma touch_wf: "session_wf n s \<Longrightarrow> in_signed 64 now \<Longrightarrow> session_wf (n + 1) (touch now s)"
  by (simp add: session_wf_def touch_def)

lemma sessions_wf_put: "sessions_wf n ss \<Longrightarrow> session_wf n s \<Longrightarrow> sessions_wf n (om_put k s ss)"
  by (auto simp: sessions_wf_def dest!: snd_om_put)

lemma run_task_wf:
  fixes ss :: "'m sessions"
  assumes "sessions_wf n ss" and "in_signed 64 now" and "task_wf t" and "0 \<le> n" and "n + 1 < 2 ^ 63"
    and halves: "halves_are_doubles ort"
  shows "sessions_wf (n + 1) (snd (run_task ort getter now t ss))" and
    "fst (run_task ort getter now t ss) = Inr j \<Longrightarrow> json_wf j"
proof -
  have up: "sessions_wf (n + 1) ss" using assms(1) session_wf_mono by (fastforce simp: sessions_wf_def)
  have get: "session_wf n s" if "get_session a b ss = Inr (Some s)" for a b s
    using that assms(1) by (auto simp: get_session_def find_session_def andThen_eq_Inr sessions_wf_def
        dest!: map_of_SomeD)
  have json: "session_wf n s \<Longrightarrow> json_wf (session_json s)" for s :: "'m session"
    using session_json_wf assms(5) by (smt (verit))
  have create: "session_wf n s \<and> ss' = om_put (Session_key a b) s ss"
    if "create_session ort getter now a b option d ss = Inr (s, ss')" "json_wf option" for a b option d s ss'
    using that assms(2,4) by (auto simp: create_session_def andThen_eq_Inr make_session_key_def
        intro: make_session_wf split: if_splits)
  show "sessions_wf (n + 1) (snd (run_task ort getter now t ss))"
  proof (cases t)
    case (Create_session a b option d)
    then show ?thesis
      using assms(3) create[of a b option d] up session_wf_mono[of n _ "n + 1"]
      by (auto intro!: sessions_wf_put split: sum.split prod.split)
  next
    case (Execute_session a b data)
    then show ?thesis
      using up get touch_wf[OF get assms(2)] by (auto intro!: sessions_wf_put split: sum.split option.split)
  next
    case (Destroy_session a b)
    then show ?thesis
      using up by (auto simp: remove_session_def andThen_eq_Inr om_del_def sessions_wf_def split: sum.split if_splits)
  qed (use up in \<open>auto split: sum.split option.split\<close>)
  show "fst (run_task ort getter now t ss) = Inr j \<Longrightarrow> json_wf j"
    using assms(1,3)
  proof (cases t)
    case List_session
    then show "fst (run_task ort getter now t ss) = Inr j \<Longrightarrow> json_wf j"
      using assms(1) json by (auto simp: sessions_wf_def)
  qed (auto intro: json[OF get] json[OF conjunct1[OF create]] infer_wf[OF _ halves] split: sum.splits option.splits)
qed

lemma run_tasks_wf:
  assumes "\<forall>(now, t) \<in> set (ts @ [(now', t')]). in_signed 64 now \<and> task_wf t"
    and "int (length ts) + 1 < 2 ^ 63" and "halves_are_doubles ort"
    and "fst (run_task ort getter now' t' (foldl (\<lambda>ss (now, t). snd (run_task ort getter now t ss)) [] ts)) = Inr j"
  shows "json_wf j"
proof -
  have "sessions_wf (int (length ts)) (foldl (\<lambda>ss (now, t). snd (run_task ort getter now t ss)) [] ts)"
    using assms(1,2)
  proof (induction ts rule: rev_induct)
    case (snoc nt ts)
    obtain now t where nt: "nt = (now, t)" by (cases nt)
    show ?case
      using run_task_wf(1)[OF snoc.IH _ _ _ _ assms(3), of now t] snoc.prems by (simp add: nt add.commute)
  qed (simp add: sessions_wf_def)
  from run_task_wf(2)[OF this _ _ _ assms(2,3,4)] assms(1) show ?thesis by simp
qed

text \<open>
  C13. Type safety of the answers, and that clients can read them: after any tasks whatever, as long
  as their number fits the counter, the answer of the next task is a well-formed value, every object
  in it ordered, every integer in the range of its type and every float a double, on every runtime
  whose half floats convert to doubles. A client that parses the text sent as that answer gets what
  JSON can carry of it (\<^const>\<open>norm\<close>): NaN and infinite elements are null, for which the client cannot
  tell one from the other, every other float is exact, and non-negative integers come as unsigned.
\<close>

theorem answers_well_formed:
  assumes "\<forall>(now, t) \<in> set (ts @ [(now', t')]). in_signed 64 now \<and> task_wf t"
    and "int (length ts) + 1 < 2 ^ 63" and "halves_are_doubles ort"
    and "fst (run_task ort getter now' t' (foldl (\<lambda>ss (now, t). snd (run_task ort getter now t ss)) [] ts)) = Inr j"
  shows "json_wf j \<and> (\<forall>text. dump float_chars j = Inr text \<longrightarrow> json_parse free_callback text = Inr (norm j))"
  using run_tasks_wf[OF assms] parse_document by blast

definition half_ort :: "(unit, unit, string, cell list) ort" where
  "half_ort = demo_ort\<lparr>half_to_float := (\<lambda>et b. if et = E_FLOAT16 then ieee_value 5 10 b else ieee_value 8 7 b)\<rparr>"

theorem answers_well_formed_witness:
  "\<exists>j. fst (run_task half_ort demo_getter 6 List_session
       (snd (run_task half_ort demo_getter 5 (Create_session ''m'' ''1'' (JObject []) None) []))) = Inr j \<and> json_wf j"
proof -
  let ?ts = "[(5, Create_session ''m'' ''1'' (JObject []) None)]"
  have "\<forall>(now, t) \<in> set (?ts @ [(6, List_session)]). in_signed 64 now \<and> task_wf t"
    by (simp add: in_signed_def)
  moreover have "halves_are_doubles half_ort"
    by (simp add: halves_are_doubles_def half_ort_def ieee_double)
  ultimately show ?thesis using answers_well_formed[of ?ts 6 List_session half_ort demo_getter] by simp
qed

end
