(* ===== verification/Http.thy ===== *)
theory Http
  imports Task
begin

text \<open>
  The HTTP and HTTPS interface (\<^verbatim>\<open>src/src/transport/http/\<close>): from a parsed request to a response.
  Parsing and serializing HTTP and the TLS layer are the Beast and OpenSSL libraries; what they
  deliver, requests, the end of the stream or an error, and whether a write succeeds, is input to
  the loop of a connection.
\<close>

section \<open>Requests and responses\<close>

datatype verb = Get | Post | Delete | Other_verb string

record http_request =
  req_verb :: verb
  target :: string
  req_body :: string
  http_version :: nat
  keep_alive :: bool

record http_response =
  status :: nat
  content_type :: string
  payload :: string
  location :: "string option"
  res_version :: nat
  res_keep_alive :: bool

definition simple_response :: "http_request \<Rightarrow> nat \<Rightarrow> string \<Rightarrow> string \<Rightarrow> http_response" where
  "simple_response req code ctype text =
     \<lparr>status = code, content_type = ctype, payload = text, location = None,
      res_version = http_version req, res_keep_alive = keep_alive req\<rparr>"

definition CONTENT_TYPE_PLAIN_TEXT :: string where "CONTENT_TYPE_PLAIN_TEXT = ''text/plain''"
definition CONTENT_TYPE_JSON :: string where "CONTENT_TYPE_JSON = ''application/json''"

section \<open>Routes\<close>

text \<open>\<^verbatim>\<open>/api/sessions/([^/]+)/([^/]+)\<close> against the whole target.\<close>

definition match_session :: "string \<Rightarrow> (string \<times> string) option" where
  "match_session t =
     (let p = ''/api/sessions/''; r = drop (length p) t;
          model = takeWhile (\<lambda>c. c \<noteq> CHR ''/'') r; rest = dropWhile (\<lambda>c. c \<noteq> CHR ''/'') r
      in if take (length p) t = p \<and> model \<noteq> [] \<and> rest \<noteq> [] \<and> tl rest \<noteq> [] \<and> CHR ''/'' \<notin> set (tl rest)
         then Some (model, tl rest) else None)"

record swagger =
  swagger_url_path :: string
  openapi_yaml :: string
  index_html :: string

definition is_swagger_url :: "swagger \<Rightarrow> string \<Rightarrow> bool" where
  "is_swagger_url sw url \<longleftrightarrow>
     swagger_url_path sw \<noteq> [] \<and> length (swagger_url_path sw) \<le> length url \<and>
     take (length (swagger_url_path sw)) url = swagger_url_path sw"

text \<open>\<^verbatim>\<open>std::string::rfind\<close>: the last place of the text, or \<^verbatim>\<open>npos\<close>, the largest \<^verbatim>\<open>size_t\<close>.\<close>

definition occurs_at :: "string \<Rightarrow> string \<Rightarrow> nat \<Rightarrow> bool" where
  "occurs_at s t i \<longleftrightarrow> i + length s \<le> length t \<and> take (length s) (drop i t) = s"

definition rfind :: "string \<Rightarrow> string \<Rightarrow> 64 word" where
  "rfind s t = (case rev (filter (occurs_at s t) [0..<Suc (length t)]) of [] \<Rightarrow> - 1 | i # _ \<Rightarrow> word_of_nat i)"

text \<open>\<^verbatim>\<open>url.length() - 13\<close> is computed in \<^verbatim>\<open>size_t\<close>.\<close>

definition swagger_response :: "swagger \<Rightarrow> http_request \<Rightarrow> http_response" where
  "swagger_response sw req =
     (let url = target req
      in if rfind ''/openapi.yaml'' url = word_of_nat (length url) - 13
         then simple_response req 200 ''text/yaml'' (c_str (openapi_yaml sw))
         else if url = swagger_url_path sw \<or> url = swagger_url_path sw @ ''/''
         then if last url \<noteq> CHR ''/''
              then (simple_response req 302 ''text/plain'' ''Not Found'')\<lparr>location := Some (url @ ''/'')\<rparr>
              else simple_response req 200 ''text/html'' (c_str (index_html sw))
         else simple_response req 404 ''text/plain'' ''Not Found'')"

text \<open>What a request asks for: a task, to be built and run, or a response of its own.\<close>

datatype routed = Run "task result" | Respond http_response

definition route :: "swagger \<Rightarrow> bool \<Rightarrow> string \<Rightarrow> http_request \<Rightarrow> routed" where
  "route sw ndebug version req =
     (case (match_session (target req), req_verb req) of
        (Some (m, v), Post) \<Rightarrow> Run (andThen (parse_request_json (req_body req)) (\<lambda>j. Inr (Execute_session m v j)))
      | (Some (m, v), Get) \<Rightarrow> Run (Inr (Get_session m v))
      | (Some (m, v), Delete) \<Rightarrow> Run (Inr (Destroy_session m v))
      | _ \<Rightarrow>
          if target req = ''/api/sessions'' \<and> req_verb req = Get then Run (Inr List_session)
          else if target req = ''/api/sessions'' \<and> req_verb req = Post
          then Run (andThen (parse_request_json (req_body req)) (\<lambda>j. create_session_task ndebug j None))
          else if target req = ''/api/version'' \<and> req_verb req = Get
          then Respond (simple_response req 200 CONTENT_TYPE_PLAIN_TEXT version)
          else if target req = ''/health'' then Respond (simple_response req 200 CONTENT_TYPE_PLAIN_TEXT ''OK'')
          else if is_swagger_url sw (target req) then Respond (swagger_response sw req)
          else Respond (simple_response req 404 CONTENT_TYPE_PLAIN_TEXT ''Not Found''))"

section \<open>Handling a request\<close>

definition error_response :: "http_request \<Rightarrow> error \<Rightarrow> http_response result" where
  "error_response req e =
     (if \<not> is_std_exception e then Inl e
      else case e of
        Orts_exception k w \<Rightarrow>
          andThen (what_to_json (exception_type k) w) (\<lambda>t. Inr (simple_response req (status_code k) CONTENT_TYPE_JSON t))
      | _ \<Rightarrow> andThen (what_to_json ''runtime_error'' (what e)) (\<lambda>t. Inr (simple_response req 500 CONTENT_TYPE_JSON t)))"

record ('so, 'c, 'm, 'v) http_server =
  http_runtime :: "('so, 'c, 'm, 'v) ort"
  http_getter :: model_bin_getter
  http_asserts_off :: bool
  http_now :: "nat \<Rightarrow> int"
  http_swagger :: swagger
  runtime_version :: string

definition handle_request :: "('so, 'c, 'm, 'v) http_server \<Rightarrow> nat \<Rightarrow> http_request \<Rightarrow> 'm sessions \<Rightarrow>
    http_response result \<times> 'm sessions" where
  "handle_request srv k req ss =
     (case route (http_swagger srv) (http_asserts_off srv) (runtime_version srv) req of
        Respond r \<Rightarrow> (Inr r, ss)
      | Run (Inl e) \<Rightarrow> (error_response req e, ss)
      | Run (Inr t) \<Rightarrow>
          (let (res, ss') = run_task (http_runtime srv) (http_getter srv) (http_now srv k) t ss
           in (case andThen res (dump float_chars) of
                 Inl e \<Rightarrow> error_response req e
               | Inr text \<Rightarrow> Inr (simple_response req 200 CONTENT_TYPE_JSON text), ss')))"

section \<open>A connection\<close>

datatype read_result = Request http_request | End_of_stream | Read_error

datatype http_end = Closed | Failed error

text \<open>
  The loop of \<^verbatim>\<open>run\<close>: what is read, and whether each write succeeds, comes from outside; the
  responses written and the end are what goes out. It stops with the input.
\<close>

fun http_run :: "('so, 'c, 'm, 'v) http_server \<Rightarrow> nat \<Rightarrow> (read_result \<times> bool) list \<Rightarrow> 'm sessions \<Rightarrow>
    http_response list \<times> http_end \<times> 'm sessions" where
  "http_run srv k ((Request req, written) # ins) ss =
     (case handle_request srv k req ss of
        (Inl e, ss') \<Rightarrow> ([], Failed e, ss')
      | (Inr res, ss') \<Rightarrow>
          if \<not> written then ([], Closed, ss')
          else if \<not> keep_alive req then ([res], Closed, ss')
          else (case http_run srv (Suc k) ins ss' of (rs, e, ss'') \<Rightarrow> (res # rs, e, ss'')))"
| "http_run srv k ((_, _) # ins) ss = ([], Closed, ss)"
| "http_run srv k [] ss = ([], Closed, ss)"

end
