(* ===== verification/Protocol.thy ===== *)
theory Protocol
  imports Prelude
begin

text \<open>
  The header of the TCP protocol (\<^verbatim>\<open>src/src/transport/tcp/tcp_server.hpp\<close>): its four fields as they
  lie packed in the memory of a little-endian host, and the macros that turn them to network
  order and back.
\<close>

unbundle bit_operations_syntax

section \<open>Byte order\<close>

text \<open>The C library's conversions on a little-endian host, and the macros built on them.\<close>

definition htons :: "16 word \<Rightarrow> 16 word" where
  "htons x = push_bit 8 x OR drop_bit 8 x"

definition htonl :: "32 word \<Rightarrow> 32 word" where
  "htonl x = push_bit 24 x OR (push_bit 8 x AND 0xFF0000) OR (drop_bit 8 x AND 0xFF00) OR drop_bit 24 x"

text \<open>\<^verbatim>\<open>HTONLL\<close> is applied to a \<^verbatim>\<open>size_t\<close>, \<^verbatim>\<open>NTOHLL\<close> to an \<^verbatim>\<open>int64_t\<close>, whose right shift is arithmetic.\<close>

definition HTONLL :: "64 word \<Rightarrow> 64 word" where
  "HTONLL x = push_bit 32 (ucast (htonl (ucast x))) + ucast (htonl (ucast (drop_bit 32 x)))"

definition NTOHLL :: "64 word \<Rightarrow> 64 word" where
  "NTOHLL x = push_bit 32 (ucast (htonl (ucast x))) + ucast (htonl (ucast (signed_drop_bit 32 x)))"

text \<open>A word in the memory of the host.\<close>

definition native_bytes :: "nat \<Rightarrow> 'a::len word \<Rightarrow> string" where
  "native_bytes k w = map (\<lambda>i. char_of (unat (ucast (drop_bit (8 * i) w) :: 8 word))) [0..<k]"

fun native_word :: "string \<Rightarrow> 'a::len word" where
  "native_word [] = 0"
| "native_word (c # cs) = of_char c OR push_bit 8 (native_word cs)"

record protocol_header =
  htype :: "16 word"
  hlength :: "64 word"
  json_length :: "64 word"
  post_length :: "64 word"

definition header_size :: nat where "header_size = 26"

text \<open>The packed structure as it goes over the wire, and as \<^verbatim>\<open>do_read\<close> takes it from there.\<close>

definition header_bytes :: "protocol_header \<Rightarrow> string" where
  "header_bytes h = native_bytes 2 (htype h) @ native_bytes 8 (hlength h) @
     native_bytes 8 (json_length h) @ native_bytes 8 (post_length h)"

definition network_header :: "protocol_header \<Rightarrow> protocol_header" where
  "network_header h = \<lparr>htype = htons (htype h), hlength = HTONLL (hlength h),
     json_length = HTONLL (json_length h), post_length = HTONLL (post_length h)\<rparr>"

definition read_header :: "string \<Rightarrow> protocol_header" where
  "read_header s =
     \<lparr>htype = htons (native_word (take 2 s)), hlength = NTOHLL (native_word (take 8 (drop 2 s))),
      json_length = NTOHLL (native_word (take 8 (drop 10 s))),
      post_length = NTOHLL (native_word (take 8 (drop 18 s)))\<rparr>"

section \<open>Bits\<close>

text \<open>Bit \<open>n\<close> of a word of \<open>k\<close> bytes, when the bytes are reversed.\<close>

definition mirror :: "nat \<Rightarrow> nat \<Rightarrow> nat" where
  "mirror k n = 8 * (k - 1 - n div 8) + n mod 8"

lemma mirror_less: "n < 8 * k \<Longrightarrow> mirror k n < 8 * k"
  by (auto simp: mirror_def)

lemma mirror_mirror: "n < 8 * k \<Longrightarrow> mirror k (mirror k n) = n"
proof -
  assume "n < 8 * k"
  then have "n div 8 < k" by (simp add: less_mult_imp_div_less mult.commute)
  then have "k - Suc (k - Suc (n div 8)) = n div 8" by simp
  then show ?thesis by (simp add: mirror_def)
qed

lemma bit_beyond: "LENGTH('a::len) \<le> n \<Longrightarrow> \<not> bit (x :: 'a word) n"
  by (auto dest: bit_imp_le_length)

lemma mirror_2:
  "mirror 2 0 = 8"
  "mirror 2 (Suc 0) = 9"
  "mirror 2 2 = 10"
  "mirror 2 3 = 11"
  "mirror 2 4 = 12"
  "mirror 2 5 = 13"
  "mirror 2 6 = 14"
  "mirror 2 7 = 15"
  "mirror 2 8 = 0"
  "mirror 2 9 = 1"
  "mirror 2 10 = 2"
  "mirror 2 11 = 3"
  "mirror 2 12 = 4"
  "mirror 2 13 = 5"
  "mirror 2 14 = 6"
  "mirror 2 15 = 7"
  by code_simp+

lemma mirror_4:
  "mirror 4 0 = 24"
  "mirror 4 (Suc 0) = 25"
  "mirror 4 2 = 26"
  "mirror 4 3 = 27"
  "mirror 4 4 = 28"
  "mirror 4 5 = 29"
  "mirror 4 6 = 30"
  "mirror 4 7 = 31"
  "mirror 4 8 = 16"
  "mirror 4 9 = 17"
  "mirror 4 10 = 18"
  "mirror 4 11 = 19"
  "mirror 4 12 = 20"
  "mirror 4 13 = 21"
  "mirror 4 14 = 22"
  "mirror 4 15 = 23"
  "mirror 4 16 = 8"
  "mirror 4 17 = 9"
  "mirror 4 18 = 10"
  "mirror 4 19 = 11"
  "mirror 4 20 = 12"
  "mirror 4 21 = 13"
  "mirror 4 22 = 14"
  "mirror 4 23 = 15"
  "mirror 4 24 = 0"
  "mirror 4 25 = 1"
  "mirror 4 26 = 2"
  "mirror 4 27 = 3"
  "mirror 4 28 = 4"
  "mirror 4 29 = 5"
  "mirror 4 30 = 6"
  "mirror 4 31 = 7"
  by code_simp+

lemma bit_htons: "n < 16 \<Longrightarrow> bit (htons x) n = bit x (mirror 2 n)"
proof -
  assume "n < 16"
  then have "n \<in> set [0..<16]" by simp
  moreover have "[0..<16] = [0, 1, 2, 3, 4, 5, 6, 7, 8, 9, 10, 11, 12, 13, 14, 15]"
    by (simp add: upt_rec)
  ultimately have "n \<in> set [0, 1, 2, 3, 4, 5, 6, 7, 8, 9, 10, 11, 12, 13, 14, 15]"
    by (simp only:)
  then show ?thesis
    by (simp only: list.set insert_iff empty_iff) (elim disjE; simp add: htons_def bit_simps mirror_2 bit_beyond)
qed

lemma bit_htonl: "n < 32 \<Longrightarrow> bit (htonl x) n = bit x (mirror 4 n)"
proof -
  assume "n < 32"
  then have "n \<in> set [0..<32]" by simp
  moreover have "[0..<32] = [0, 1, 2, 3, 4, 5, 6, 7, 8, 9, 10, 11, 12, 13, 14, 15, 16, 17, 18, 19, 20, 21, 22, 23, 24, 25, 26, 27, 28, 29, 30, 31]"
    by (simp add: upt_rec)
  ultimately have "n \<in> set [0, 1, 2, 3, 4, 5, 6, 7, 8, 9, 10, 11, 12, 13, 14, 15, 16, 17, 18, 19, 20, 21, 22, 23, 24, 25, 26, 27, 28, 29, 30, 31]"
    by (simp only:)
  then show ?thesis
    by (simp only: list.set insert_iff empty_iff) (elim disjE; simp add: htonl_def bit_simps mirror_4 bit_beyond)
qed

lemma low_high:
  assumes "n < 64"
  shows "bit (push_bit 32 (ucast a) + ucast b :: 64 word) n = (if n < 32 then bit (b :: 32 word) n else bit (a :: 32 word) (n - 32))"
proof -
  have "push_bit 32 (ucast a) + ucast b = (push_bit 32 (ucast a) OR ucast b :: 64 word)"
  proof (rule disjunctive_add)
    show "\<not> bit (push_bit 32 (ucast a) :: 64 word) n \<or> \<not> bit (ucast b :: 64 word) n" for n
      by (auto simp: bit_simps bit_beyond)
  qed
  then show ?thesis using assms by (auto simp: bit_simps bit_beyond)
qed

lemma mirror_8: "n < 32 \<Longrightarrow> mirror 8 n = 32 + mirror 4 n" "32 \<le> n \<Longrightarrow> n < 64 \<Longrightarrow> mirror 8 n = mirror 4 (n - 32)"
proof -
  show "mirror 8 n = 32 + mirror 4 n" if "n < 32"
  proof -
    have "n div 8 \<le> 3" using that by simp
    then show ?thesis by (simp add: mirror_def)
  qed
  show "mirror 8 n = mirror 4 (n - 32)" if n: "32 \<le> n" "n < 64"
  proof -
    define m where "m = n - 32"
    have m: "n = m + 8 * 4" using n by (simp add: m_def)
    then have "n div 8 = m div 8 + 4" "n mod 8 = m mod 8" by (simp, simp only: mod_mult_self2)
    then show ?thesis by (simp add: mirror_def m_def[symmetric])
  qed
qed

lemma bit_HTONLL: "n < 64 \<Longrightarrow> bit (HTONLL x) n = bit x (mirror 8 n)"
  using mirror_less[of n 4] mirror_less[of "n - 32" 4]
  by (simp add: HTONLL_def low_high bit_htonl mirror_8 bit_simps)

lemma NTOHLL_HTONLL: "NTOHLL x = HTONLL x"
proof -
  have "(ucast (signed_drop_bit 32 x) :: 32 word) = ucast (drop_bit 32 x)"
    by (rule bit_word_eqI) (auto simp: bit_simps)
  then show ?thesis by (simp add: NTOHLL_def HTONLL_def)
qed

lemma HTONLL_twice: "HTONLL (HTONLL x) = x"
  by (rule bit_word_eqI) (simp add: bit_HTONLL mirror_mirror mirror_less[where k = 8, simplified])

lemma htons_twice: "htons (htons x) = x"
  by (rule bit_word_eqI) (simp add: bit_htons mirror_mirror mirror_less[where k = 2, simplified])

section \<open>The wire format\<close>

lemma bit_of_char_nat: "bit (of_char c :: nat) n \<Longrightarrow> n < 8"
proof (rule ccontr)
  assume b: "bit (of_char c :: nat) n" and "\<not> n < 8"
  moreover have "take_bit 8 (of_char c :: nat) = of_char c" by (simp add: take_bit_nat_eq_self)
  ultimately show False by (metis bit_take_bit_iff)
qed

lemma bit_of_char_word: "bit (of_char c :: 'a::len word) n \<longleftrightarrow> n < LENGTH('a) \<and> bit (of_char c :: nat) n"
proof -
  have "(of_char c :: 'a word) = word_of_nat (of_char c)" by (simp only: of_nat_of_char)
  then show ?thesis by (simp only: bit_of_nat_iff possible_bit_word)
qed

lemma bit_native_word:
  "bit (native_word s :: 'a::len word) n \<longleftrightarrow>
     n < LENGTH('a) \<and> n div 8 < length s \<and> bit (of_char (s ! (n div 8)) :: nat) (n mod 8)"
proof (induction s arbitrary: n)
  case (Cons c s)
  show ?case
  proof (cases "n < 8")
    case True
    then show ?thesis by (auto simp: bit_simps bit_of_char_word)
  next
    case False
    then obtain m where m: "n = m + 8" by (metis le_add_diff_inverse2 not_less)
    then show ?thesis
      using Cons[of m] bit_of_char_nat[of c n] by (auto simp: bit_simps bit_of_char_word)
  qed
qed simp

lemma nth_native_bytes:
  "i < k \<Longrightarrow> bit (of_char (native_bytes k w ! i) :: nat) m \<longleftrightarrow> m < 8 \<and> bit w (8 * i + m)"
proof -
  assume i: "i < k"
  let ?b = "ucast (drop_bit (8 * i) w) :: 8 word"
  have "(of_char (native_bytes k w ! i) :: nat) = unat ?b"
    using i unsigned_less[of ?b, where ?'a = nat] by (simp add: native_bytes_def del: unsigned_less)
  then show ?thesis by (auto simp: bit_simps bit_beyond add.commute dest: bit_imp_le_length)
qed

lemma native_word_bytes: "LENGTH('a::len) = 8 * k \<Longrightarrow> native_word (native_bytes k w) = (w :: 'a word)"
proof (rule bit_word_eqI)
  fix n
  assume k: "LENGTH('a) = 8 * k" and n: "n < LENGTH('a)"
  then have q: "n div 8 < k" by (simp add: less_mult_imp_div_less mult.commute)
  then have "n div 8 < length (native_bytes k w)" by (simp add: native_bytes_def)
  then show "bit (native_word (native_bytes k w) :: 'a word) n = bit w n"
    using n by (simp add: bit_native_word nth_native_bytes[OF q])
qed

lemma native_bytes_HTONLL: "native_bytes 8 (HTONLL x) = rev (native_bytes 8 x)"
proof (rule nth_equalityI)
  show "length (native_bytes 8 (HTONLL x)) = length (rev (native_bytes 8 x))" by (simp add: native_bytes_def)
  fix i
  assume "i < length (native_bytes 8 (HTONLL x))"
  then have i: "i < 8" by (simp add: native_bytes_def)
  have b: "(ucast (drop_bit (8 * i) (HTONLL x)) :: 8 word) = ucast (drop_bit (8 * (7 - i)) x)"
  proof (rule bit_word_eqI)
    fix m
    assume m: "m < LENGTH(8)"
    then have "mirror 8 (8 * i + m) = 8 * (7 - i) + m" using i by (simp add: mirror_def)
    then show "bit (ucast (drop_bit (8 * i) (HTONLL x)) :: 8 word) m = bit (ucast (drop_bit (8 * (7 - i)) x) :: 8 word) m"
      using i m by (simp add: bit_simps bit_HTONLL)
  qed
  have "rev (native_bytes 8 x) ! i = native_bytes 8 x ! (7 - i)"
    using i by (simp add: native_bytes_def rev_nth)
  then show "native_bytes 8 (HTONLL x) ! i = rev (native_bytes 8 x) ! i"
    using i b by (simp add: native_bytes_def)
qed

lemma native_bytes_htons: "native_bytes 2 (htons x) = rev (native_bytes 2 x)"
proof -
  have "(ucast (htons x) :: 8 word) = ucast (drop_bit 8 x)" "(ucast (drop_bit 8 (htons x)) :: 8 word) = ucast x"
    by (rule bit_word_eqI, simp add: htons_def bit_simps bit_beyond)+
  then show ?thesis by (simp add: native_bytes_def numeral_2_eq_2)
qed

lemma length_native_bytes [simp]: "length (native_bytes k w) = k"
  by (simp add: native_bytes_def)

lemma take_header:
  "take 2 (header_bytes h) = native_bytes 2 (htype h)"
  "take 8 (drop 2 (header_bytes h)) = native_bytes 8 (hlength h)"
  "take 8 (drop 10 (header_bytes h)) = native_bytes 8 (json_length h)"
  "take 8 (drop 18 (header_bytes h)) = native_bytes 8 (post_length h)"
  by (simp_all add: header_bytes_def)

lemma read_written_header: "read_header (header_bytes (network_header h)) = h"
  by (simp add: read_header_def take_header native_word_bytes NTOHLL_HTONLL HTONLL_twice htons_twice network_header_def)

lemma length_header_bytes [simp]: "length (header_bytes h) = header_size"
  by (simp add: header_bytes_def header_size_def)

interpretation wire: codec "\<lambda>h. header_bytes (network_header h)" "\<lambda>s. Inr (read_header s) :: unit + protocol_header"
  by unfold_locales (simp add: read_written_header)

text \<open>
  C27. The header survives the wire: reading the 26 bytes a peer with the same macros writes gives
  its fields back, and those bytes are the fields in big-endian order, whatever the values.
\<close>

theorem header_roundtrip:
  "read_header (header_bytes (network_header h)) = h \<and>
   header_bytes (network_header h) =
     rev (native_bytes 2 (htype h)) @ rev (native_bytes 8 (hlength h)) @
     rev (native_bytes 8 (json_length h)) @ rev (native_bytes 8 (post_length h))"
  by (rule conjI, rule read_written_header)
    (simp add: header_bytes_def network_header_def native_bytes_HTONLL native_bytes_htons)

end
