(* ===== verification/Tcp.thy ===== *)
theory Tcp
  imports Protocol Task
begin

text \<open>
  A TCP connection (\<^verbatim>\<open>src/src/transport/tcp/tcp_session.cpp\<close>): reading a request, the header and
  the body piece by piece as the socket delivers it, an uploaded model going to a file; running
  the task; writing the answer. The socket delivers what the peer sent in the segments the
  network made of it, and takes of each write as much as it has room for; both are part of the
  state and any values of them are covered. Exceptions that no handler of the connection
  catches end it (\<^verbatim>\<open>src/src/transport/server.cpp\<close> logs them).
\<close>

section \<open>The connection\<close>

record tcp_config =
  request_payload_limit :: int
  model_upload_limit :: int
  model_upload_dir :: string
  temp_directory :: string \<comment> \<open>\<^verbatim>\<open>std::filesystem::temp_directory_path()\<close>\<close>
  can_open :: "string \<Rightarrow> bool"
  can_remove :: "string \<Rightarrow> bool"
  disk :: nat \<comment> \<open>bytes a file can hold\<close>
  draws :: "nat \<Rightarrow> nat list" \<comment> \<open>the random digits of each upload name\<close>

record connection =
  incoming :: "string list"
  room :: "nat option list" \<comment> \<open>bytes taken by each coming write, \<^const>\<open>None\<close> for an error\<close>
  sent :: string
  buffer :: string
  uploaded_model_path :: string
  uploads :: nat
  files :: "(string \<times> string) list"

definition new_connection :: "string list \<Rightarrow> nat option list \<Rightarrow> (string \<times> string) list \<Rightarrow> connection" where
  "new_connection inc out fs = \<lparr>incoming = inc, room = out, sent = [], buffer = [], uploaded_model_path = [],
     uploads = 0, files = fs\<rparr>"

definition MAX_RECV_BUF_LENGTH :: nat where "MAX_RECV_BUF_LENGTH = 1024 * 1024 * 4"

text \<open>\<^verbatim>\<open>read_some\<close> blocks until a segment is there and takes what fits; \<^const>\<open>None\<close> is an error or the end.\<close>

definition read_some :: "nat \<Rightarrow> string list \<Rightarrow> (string \<times> string list) option" where
  "read_some n inc = (case inc of [] \<Rightarrow> None
     | seg # rest \<Rightarrow> Some (if length seg \<le> n then (seg, rest) else (take n seg, drop n seg # rest)))"

text \<open>\<^verbatim>\<open>read_exact\<close>: the pieces handed to the sink, and whether all bytes came.\<close>

function read_exact :: "int \<Rightarrow> string list \<Rightarrow> string list \<times> bool \<times> string list" where
  "read_exact len inc =
     (if len > 0
      then case read_some (nat (min (int MAX_RECV_BUF_LENGTH) len)) inc of
             None \<Rightarrow> ([], False, inc)
           | Some (s, rest) \<Rightarrow>
               if s = [] then ([], False, rest)
               else let (ss, ok, rest') = read_exact (len - int (length s)) rest in (s # ss, ok, rest')
      else ([], True, inc))"
  by pat_completeness auto
termination
  by (relation "measure (\<lambda>(len, _). nat len)") (auto simp: length_greater_0_conv[symmetric] simp del: length_greater_0_conv)

declare read_exact.simps [simp del]

section \<open>Uploads\<close>

definition hex_digits :: string where "hex_digits = ''0123456789abcdef''"

text \<open>Four groups of four random digits.\<close>

definition unique_upload_filename :: "nat list \<Rightarrow> string" where
  "unique_upload_filename ds =
     (let h = map (\<lambda>d. hex_digits ! d) ds
      in ''onnxruntime-server-upload-'' @ take 4 h @ ''-'' @ take 4 (drop 4 h) @ ''-'' @
         take 4 (drop 8 h) @ ''-'' @ take 4 (drop 12 h) @ ''.onnx'')"

definition path_join :: "string \<Rightarrow> string \<Rightarrow> string" where
  "path_join dir name = (if dir = [] \<or> last dir = CHR ''/'' then dir @ name else dir @ CHR ''/'' # name)"

definition upload_path :: "tcp_config \<Rightarrow> nat \<Rightarrow> string" where
  "upload_path cfg k =
     path_join (if model_upload_dir cfg = [] then temp_directory cfg else model_upload_dir cfg)
       (unique_upload_filename (draws cfg k))"

text \<open>A file that cannot be removed stays, and its path is forgotten: the error code is not looked at.\<close>

definition cleanup_upload :: "tcp_config \<Rightarrow> connection \<Rightarrow> connection" where
  "cleanup_upload cfg c =
     (if uploaded_model_path c = [] then c
      else c\<lparr>files := (if can_remove cfg (uploaded_model_path c) then om_del (uploaded_model_path c) (files c) else files c),
             uploaded_model_path := []\<rparr>)"

text \<open>An output stream: writes after a failed one do nothing.\<close>

definition file_write :: "nat \<Rightarrow> string \<Rightarrow> string \<times> bool \<Rightarrow> string \<times> bool" where
  "file_write capacity s f = (case f of (content, ok) \<Rightarrow>
     if ok \<and> length content + length s \<le> capacity then (content @ s, True) else (content, False))"

section \<open>Writing\<close>

definition write_some :: "string \<Rightarrow> connection \<Rightarrow> bool \<times> connection" where
  "write_some s c = (case room c of
       Some n # r \<Rightarrow> (0 < min n (length s), c\<lparr>room := r, sent := sent c @ take n s\<rparr>)
     | None # r \<Rightarrow> (False, c\<lparr>room := r\<rparr>)
     | [] \<Rightarrow> (False, c))"

definition do_write :: "protocol_header \<Rightarrow> string \<Rightarrow> connection \<Rightarrow> bool \<times> connection" where
  "do_write h buf c = write_some (header_bytes h @ buf) c"

definition response_header :: "16 word \<Rightarrow> nat \<Rightarrow> protocol_header" where
  "response_header t n = \<lparr>htype = htons t, hlength = HTONLL (word_of_nat n),
     json_length = HTONLL (word_of_nat n), post_length = HTONLL 0\<rparr>"

definition send_error :: "string \<Rightarrow> string \<Rightarrow> connection \<Rightarrow> connection result" where
  "send_error etype msg c =
     andThen (what_to_json etype msg) (\<lambda>res_json.
       Inr (snd (do_write (response_header (- 1) (length res_json)) res_json c)))"

section \<open>Reading a request\<close>

definition CREATE_SESSION :: int where "CREATE_SESSION = 1"
definition EXECUTE_SESSION :: int where "EXECUTE_SESSION = 5"
definition DESTROY_SESSION :: int where "DESTROY_SESSION = 9"
definition LIST_SESSION :: int where "LIST_SESSION = 21"
definition GET_SESSION :: int where "GET_SESSION = 22"

definition is_create :: "protocol_header \<Rightarrow> bool" where
  "is_create h \<longleftrightarrow> sint (htype h) = CREATE_SESSION"

definition invalid_header :: "tcp_config \<Rightarrow> protocol_header \<Rightarrow> bool result" where
  "invalid_header cfg h =
     (let json = sint (json_length h); post = sint (post_length h);
          post_limit = (if is_create h then model_upload_limit cfg else request_payload_limit cfg)
      in if json < 0 \<or> post < 0 \<or> json > request_payload_limit cfg \<or> post > post_limit then Inr True
         else if json + post > 2 ^ 63 - 1 then Inl (Undefined_behaviour ''signed overflow'')
         else Inr (sint (hlength h) \<noteq> json + post))"

text \<open>The body after a valid header: \<^const>\<open>None\<close> closes the connection.\<close>

definition read_upload :: "tcp_config \<Rightarrow> int \<Rightarrow> connection \<Rightarrow> (bool \<times> connection) result" where
  "read_upload cfg post c =
     (let path = upload_path cfg (uploads c);
          c = c\<lparr>uploads := Suc (uploads c), uploaded_model_path := path\<rparr>
      in if \<not> can_open cfg path
         then andThen (send_error ''runtime_error'' ''cannot store uploaded model'' c) (\<lambda>c. Inr (False, c))
         else let (pieces, ok, rest) = read_exact post (incoming c);
                  (content, good) = fold (file_write (disk cfg)) pieces ([], True)
              in Inr (ok \<and> good, c\<lparr>incoming := rest, files := om_put path content (files c)\<rparr>))"

definition read_body :: "tcp_config \<Rightarrow> protocol_header \<Rightarrow> connection \<Rightarrow> (bool \<times> connection) result" where
  "read_body cfg h c =
     (let (pieces, ok, rest) = read_exact (sint (json_length h)) (incoming c);
          c = c\<lparr>incoming := rest, buffer := buffer c @ concat pieces\<rparr>
      in if \<not> ok then Inr (False, c)
         else if is_create h \<and> 0 < sint (post_length h) then read_upload cfg (sint (post_length h)) c
         else if 0 < sint (post_length h)
         then let (pieces, ok, rest) = read_exact (sint (post_length h)) (incoming c)
              in Inr (ok, c\<lparr>incoming := rest, buffer := buffer c @ concat pieces\<rparr>)
         else Inr (True, c))"

definition do_read :: "tcp_config \<Rightarrow> connection \<Rightarrow> (protocol_header option \<times> connection) result" where
  "do_read cfg c =
     (let c = cleanup_upload cfg (c\<lparr>buffer := []\<rparr>)
      in case read_some header_size (incoming c) of
           None \<Rightarrow> Inr (None, c)
         | Some (s, rest) \<Rightarrow>
             (let c = c\<lparr>incoming := rest\<rparr>
              in if length s < header_size then Inr (None, c)
                 else let h = read_header s
                      in andThen (invalid_header cfg h) (\<lambda>bad.
                           if bad
                           then andThen (send_error ''bad_request_error'' ''invalid or oversized protocol header'' c)
                                  (\<lambda>c. Inr (None, c))
                           else andThen (read_body cfg h c) (\<lambda>(ok, c).
                                  Inr (if ok then Some h else None, c)))))"

section \<open>Serving it\<close>

record ('so, 'c, 'm, 'v) tcp_server =
  runtime :: "(string \<times> string) list \<Rightarrow> ('so, 'c, 'm, 'v) ort" \<comment> \<open>ONNX Runtime sees the files\<close>
  getter :: model_bin_getter
  asserts_off :: bool
  now :: "nat \<Rightarrow> int" \<comment> \<open>the time of each request of the connection\<close>

definition create_task :: "bool \<Rightarrow> int \<Rightarrow> json \<Rightarrow> string option \<Rightarrow> task result" where
  "create_task ndebug t request_json post =
     (if t = EXECUTE_SESSION then execute_session_task ndebug request_json
      else if t = GET_SESSION then get_session_task ndebug request_json
      else if t = CREATE_SESSION then create_session_task ndebug request_json post
      else if t = DESTROY_SESSION then destroy_session_task ndebug request_json
      else if t = LIST_SESSION then Inr List_session
      else Inl (Orts_exception bad_request_error ''Invalid task type''))"

text \<open>\<^verbatim>\<open>json["option"]["path"] = uploaded_model_path\<close>\<close>

definition with_path :: "json \<Rightarrow> string \<Rightarrow> json result" where
  "with_path j path =
     (let j = (if is_object j then j else JObject [])
      in andThen (at_mut j ''option'') (\<lambda>(j, option).
         andThen (set_member option ''path'' (JString path)) (set_member j ''option'')))"

definition request_task :: "bool \<Rightarrow> protocol_header \<Rightarrow> connection \<Rightarrow> task result" where
  "request_task ndebug h c =
     (let n = nat (sint (json_length h))
      in andThen (if 0 < sint (json_length h) then parse_request_json (take n (buffer c)) else Inr (JObject []))
          (\<lambda>j. if uploaded_model_path c \<noteq> []
                then andThen (with_path j (uploaded_model_path c)) (\<lambda>j. create_task ndebug (sint (htype h)) j None)
                else create_task ndebug (sint (htype h)) j
                       (if 0 < sint (post_length h) then Some (take (nat (sint (post_length h))) (drop n (buffer c)))
                        else None)))"

datatype verdict = Go_on | Hang_up | Escaped error

text \<open>The two handlers of the loop; what they do not catch, or throw themselves, leaves it.\<close>

definition report :: "error \<Rightarrow> connection \<Rightarrow> verdict \<times> connection" where
  "report e c =
     (if \<not> is_std_exception e then (Escaped e, c)
      else case send_error (case e of Orts_exception k _ \<Rightarrow> exception_type k | _ \<Rightarrow> ''runtime_error'') (what e) c of
             Inl e' \<Rightarrow> (Escaped e', c)
           | Inr c' \<Rightarrow> (Go_on, c'))"

definition serve :: "('so, 'c, 'm, 'v) tcp_server \<Rightarrow> nat \<Rightarrow> protocol_header \<Rightarrow> connection \<Rightarrow> 'm sessions \<Rightarrow>
    (verdict \<times> connection) \<times> 'm sessions" where
  "serve srv k h c ss =
     (case request_task (asserts_off srv) h c of
        Inl e \<Rightarrow> (report e c, ss)
      | Inr t \<Rightarrow>
          (let ort = runtime srv (files c); (res, ss') = run_task ort (getter srv) (now srv k) t ss
           in case andThen res (dump float_chars) of
                Inl e \<Rightarrow> (report e c, ss')
              | Inr text \<Rightarrow>
                  (let (ok, c') = do_write (response_header (htype h) (length text)) text c
                   in ((if ok then Go_on else Hang_up, c'), ss'))))"

text \<open>One turn of the loop of \<^verbatim>\<open>run\<close>.\<close>

definition turn :: "tcp_config \<Rightarrow> ('so, 'c, 'm, 'v) tcp_server \<Rightarrow> nat \<Rightarrow> connection \<Rightarrow> 'm sessions \<Rightarrow>
    (verdict \<times> connection) \<times> 'm sessions" where
  "turn cfg srv k c ss =
     (case do_read cfg c of
        Inl e \<Rightarrow> ((Escaped e, c), ss)
      | Inr (None, c') \<Rightarrow> ((Hang_up, c'), ss)
      | Inr (Some h, c') \<Rightarrow> serve srv k h c' ss)"

definition waiting_bytes :: "connection \<Rightarrow> nat" where
  "waiting_bytes c = length (concat (incoming c))"

section \<open>Bytes\<close>

lemma read_some_split:
  "read_some n inc = Some (s, rest) \<Longrightarrow> concat inc = s @ concat rest \<and> length s \<le> n"
  by (auto simp: read_some_def split: list.splits if_splits)

lemma read_exact_zero: "len \<le> 0 \<Longrightarrow> read_exact len inc = ([], True, inc)"
  by (subst read_exact.simps) simp

lemma read_exact_step:
  "0 < len \<Longrightarrow> read_exact len inc =
     (case read_some (nat (min (int MAX_RECV_BUF_LENGTH) len)) inc of
        None \<Rightarrow> ([], False, inc)
      | Some (s, rest) \<Rightarrow>
          if s = [] then ([], False, rest)
          else let (ss, ok, rest') = read_exact (len - int (length s)) rest in (s # ss, ok, rest'))"
  by (subst read_exact.simps) simp

lemma read_exact_split:
  "read_exact len inc = (ss, ok, rest) \<Longrightarrow>
   concat inc = concat ss @ concat rest \<and> length (concat ss) \<le> nat len \<and> (ok \<longrightarrow> length (concat ss) = nat len)"
proof (induction len inc arbitrary: ss ok rest rule: read_exact.induct)
  case (1 len inc)
  show ?case
  proof (cases "0 < len")
    case False
    then show ?thesis using "1.prems" by (simp add: read_exact_zero)
  next
    case True
    let ?r = "read_some (nat (min (int MAX_RECV_BUF_LENGTH) len)) inc"
    show ?thesis
    proof (cases ?r)
      case None
      then show ?thesis using "1.prems" True by (simp add: read_exact_step)
    next
      case (Some sr)
      obtain s rest1 where sr: "sr = (s, rest1)" by (cases sr)
      have s: "concat inc = s @ concat rest1" "length s \<le> nat len"
        using read_some_split[of "nat (min (int MAX_RECV_BUF_LENGTH) len)" inc s rest1] Some sr by auto
      obtain ss' ok' rest' where r: "read_exact (len - int (length s)) rest1 = (ss', ok', rest')"
        by (metis prod_cases3)
      show ?thesis
      proof (cases "s = []")
        case True
        then show ?thesis using "1.prems" \<open>0 < len\<close> Some sr s by (auto simp: read_exact_step)
      next
        case False
        then have "ss = s # ss' \<and> ok = ok' \<and> rest = rest'"
          using "1.prems" True Some sr r by (auto simp: read_exact_step)
        then show ?thesis
          using "1.IH"[OF True Some sr[symmetric] False r] s by auto
      qed
    qed
  qed
qed

definition same_but_io :: "connection \<Rightarrow> connection \<Rightarrow> bool" where
  "same_but_io c c' \<longleftrightarrow> (\<exists>r s. c' = c\<lparr>room := r, sent := s\<rparr>)"

lemma same_but_io_refl [simp]: "same_but_io c c"
  by (cases c) (auto simp: same_but_io_def)

lemma write_some_io: "same_but_io c (snd (write_some s c))"
  by (cases c) (auto simp: same_but_io_def write_some_def split: list.split option.split)

lemma do_write_io: "do_write h s c = (ok, c') \<Longrightarrow> same_but_io c c'"
  using write_some_io[of c "header_bytes h @ s"] by (simp add: do_write_def)

lemma send_error_io: "send_error t m c = Inr c' \<Longrightarrow> same_but_io c c'"
  using write_some_io by (auto simp: send_error_def do_write_def andThen_eq_Inr)

lemma report_io: "report e c = (v, c') \<Longrightarrow> same_but_io c c'"
  by (auto simp: report_def split: if_splits sum.splits dest: send_error_io)

lemma same_but_io_sel:
  "same_but_io c c' \<Longrightarrow> incoming c' = incoming c \<and> buffer c' = buffer c \<and> files c' = files c \<and>
    uploaded_model_path c' = uploaded_model_path c \<and> uploads c' = uploads c"
  by (auto simp: same_but_io_def)

lemma serve_io: "serve srv k h c ss = ((v, c'), ss') \<Longrightarrow> same_but_io c c'"
  by (auto simp: serve_def Let_def split: sum.splits prod.splits dest: report_io do_write_io)

lemma read_upload_bytes: "read_upload cfg n c = Inr (ok, c') \<Longrightarrow> waiting_bytes c' \<le> waiting_bytes c"
  by (auto simp: read_upload_def waiting_bytes_def Let_def andThen_eq_Inr
      split: prod.splits if_splits dest!: read_exact_split send_error_io same_but_io_sel)

lemma read_body_bytes: "read_body cfg h c = Inr (ok, c') \<Longrightarrow> waiting_bytes c' \<le> waiting_bytes c"
  by (auto simp: read_body_def waiting_bytes_def Let_def
      split: prod.splits if_splits dest!: read_exact_split read_upload_bytes[unfolded waiting_bytes_def])

lemma do_read_Some:
  assumes "do_read cfg c = Inr (Some h, c')"
  obtains s rest where "read_some header_size (incoming c) = Some (s, rest)" and "length s = header_size"
    and "h = read_header s" and "invalid_header cfg h = Inr False"
    and "read_body cfg h ((cleanup_upload cfg (c\<lparr>buffer := []\<rparr>))\<lparr>incoming := rest\<rparr>) = Inr (True, c')"
proof -
  have i: "incoming (cleanup_upload cfg (c\<lparr>buffer := []\<rparr>)) = incoming c" by (simp add: cleanup_upload_def)
  obtain s rest where s: "read_some header_size (incoming c) = Some (s, rest)"
    using assms i by (auto simp: do_read_def Let_def split: option.splits)
  then show thesis
    using that[OF s] assms i read_some_split[OF s]
    by (auto simp: do_read_def Let_def andThen_eq_Inr split: if_splits prod.splits)
qed

lemma do_read_bytes:
  "do_read cfg c = Inr (Some h, c') \<Longrightarrow> header_size + waiting_bytes c' \<le> waiting_bytes c"
  by (elim do_read_Some) (fastforce simp: waiting_bytes_def dest!: read_some_split read_body_bytes)

lemma turn_bytes:
  assumes "turn cfg srv k c ss = ((Go_on, c'), ss')"
  shows "header_size + waiting_bytes c' \<le> waiting_bytes c"
proof -
  obtain h c1 where h: "do_read cfg c = Inr (Some h, c1)" and s: "serve srv k h c1 ss = ((Go_on, c'), ss')"
    using assms by (auto simp: turn_def split: sum.splits prod.splits option.splits)
  show ?thesis using do_read_bytes[OF h] same_but_io_sel[OF serve_io[OF s]] by (simp add: waiting_bytes_def)
qed

section \<open>The loop\<close>

text \<open>\<^verbatim>\<open>run\<close>, with the number of turns taken and what ended it.\<close>

function tcp_loop :: "tcp_config \<Rightarrow> ('so, 'c, 'm, 'v) tcp_server \<Rightarrow> nat \<Rightarrow> connection \<Rightarrow> 'm sessions \<Rightarrow>
    nat \<times> (verdict \<times> connection) \<times> 'm sessions" where
  "tcp_loop cfg srv k c ss =
     (case turn cfg srv k c ss of
        ((Go_on, c'), ss') \<Rightarrow> tcp_loop cfg srv (Suc k) c' ss'
      | r \<Rightarrow> (k, r))"
  by pat_completeness auto
termination
  by (relation "measure (\<lambda>(_, _, _, c, _). waiting_bytes c)") (auto dest!: turn_bytes[OF sym] simp: header_size_def)

declare tcp_loop.simps [simp del]

text \<open>
  The destructor removes a last upload. It runs when the loop is left and when an exception unwinds
  the stack up to the handler in \<^verbatim>\<open>server.cpp\<close>; after an abort, or undefined behaviour, nothing runs.
\<close>

definition unwinds :: "verdict \<Rightarrow> bool" where
  "unwinds v = (case v of Escaped e \<Rightarrow> is_std_exception e | _ \<Rightarrow> True)"

definition tcp_run :: "tcp_config \<Rightarrow> ('so, 'c, 'm, 'v) tcp_server \<Rightarrow> connection \<Rightarrow> 'm sessions \<Rightarrow>
    nat \<times> (verdict \<times> connection) \<times> 'm sessions" where
  "tcp_run cfg srv c ss =
     (case tcp_loop cfg srv 0 c ss of
        (k, (v, c'), ss') \<Rightarrow> (k, (v, if unwinds v then cleanup_upload cfg c' else c'), ss'))"

lemma loop_count:
  "tcp_loop cfg srv k c ss = (n, (v, c'), ss') \<Longrightarrow> k \<le> n \<and> header_size * (n - k) \<le> waiting_bytes c"
proof (induction cfg srv k c ss rule: tcp_loop.induct)
  case (1 cfg srv k c ss)
  obtain v1 c1 ss1 where t: "turn cfg srv k c ss = ((v1, c1), ss1)" by (metis prod_cases3 prod.collapse)
  show ?case
  proof (cases "v1 = Go_on")
    case True
    then have "tcp_loop cfg srv (Suc k) c1 ss1 = (n, (v, c'), ss')"
      using "1.prems" t by (simp add: tcp_loop.simps[of _ _ k])
    then have "Suc k \<le> n \<and> header_size * (n - Suc k) \<le> waiting_bytes c1"
      using "1.IH"[OF t[symmetric] refl] True by blast
    moreover have "header_size + waiting_bytes c1 \<le> waiting_bytes c" using turn_bytes t True by blast
    moreover have "header_size * (n - k) = header_size + header_size * (n - Suc k)" if "Suc k \<le> n"
      using that by (simp add: Suc_diff_le[symmetric] flip: mult_Suc_right)
    ultimately show ?thesis by auto
  next
    case False
    then have "n = k" using "1.prems" t by (cases v1) (auto simp: tcp_loop.simps[of _ _ k])
    then show ?thesis by simp
  qed
qed

text \<open>What every turn keeps, whatever ends it, holds when the loop ends.\<close>

locale turn_invariant =
  fixes cfg :: tcp_config and srv :: "('so, 'c, 'm, 'v) tcp_server" and P :: "connection \<Rightarrow> 'm sessions \<Rightarrow> bool"
  assumes turn_keeps: "P c ss \<Longrightarrow> turn cfg srv k c ss = ((v, c'), ss') \<Longrightarrow> P c' ss'"
begin

lemma loop_keeps: "P c ss \<Longrightarrow> tcp_loop cfg srv k c ss = (n, (v, c'), ss') \<Longrightarrow> P c' ss'"
proof (induction "waiting_bytes c" arbitrary: k c ss rule: less_induct)
  case less
  obtain v1 c1 ss1 where t: "turn cfg srv k c ss = ((v1, c1), ss1)" by (metis prod_cases3 prod.collapse)
  have P: "P c1 ss1" by (rule turn_keeps[OF less.prems(1) t])
  show ?case
  proof (cases "v1 = Go_on")
    case True
    then have "waiting_bytes c1 < waiting_bytes c" using turn_bytes[of cfg srv k c ss c1 ss1] t by (simp add: header_size_def)
    moreover have "tcp_loop cfg srv (Suc k) c1 ss1 = (n, (v, c'), ss')"
      using less.prems(2) t True by (simp add: tcp_loop.simps[of _ _ k])
    ultimately show ?thesis using less.hyps P by blast
  next
    case False
    then have "c' = c1 \<and> ss' = ss1"
      using less.prems(2) t by (cases v1) (auto simp: tcp_loop.simps[of _ _ k])
    then show ?thesis using P by simp
  qed
qed

end

lemma serve_registry:
  "snd (serve srv k h c ss) =
     (case request_task (asserts_off srv) h c of
        Inl e \<Rightarrow> ss | Inr t \<Rightarrow> snd (run_task (runtime srv (files c)) (getter srv) (now srv k) t ss))"
  by (simp add: serve_def Let_def split: sum.split prod.split)

lemma serve_manager_ok: "manager_ok ss \<Longrightarrow> serve srv k h c ss = (vc, ss') \<Longrightarrow> manager_ok ss'"
  using serve_registry[of srv k h c ss] run_task_ok by (auto split: sum.splits)

interpretation registry: turn_invariant cfg srv "\<lambda>c ss. manager_ok ss" for cfg srv
  by unfold_locales (auto simp: turn_def split: sum.splits prod.splits option.splits intro: serve_manager_ok)

section \<open>Uploads are removed\<close>

definition used_paths :: "tcp_config \<Rightarrow> connection \<Rightarrow> string set" where
  "used_paths cfg c = upload_path cfg ` {..<uploads c}"

definition uploads_inv :: "tcp_config \<Rightarrow> (string \<times> string) list \<Rightarrow> connection \<Rightarrow> bool" where
  "uploads_inv cfg fs c \<longleftrightarrow>
     (\<forall>p. p \<notin> used_paths cfg c \<longrightarrow> map_of (files c) p = map_of fs p) \<and>
     (\<forall>p \<in> used_paths cfg c. can_remove cfg p \<longrightarrow> p \<noteq> uploaded_model_path c \<longrightarrow> map_of (files c) p = None) \<and>
     (uploaded_model_path c = [] \<or> uploaded_model_path c \<in> used_paths cfg c)"

lemma upload_path_not_Nil: "upload_path cfg k \<noteq> []"
  by (simp add: upload_path_def path_join_def unique_upload_filename_def Let_def)

lemma uploads_inv_io: "same_but_io c c' \<Longrightarrow> uploads_inv cfg fs c \<Longrightarrow> uploads_inv cfg fs c'"
  by (simp add: uploads_inv_def used_paths_def same_but_io_sel)

lemma used_paths_cleanup [simp]: "used_paths cfg (cleanup_upload cfg c) = used_paths cfg c"
  by (simp add: used_paths_def cleanup_upload_def)

lemma uploads_inv_cleanup:
  "uploads_inv cfg fs c \<Longrightarrow> uploads_inv cfg fs (cleanup_upload cfg c) \<and> uploaded_model_path (cleanup_upload cfg c) = []"
  by (auto simp: uploads_inv_def used_paths_def cleanup_upload_def)

lemma read_upload_inv:
  assumes "uploads_inv cfg fs c" and "uploaded_model_path c = []" and "read_upload cfg n c = Inr (ok, c')"
  shows "uploads_inv cfg fs c'"
proof -
  let ?p = "upload_path cfg (uploads c)"
  let ?c = "c\<lparr>uploads := Suc (uploads c), uploaded_model_path := ?p\<rparr>"
  have u: "used_paths cfg ?c = insert ?p (used_paths cfg c)"
    by (auto simp: used_paths_def lessThan_Suc)
  have "\<forall>p \<in> used_paths cfg c. can_remove cfg p \<longrightarrow> map_of (files c) p = None"
    using assms(1,2) upload_path_not_Nil by (fastforce simp: uploads_inv_def used_paths_def)
  then have c: "uploads_inv cfg fs ?c" using assms(1) u by (simp add: uploads_inv_def)
  have written: "uploads_inv cfg fs (?c\<lparr>incoming := i, files := om_put ?p t (files c)\<rparr>)" for i t
    using c u by (auto simp: uploads_inv_def used_paths_def)
  show ?thesis
    using assms(3) c written uploads_inv_io[OF send_error_io]
    by (auto simp: read_upload_def Let_def andThen_eq_Inr split: if_splits prod.splits)
qed

lemma uploads_inv_read: "uploads_inv cfg fs c \<Longrightarrow> uploads_inv cfg fs (c\<lparr>incoming := i, buffer := b\<rparr>)"
  "uploads_inv cfg fs c \<Longrightarrow> uploads_inv cfg fs (c\<lparr>incoming := i\<rparr>)"
  "uploads_inv cfg fs c \<Longrightarrow> uploads_inv cfg fs (c\<lparr>buffer := b\<rparr>)"
  by (simp_all add: uploads_inv_def used_paths_def)

lemma read_body_inv:
  assumes "uploads_inv cfg fs c" and "uploaded_model_path c = []" and "read_body cfg h c = Inr (ok, c')"
  shows "uploads_inv cfg fs c'"
proof -
  obtain ps ok1 rest where r: "read_exact (sint (json_length h)) (incoming c) = (ps, ok1, rest)" by (metis prod_cases3)
  show ?thesis
    using assms r read_upload_inv[of cfg fs "c\<lparr>incoming := rest, buffer := buffer c @ concat ps\<rparr>" _ ok c']
    by (auto simp: read_body_def Let_def uploads_inv_read split: if_splits prod.splits)
qed

lemma do_read_inv: "uploads_inv cfg fs c \<Longrightarrow> do_read cfg c = Inr (r, c') \<Longrightarrow> uploads_inv cfg fs c'"
proof -
  assume c: "uploads_inv cfg fs c" and r: "do_read cfg c = Inr (r, c')"
  let ?c = "cleanup_upload cfg (c\<lparr>buffer := []\<rparr>)"
  have i: "uploads_inv cfg fs (?c\<lparr>incoming := rest\<rparr>)" "uploads_inv cfg fs ?c" "uploaded_model_path ?c = []" for rest
    using uploads_inv_cleanup[OF uploads_inv_read(3)[OF c]] by (simp_all add: uploads_inv_read)
  show "uploads_inv cfg fs c'"
    using r i read_body_inv[OF i(1)] uploads_inv_io[OF send_error_io]
    by (auto simp: do_read_def Let_def andThen_eq_Inr split: option.splits if_splits prod.splits)
qed

interpretation upload_files: turn_invariant cfg srv "\<lambda>c ss. uploads_inv cfg fs c" for cfg srv fs
  by unfold_locales
    (auto simp: turn_def split: sum.splits prod.splits option.splits dest: do_read_inv intro: uploads_inv_io[OF serve_io])

end
