(* ===== verification/Tcp_Correct.thy ===== *)
theory Tcp_Correct
  imports Tcp Float_Roundtrip
begin

text \<open>
  What a TCP connection guarantees, over the model in \<^verbatim>\<open>Tcp\<close>: framing neither loses nor
  invents bytes, a request that arrives is answered by its task, every connection ends, uploads
  do not outlive it, and what is refused is refused without effect.
\<close>

section \<open>Every byte in its place\<close>

definition upload_content :: "connection \<Rightarrow> string" where
  "upload_content c = (case map_of (files c) (uploaded_model_path c) of Some t \<Rightarrow> t | None \<Rightarrow> [])"

lemma file_writes:
  "fold (file_write n) ps (t, ok) = (t', True) \<Longrightarrow> ok \<and> t' = t @ concat ps \<and> (ps \<noteq> [] \<longrightarrow> length t' \<le> n)"
proof (induction ps arbitrary: t ok)
  case (Cons p ps)
  show ?case
  proof (cases "ok \<and> length t + length p \<le> n")
    case True
    then have "file_write n p (t, ok) = (t @ p, True)" by (simp add: file_write_def)
    then show ?thesis using Cons.IH[of "t @ p" True] Cons.prems True by (cases ps) auto
  next
    case False
    then have "file_write n p (t, ok) = (t, False)" by (simp add: file_write_def)
    then show ?thesis using Cons.IH[of t False] Cons.prems by auto
  qed
qed simp

definition upload_size :: "protocol_header \<Rightarrow> nat" where
  "upload_size h = (if is_create h then nat (sint (post_length h)) else 0)"

lemma read_upload_exact:
  assumes "read_upload cfg n c = Inr (True, c')"
  shows "concat (incoming c) = upload_content c' @ concat (incoming c') \<and> length (upload_content c') = nat n \<and>
    buffer c' = buffer c \<and> uploaded_model_path c' \<noteq> []"
proof -
  obtain ps ok rest where r: "read_exact n (incoming c) = (ps, ok, rest)" by (metis prod_cases3)
  obtain t good where f: "fold (file_write (disk cfg)) ps ([], True) = (t, good)" by (metis prod.exhaust)
  have ok: "ok" "good" and c': "c' = c\<lparr>uploads := Suc (uploads c), uploaded_model_path := upload_path cfg (uploads c),
      incoming := rest, files := om_put (upload_path cfg (uploads c)) t (files c)\<rparr>"
    using assms r f by (auto simp: read_upload_def Let_def andThen_eq_Inr split: if_splits)
  have "t = concat ps" using file_writes[of "disk cfg" ps "[]" True t] f ok by simp
  then show ?thesis
    using read_exact_split[OF r] ok c' upload_path_not_Nil by (simp add: upload_content_def)
qed

lemma read_body_exact:
  assumes "read_body cfg h c = Inr (True, c')" and "buffer c = []" and "uploaded_model_path c = []"
    and "0 \<le> sint (json_length h)" and "0 \<le> sint (post_length h)"
  shows "concat (incoming c) =
      buffer c' @ (if uploaded_model_path c' = [] then [] else upload_content c') @ concat (incoming c') \<and>
    (uploaded_model_path c' \<noteq> [] \<longleftrightarrow> is_create h \<and> 0 < sint (post_length h)) \<and>
    int (length (buffer c')) = sint (json_length h) + (if uploaded_model_path c' = [] then sint (post_length h) else 0) \<and>
    (uploaded_model_path c' \<noteq> [] \<longrightarrow> int (length (upload_content c')) = sint (post_length h))"
proof -
  obtain ps ok rest where r: "read_exact (sint (json_length h)) (incoming c) = (ps, ok, rest)" by (metis prod_cases3)
  obtain qs ok' rest' where r': "read_exact (sint (post_length h)) rest = (qs, ok', rest')" by (metis prod_cases3)
  have ok: ok by (rule ccontr) (use assms(1) r in \<open>simp add: read_body_def\<close>)
  note s = read_exact_split[OF r] and s' = read_exact_split[OF r']
  let ?c = "c\<lparr>incoming := rest, buffer := concat ps\<rparr>"
  consider (upload) "is_create h" "0 < sint (post_length h)" | (post) "\<not> is_create h" "0 < sint (post_length h)"
    | (none) "sint (post_length h) = 0" using assms(5) by linarith
  then show ?thesis
  proof cases
    case upload
    then have u: "read_upload cfg (sint (post_length h)) ?c = Inr (True, c')"
      using assms(1,2) r ok by (simp add: read_body_def)
    show ?thesis using read_upload_exact[OF u] s ok upload assms(4) by simp
  next
    case post
    then have "ok' \<and> c' = ?c\<lparr>incoming := rest', buffer := concat ps @ concat qs\<rparr>"
      using assms(1,2) r r' ok by (simp add: read_body_def)
    then show ?thesis using s s' ok post assms(3-5) by simp
  next
    case none
    then have "c' = ?c" using assms(1,2) r ok by (simp add: read_body_def)
    then show ?thesis using s ok none assms(3-5) by simp
  qed
qed

definition header_valid :: "tcp_config \<Rightarrow> protocol_header \<Rightarrow> bool" where
  "header_valid cfg h \<longleftrightarrow>
     0 \<le> sint (json_length h) \<and> sint (json_length h) \<le> request_payload_limit cfg \<and>
     0 \<le> sint (post_length h) \<and>
     sint (post_length h) \<le> (if is_create h then model_upload_limit cfg else request_payload_limit cfg) \<and>
     sint (hlength h) = sint (json_length h) + sint (post_length h)"

lemma invalid_header_False: "invalid_header cfg h = Inr False \<Longrightarrow> header_valid cfg h"
  by (auto simp: invalid_header_def header_valid_def Let_def split: if_splits)

lemma cleanup_sel [simp]:
  "uploaded_model_path (cleanup_upload cfg c) = []" "buffer (cleanup_upload cfg c) = buffer c"
  "incoming (cleanup_upload cfg c) = incoming c" "room (cleanup_upload cfg c) = room c" "sent (cleanup_upload cfg c) = sent c"
  "uploads (cleanup_upload cfg c) = uploads c"
  by (simp_all add: cleanup_upload_def)

lemma do_read_exact:
  assumes "do_read cfg c = Inr (Some h, c')"
  shows "\<exists>s. length s = header_size \<and> h = read_header s \<and> header_valid cfg h \<and>
    concat (incoming c) =
      s @ buffer c' @ (if uploaded_model_path c' = [] then [] else upload_content c') @ concat (incoming c') \<and>
    (uploaded_model_path c' \<noteq> [] \<longleftrightarrow> is_create h \<and> 0 < sint (post_length h)) \<and>
    int (length (buffer c')) = sint (json_length h) + (if uploaded_model_path c' = [] then sint (post_length h) else 0) \<and>
    (uploaded_model_path c' \<noteq> [] \<longrightarrow> int (length (upload_content c')) = sint (post_length h))"
  using assms
proof (rule do_read_Some)
  fix s rest
  let ?c = "(cleanup_upload cfg (c\<lparr>buffer := []\<rparr>))\<lparr>incoming := rest\<rparr>"
  assume s: "read_some header_size (incoming c) = Some (s, rest)" "length s = header_size"
    and h: "h = read_header s" "invalid_header cfg h = Inr False" and b: "read_body cfg h ?c = Inr (True, c')"
  have v: "header_valid cfg h" by (rule invalid_header_False[OF h(2)])
  have "concat (incoming c) = s @ concat rest" using read_some_split[OF s(1)] by simp
  then show ?thesis
    using read_body_exact[OF b] s(2) h(1) v by (intro exI[of _ s]) (simp add: header_valid_def)
qed


section \<open>Requests that arrive\<close>

lemma read_some_full:
  "[] \<notin> set inc \<Longrightarrow> 0 < n \<Longrightarrow> inc \<noteq> [] \<Longrightarrow> \<exists>s rest. read_some n inc = Some (s, rest) \<and> s \<noteq> [] \<and> [] \<notin> set rest"
  by (cases inc) (auto simp: read_some_def)

lemma read_exact_enough:
  "[] \<notin> set inc \<Longrightarrow> nat len \<le> length (concat inc) \<Longrightarrow> \<exists>ss rest. read_exact len inc = (ss, True, rest) \<and> [] \<notin> set rest"
proof (induction len inc rule: read_exact.induct)
  case (1 len inc)
  show ?case
  proof (cases "0 < len")
    case True
    let ?n = "nat (min (int MAX_RECV_BUF_LENGTH) len)"
    have "inc \<noteq> []" "0 < ?n" using "1.prems" True by (auto simp: MAX_RECV_BUF_LENGTH_def)
    then obtain s rest where s: "read_some ?n inc = Some (s, rest)" "s \<noteq> []" "[] \<notin> set rest"
      using read_some_full "1.prems"(1) by blast
    then have "nat (len - int (length s)) \<le> length (concat rest)"
      using read_some_split[OF s(1)] "1.prems"(2) by auto
    then obtain ss rest' where "read_exact (len - int (length s)) rest = (ss, True, rest')" "[] \<notin> set rest'"
      using "1.IH"[OF True s(1) refl s(2,3)] by blast
    then show ?thesis using s True by (simp add: read_exact_step)
  qed (use "1.prems" in \<open>simp add: read_exact_zero\<close>)
qed

lemma file_writes_fit: "length t + length (concat ps) \<le> n \<Longrightarrow> fold (file_write n) ps (t, True) = (t @ concat ps, True)"
  by (induction ps arbitrary: t) (simp_all add: file_write_def)

definition upload_possible :: "tcp_config \<Rightarrow> connection \<Rightarrow> nat \<Rightarrow> bool" where
  "upload_possible cfg c n \<longleftrightarrow> can_open cfg (upload_path cfg (uploads c)) \<and> n \<le> disk cfg"

lemma invalid_header_valid: "header_valid cfg h \<Longrightarrow> invalid_header cfg h = Inr False"
proof -
  assume v: "header_valid cfg h"
  have "sint (hlength h) < 2 ^ 63" using sint_lt[of "hlength h"] by simp
  with v show ?thesis by (auto simp: invalid_header_def header_valid_def Let_def)
qed

text \<open>A valid request is read whole, if the header comes with the first piece.\<close>

lemma do_read_delivered:
  assumes "header_valid cfg h" and "[] \<notin> set (incoming c)"
    and "concat (incoming c) = header_bytes (network_header h) @ body @ later"
    and "header_size \<le> length (hd (incoming c))"
    and "int (length body) = sint (json_length h) + sint (post_length h)"
    and "is_create h \<Longrightarrow> 0 < sint (post_length h) \<Longrightarrow> upload_possible cfg c (nat (sint (post_length h)))"
  shows "\<exists>c'. do_read cfg c = Inr (Some h, c') \<and> [] \<notin> set (incoming c') \<and> concat (incoming c') = later \<and>
    buffer c' @ (if uploaded_model_path c' = [] then [] else upload_content c') = body \<and>
    room c' = room c \<and> sent c' = sent c \<and>
    (uploaded_model_path c' = [] \<longrightarrow> files c' = files (cleanup_upload cfg c))"
proof -
  obtain seg segs where i: "incoming c = seg # segs" "header_size \<le> length seg"
    using assms(4) arg_cong[OF assms(3), of length] by (cases "incoming c") (simp_all add: header_size_def)
  let ?w = "header_bytes (network_header h)"
  have seg: "take header_size seg = ?w"
  proof -
    have "take header_size (seg @ concat segs) = take header_size (?w @ body @ later)" using assms(3) i by simp
    then show ?thesis using i(2) by simp
  qed
  obtain rest where rest: "read_some header_size (incoming c) = Some (?w, rest)" "[] \<notin> set rest"
  proof (cases "length seg \<le> header_size")
    case True
    then show ?thesis using that[of segs] i seg assms(2) by (simp add: read_some_def)
  next
    case False
    then show ?thesis using that[of "drop header_size seg # segs"] i seg assms(2) by (simp add: read_some_def)
  qed
  have bytes: "concat rest = body @ later" using read_some_split[OF rest(1)] assms(3) by simp
  let ?c = "(cleanup_upload cfg (c\<lparr>buffer := []\<rparr>))\<lparr>incoming := rest\<rparr>"
  have nn: "0 \<le> sint (json_length h)" "0 \<le> sint (post_length h)" using assms(1) by (simp_all add: header_valid_def)
  have "nat (sint (json_length h)) \<le> length (concat rest)"
    unfolding bytes using assms(5) nn by simp
  then obtain ps rest1 where r: "read_exact (sint (json_length h)) rest = (ps, True, rest1)" "[] \<notin> set rest1"
    using read_exact_enough[OF rest(2)] by blast
  have r1: "length (concat ps) = nat (sint (json_length h))" "concat rest = concat ps @ concat rest1"
    using read_exact_split[OF r(1)] by auto
  have "nat (sint (post_length h)) \<le> length (concat rest1)"
  proof -
    have "length (concat rest) = length (concat ps) + length (concat rest1)" using r1 by simp
    then show ?thesis using bytes r1(1) assms(5) nn by simp
  qed
  then obtain qs rest2 where q: "read_exact (sint (post_length h)) rest1 = (qs, True, rest2)" "[] \<notin> set rest2"
    using read_exact_enough[OF r(2)] by blast
  have q1: "length (concat qs) = nat (sint (post_length h))" using read_exact_split[OF q(1)] by auto
  have "\<exists>c'. read_body cfg h ?c = Inr (True, c') \<and> [] \<notin> set (incoming c') \<and> room c' = room c \<and> sent c' = sent c \<and>
    (uploaded_model_path c' = [] \<longrightarrow> files c' = files (cleanup_upload cfg c))"
  proof (cases "is_create h \<and> 0 < sint (post_length h)")
    case True
    then have "upload_possible cfg c (nat (sint (post_length h)))" using assms(6) by blast
    then have "can_open cfg (upload_path cfg (uploads c))" "fold (file_write (disk cfg)) qs ([], True) = (concat qs, True)"
      using file_writes_fit[of "[]" qs "disk cfg"] q1 by (simp_all add: upload_possible_def)
    then show ?thesis
      using True r q upload_path_not_Nil by (simp add: read_body_def read_upload_def Let_def)
  next
    case False
    then show ?thesis
      using r q by (cases "0 < sint (post_length h)") (auto simp: read_body_def Let_def cleanup_upload_def)
  qed
  then obtain c' where b: "read_body cfg h ?c = Inr (True, c')" "[] \<notin> set (incoming c')" "room c' = room c" "sent c' = sent c"
    "uploaded_model_path c' = [] \<longrightarrow> files c' = files (cleanup_upload cfg c)" by blast
  have d: "do_read cfg c = Inr (Some h, c')"
    using rest(1) b(1) invalid_header_valid[OF assms(1)]
    by (simp add: do_read_def Let_def read_written_header)
  have e: "concat rest = (buffer c' @ (if uploaded_model_path c' = [] then [] else upload_content c')) @ concat (incoming c')"
    and l: "int (length (buffer c' @ (if uploaded_model_path c' = [] then [] else upload_content c'))) = int (length body)"
    using read_body_exact[OF b(1)] nn assms(5) by auto
  from e have "body @ later = (buffer c' @ (if uploaded_model_path c' = [] then [] else upload_content c')) @ concat (incoming c')"
    unfolding bytes .
  with l have "body = buffer c' @ (if uploaded_model_path c' = [] then [] else upload_content c') \<and>
      later = concat (incoming c')"
    using append_eq_append_conv[of body _ later] by (simp only: of_nat_eq_iff) metis
  then show ?thesis using d b by metis
qed

section \<open>From the request to the answer\<close>

definition request_header :: "16 word \<Rightarrow> nat \<Rightarrow> protocol_header" where
  "request_header t n = \<lparr>htype = t, hlength = word_of_nat n, json_length = word_of_nat n, post_length = 0\<rparr>"

text \<open>What a client writes: a header in network order and the JSON.\<close>

definition message :: "16 word \<Rightarrow> string \<Rightarrow> string" where
  "message t text = header_bytes (network_header (request_header t (length text))) @ text"

lemma HTONLL_0: "HTONLL 0 = 0"
  by (simp add: HTONLL_def htonl_def)

lemma response_message: "header_bytes (response_header t (length text)) @ text = message t text"
  by (simp add: message_def response_header_def request_header_def network_header_def)

lemma length_message: "length (message t text) = header_size + length text"
  by (simp add: message_def)

lemma sint_small: "int n < 2 ^ 63 \<Longrightarrow> sint (word_of_nat n :: 64 word) = int n"
  by (simp add: signed_of_nat signed_take_bit_int_eq_self)

lemma request_header_valid:
  assumes "int n \<le> request_payload_limit cfg" and "request_payload_limit cfg < 2 ^ 63" and "0 \<le> model_upload_limit cfg"
  shows "header_valid cfg (request_header t n)" and "sint (json_length (request_header t n)) = int n"
    and "sint (post_length (request_header t n)) = 0" and "htype (request_header t n) = t"
  using assms sint_small[of n] by (simp_all add: request_header_def header_valid_def)

text \<open>The outcome of a request without a post body, in a registry, and the message it makes.\<close>

definition request_outcome :: "('so, 'c, 'm, 'v) tcp_server \<Rightarrow> nat \<Rightarrow> (string \<times> string) list \<Rightarrow> 16 word \<Rightarrow> string \<Rightarrow>
    'm sessions \<Rightarrow> json result \<times> 'm sessions" where
  "request_outcome srv k fs t req ss =
     (case andThen (if req = [] then Inr (JObject []) else parse_request_json req)
             (\<lambda>j. create_task (asserts_off srv) (sint t) j None) of
        Inl e \<Rightarrow> (Inl e, ss)
      | Inr task \<Rightarrow> run_task (runtime srv fs) (getter srv) (now srv k) task ss)"

definition error_class :: "error \<Rightarrow> string" where
  "error_class e = (case e of
      Orts_exception not_found_error _ \<Rightarrow> ''not_found_error''
    | Orts_exception bad_request_error _ \<Rightarrow> ''bad_request_error''
    | Orts_exception conflict_error _ \<Rightarrow> ''conflict_error''
    | _ \<Rightarrow> ''runtime_error'')"

lemma error_class_type: "(case e of Orts_exception k _ \<Rightarrow> exception_type k | _ \<Rightarrow> ''runtime_error'') = error_class e"
  by (simp add: error_class_def exception_type_def split: error.split exception_kind.split)

text \<open>What the client is told: the result under the type of its request, or the error under the type -1.\<close>

definition reply_of :: "16 word \<Rightarrow> json result \<Rightarrow> string result" where
  "reply_of t res =
     (case andThen res (dump float_chars) of
        Inr answer \<Rightarrow> Inr (message t answer)
      | Inl e \<Rightarrow> (if is_std_exception e then andThen (what_to_json (error_class e) (what e)) (\<lambda>text. Inr (message (- 1) text))
                 else Inl e))"

lemma serve_replies:
  assumes "request_task (asserts_off srv) h c =
      andThen (if req = [] then Inr (JObject []) else parse_request_json req) (\<lambda>j. create_task (asserts_off srv) (sint t) j None)"
    and "htype h = t" and "request_outcome srv k (files c) t req ss = (res, ss')"
    and "reply_of t res = Inr reply" and "room c = Some n # r" and "0 < n"
  shows "serve srv k h c ss = ((Go_on, c\<lparr>room := r, sent := sent c @ take n reply\<rparr>), ss')"
proof -
  have pos: "0 < min n (length (message u w))" for u w using assms(6) by (simp add: length_message header_size_def)
  have report: "report e c = (Go_on, c\<lparr>room := r, sent := sent c @ take n reply\<rparr>)"
    if "andThen res (dump float_chars) = Inl e" for e
    using assms(4,5) that
    by (auto simp: reply_of_def report_def error_class_type send_error_def do_write_def write_some_def response_message andThen_eq_Inr
        split: if_splits)
  show ?thesis
  proof (cases "request_task (asserts_off srv) h c")
    case (Inl e)
    then have "res = Inl e \<and> ss' = ss" using assms(1,3) by (simp add: request_outcome_def)
    then show ?thesis using Inl report by (simp add: serve_def)
  next
    case (Inr task)
    then have run: "run_task (runtime srv (files c)) (getter srv) (now srv k) task ss = (res, ss')"
      using assms(1,3) by (simp add: request_outcome_def)
    show ?thesis
    proof (cases "andThen res (dump float_chars)")
      case (Inl e)
      then show ?thesis using Inr run report by (simp add: serve_def)
    next
      case (Inr answer)
      then have "reply = message t answer" using assms(4) by (simp add: reply_of_def)
      then show ?thesis
        using \<open>request_task _ h c = Inr task\<close> run Inr assms(2,5) pos[of t answer]
        by (simp add: serve_def do_write_def write_some_def response_message)
    qed
  qed
qed

lemma turn_serves:
  assumes limits: "int (length req) \<le> request_payload_limit cfg" "request_payload_limit cfg < 2 ^ 63" "0 \<le> model_upload_limit cfg"
    and arrives: "[] \<notin> set (incoming c)" "concat (incoming c) = message t req @ later" "header_size \<le> length (hd (incoming c))"
    and result: "request_outcome srv k (files (cleanup_upload cfg c)) t req ss = (res, ss')" "reply_of t res = Inr reply"
    and out: "room c = Some n # r" "0 < n"
  shows "\<exists>c'. turn cfg srv k c ss = ((Go_on, c'), ss') \<and> sent c' = sent c @ take n reply \<and>
    concat (incoming c') = later \<and> room c' = r \<and> files c' = files (cleanup_upload cfg c)"
proof -
  let ?h = "request_header t (length req)"
  note v = request_header_valid[OF limits, of t]
  obtain c1 where c1: "do_read cfg c = Inr (Some ?h, c1)" "[] \<notin> set (incoming c1)" "concat (incoming c1) = later"
    "buffer c1 @ (if uploaded_model_path c1 = [] then [] else upload_content c1) = req" "room c1 = room c" "sent c1 = sent c"
    "uploaded_model_path c1 = [] \<longrightarrow> files c1 = files (cleanup_upload cfg c)"
    using do_read_delivered[OF v(1) arrives(1) arrives(2)[unfolded message_def append_assoc] arrives(3)] v by auto
  have up: "uploaded_model_path c1 = []" using do_read_exact[OF c1(1)] v(3) by auto
  then have b: "buffer c1 = req" and fs: "files c1 = files (cleanup_upload cfg c)" using c1(4,7) by simp_all
  have task: "request_task (asserts_off srv) ?h c1 =
      andThen (if req = [] then Inr (JObject []) else parse_request_json req) (\<lambda>j. create_task (asserts_off srv) (sint t) j None)"
    using v b up by (simp add: request_task_def)
  have "room c1 = Some n # r" using c1(5) out(1) by simp
  from serve_replies[OF task v(4) result(1)[folded fs] result(2) this out(2)]
  show ?thesis using c1 fs by (simp add: turn_def)
qed

lemma short_header:
  assumes "incoming c = seg # segs" and "length seg < header_size"
  shows "do_read cfg c = Inr (None, (cleanup_upload cfg (c\<lparr>buffer := []\<rparr>))\<lparr>incoming := segs\<rparr>)"
  using assms by (simp add: do_read_def Let_def read_some_def)

section \<open>A sample connection\<close>

definition sample_config :: tcp_config where
  "sample_config = \<lparr>request_payload_limit = 10485760, model_upload_limit = 2147483648, model_upload_dir = [],
     temp_directory = ''/tmp'', can_open = (\<lambda>_. True), can_remove = (\<lambda>_. True), disk = 1000, draws = (\<lambda>_. replicate 16 7)\<rparr>"

definition sample_connection :: connection where
  "sample_connection = new_connection [message 21 ''{}''] [Some 28] []"

lemma sample_read:
  "\<exists>c'. do_read sample_config sample_connection = Inr (Some (request_header 21 2), c')"
proof -
  have "header_valid sample_config (request_header 21 2)" "sint (post_length (request_header 21 2)) = 0"
      "sint (json_length (request_header 21 2)) = 2"
    using request_header_valid[of 2 sample_config 21] by (simp_all add: sample_config_def)
  then show ?thesis
    using do_read_delivered[of sample_config "request_header 21 2" sample_connection "''{}''" "[]"]
    by (auto simp: sample_connection_def new_connection_def message_def header_size_def simp flip: numeral_2_eq_2)
qed

section \<open>Properties\<close>

text \<open>
  C7. Framing loses and invents no byte. When \<^verbatim>\<open>do_read\<close> accepts a request, in whatever pieces the
  network delivered it, the bytes taken from the socket are those of the header, of the buffer
  and of the upload file, in this order; buffer and file have exactly the lengths the header
  announces, within the limits, and whether there is a file depends on the type alone.
\<close>

theorem accepted_request:
  assumes "do_read cfg c = Inr (Some h, c')"
  shows "\<exists>s. length s = header_size \<and> h = read_header s \<and> header_valid cfg h \<and>
    concat (incoming c) =
      s @ buffer c' @ (if uploaded_model_path c' = [] then [] else upload_content c') @ concat (incoming c') \<and>
    (uploaded_model_path c' \<noteq> [] \<longleftrightarrow> is_create h \<and> 0 < sint (post_length h)) \<and>
    int (length (buffer c')) = sint (json_length h) + (if uploaded_model_path c' = [] then sint (post_length h) else 0) \<and>
    (uploaded_model_path c' \<noteq> [] \<longrightarrow> int (length (upload_content c')) = sint (post_length h))"
  by (rule do_read_exact[OF assms])

lemma accepted_request_witness:
  "\<exists>c'. do_read sample_config sample_connection = Inr (Some (request_header 21 2), c') \<and>
     (uploaded_model_path c' \<noteq> [] \<longleftrightarrow> is_create (request_header 21 2) \<and> 0 < sint (post_length (request_header 21 2)))"
proof -
  obtain c' where "do_read sample_config sample_connection = Inr (Some (request_header 21 2), c')"
    using sample_read by blast
  then show ?thesis using accepted_request[of sample_config sample_connection _ c'] by blast
qed

text \<open>
  C5. From request to answer. A request whose 26 bytes of header come with the first segment, and
  the rest in any pieces, is parsed, made a task and run on the registry, whatever its text and
  type; the reply is the JSON of the result under the type of the request or, when anything on
  the way failed, the error under the type -1. The socket is given it once: what it takes of it is
  what the client gets, and if it takes anything at all the connection goes on, with the bytes that
  follow the request. The registry is changed by the task alone, and of the files only an earlier
  upload, which is removed. There is no reply only if the error text cannot be written as JSON, or after an abort.
\<close>

theorem request_answered:
  assumes "int (length req) \<le> request_payload_limit cfg" and "request_payload_limit cfg < 2 ^ 63"
    and "0 \<le> model_upload_limit cfg"
    and "[] \<notin> set (incoming c)" and "concat (incoming c) = message t req @ later"
    and "header_size \<le> length (hd (incoming c))"
    and "request_outcome srv k (files (cleanup_upload cfg c)) t req ss = (res, ss')"
    and "reply_of t res = Inr reply"
    and "room c = Some n # r" and "0 < n"
  shows "\<exists>c'. turn cfg srv k c ss = ((Go_on, c'), ss') \<and> sent c' = sent c @ take n reply \<and>
    concat (incoming c') = later \<and> room c' = r \<and> files c' = files (cleanup_upload cfg c)"
  by (rule turn_serves[OF assms])

lemma request_answered_witness:
  "\<exists>c'. turn sample_config (\<lparr>runtime = (\<lambda>_. demo_ort), getter = demo_getter, asserts_off = True, now = int\<rparr>) 0
       sample_connection [] = ((Go_on, c'), []) \<and> sent c' = message 21 ''[]''"
proof -
  let ?srv = "\<lparr>runtime = (\<lambda>_. demo_ort), getter = demo_getter, asserts_off = True, now = int\<rparr>"
  have p: "parse_request_json ''{}'' = Inr (JObject [])"
    using parse_request_dump[of "JObject []" "\<lambda>_. []" "''{}''"] by simp
  have "request_outcome ?srv 0 (files (cleanup_upload sample_config sample_connection)) 21 ''{}'' [] = (Inr (JArray []), [])"
    by (simp add: request_outcome_def p create_task_def EXECUTE_SESSION_def GET_SESSION_def CREATE_SESSION_def
      DESTROY_SESSION_def LIST_SESSION_def)
  then have "\<exists>c'. turn sample_config ?srv 0 sample_connection [] = ((Go_on, c'), []) \<and>
      sent c' = sent sample_connection @ take 28 (message 21 ''[]'') \<and> concat (incoming c') = [] \<and> room c' = [] \<and>
      files c' = files (cleanup_upload sample_config sample_connection)"
    by (rule request_answered[where req = "''{}''", rotated 6])
      (simp_all add: reply_of_def sample_connection_def sample_config_def new_connection_def message_def header_size_def)
  then show ?thesis by (auto simp: sample_connection_def new_connection_def length_message header_size_def)
qed

text \<open>
  C14. Every connection ends, whatever the peer sends and however the network cuts it: each turn of
  the loop takes the 26 bytes of a header, and the registry of models stays well-formed.
\<close>

theorem connection_ends:
  "header_size * fst (tcp_run cfg srv c ss) \<le> length (concat (incoming c)) \<and>
   (manager_ok ss \<longrightarrow> manager_ok (snd (snd (tcp_run cfg srv c ss))))"
proof -
  obtain n v c' ss' where l: "tcp_loop cfg srv 0 c ss = (n, (v, c'), ss')" by (metis prod_cases3 prod.collapse)
  then show ?thesis
    using loop_count[OF l] registry.loop_keeps[OF _ l] by (simp add: tcp_run_def waiting_bytes_def)
qed

lemma connection_ends_witness:
  "manager_ok (snd (snd (tcp_run sample_config
     (\<lparr>runtime = (\<lambda>_. demo_ort), getter = demo_getter, asserts_off = True, now = int\<rparr>) sample_connection [])))"
  by (rule conjunct2[OF connection_ends, rule_format]) simp

text \<open>
  C15. What becomes of uploads. When a connection is over, because its loop was left or an exception
  was thrown, every file is gone whose name it drew for an upload, except those that the file
  system would not remove, an error that is ignored. When an assertion or undefined behaviour
  ended the process, the upload of the last request may be left as well. Every other file is as
  it was before.
\<close>

theorem uploads_removed:
  "case tcp_run cfg srv (new_connection inc out fs) ss of (n, (v, c), ss') \<Rightarrow>
     map_of (files c) |` (- upload_path cfg ` {..<uploads c}) = map_of fs |` (- upload_path cfg ` {..<uploads c}) \<and>
     dom (map_of (files c)) \<inter> upload_path cfg ` {..<uploads c} \<inter> Collect (can_remove cfg) \<subseteq>
       (if unwinds v then {} else {uploaded_model_path c})"
proof -
  obtain n v c' ss' where l: "tcp_loop cfg srv 0 (new_connection inc out fs) ss = (n, (v, c'), ss')"
    by (metis prod_cases3 prod.collapse)
  let ?c = "if unwinds v then cleanup_upload cfg c' else c'"
  have "uploads_inv cfg fs (new_connection inc out fs)"
    by (simp add: uploads_inv_def used_paths_def new_connection_def)
  then have c': "uploads_inv cfg fs c'" using upload_files.loop_keeps[OF _ l] by blast
  then have "uploads_inv cfg fs ?c" using uploads_inv_cleanup by simp
  moreover have "unwinds v \<Longrightarrow> uploaded_model_path ?c = []" by simp
  ultimately have "map_of (files ?c) |` (- used_paths cfg ?c) = map_of fs |` (- used_paths cfg ?c)"
    "dom (map_of (files ?c)) \<inter> used_paths cfg ?c \<inter> Collect (can_remove cfg) \<subseteq>
       (if unwinds v then {} else {uploaded_model_path ?c})"
    using upload_path_not_Nil by (force simp: uploads_inv_def used_paths_def restrict_map_def fun_eq_iff)+
  then show ?thesis using l by (simp add: tcp_run_def used_paths_def)
qed

definition header_refusal :: string where
  "header_refusal = (case what_to_json ''bad_request_error'' ''invalid or oversized protocol header'' of Inr t \<Rightarrow> t | Inl e \<Rightarrow> [])"

lemma header_refusal: "what_to_json ''bad_request_error'' ''invalid or oversized protocol header'' = Inr header_refusal"
proof -
  have "case what_to_json ''bad_request_error'' ''invalid or oversized protocol header'' of Inl _ \<Rightarrow> False | Inr _ \<Rightarrow> True"
    by code_simp
  then show ?thesis by (simp add: header_refusal_def split: sum.splits)
qed

text \<open>
  C28. What is not a request is refused. A header whose lengths are negative, over their limits or
  do not add up, whatever follows it, is answered with an error message, as far as the socket takes it, and
  ends the connection; so does, without an answer, a first piece shorter than a header, though the rest
  may be on its way. Neither changes the registry or reads on. Left out are lengths that are
  within their limits and yet have a sum of more than 64 bits, which is undefined in the code.
\<close>

theorem request_refused:
  assumes "incoming c = seg # segs" and "h = read_header (take header_size seg)"
  shows "(length seg < header_size \<longrightarrow>
      (\<exists>c'. turn cfg srv k c ss = ((Hang_up, c'), ss) \<and> sent c' = sent c \<and> incoming c' = segs)) \<and>
    (header_size \<le> length seg \<and> \<not> header_valid cfg h \<and> sint (json_length h) + sint (post_length h) < 2 ^ 63 \<and>
     room c = Some n # r \<longrightarrow>
      (\<exists>c'. turn cfg srv k c ss = ((Hang_up, c'), ss) \<and> sent c' = sent c @ take n (message (- 1) header_refusal) \<and>
        concat (incoming c') = drop header_size seg @ concat segs))"
proof (intro conjI impI)
  assume "length seg < header_size"
  then show "\<exists>c'. turn cfg srv k c ss = ((Hang_up, c'), ss) \<and> sent c' = sent c \<and> incoming c' = segs"
    using short_header[OF assms(1)] by (simp add: turn_def)
next
  assume a: "header_size \<le> length seg \<and> \<not> header_valid cfg h \<and> sint (json_length h) + sint (post_length h) < 2 ^ 63 \<and>
     room c = Some n # r"
  then obtain rest where rest: "read_some header_size (incoming c) = Some (take header_size seg, rest)"
    "concat rest = drop header_size seg @ concat segs"
    by (cases "length seg = header_size") (auto simp: assms(1) read_some_def)
  have "invalid_header cfg h = Inr True"
    using a invalid_header_False[of cfg h] by (auto simp: invalid_header_def Let_def split: if_splits)
  then show "\<exists>c'. turn cfg srv k c ss = ((Hang_up, c'), ss) \<and> sent c' = sent c @ take n (message (- 1) header_refusal) \<and>
      concat (incoming c') = drop header_size seg @ concat segs"
    using a rest assms(2)
    by (simp add: turn_def do_read_def Let_def send_error_def header_refusal do_write_def write_some_def
      response_message message_def[symmetric] length_message)
qed

lemma request_refused_witness:
  "(\<exists>c'. turn sample_config (\<lparr>runtime = (\<lambda>_. demo_ort), getter = demo_getter, asserts_off = True, now = int\<rparr>) 0
     (new_connection [''abc'', ''def''] [] []) [] = ((Hang_up, c'), []) \<and> sent c' = [] \<and> incoming c' = [''def'']) \<and>
   (\<exists>c'. turn sample_config (\<lparr>runtime = (\<lambda>_. demo_ort), getter = demo_getter, asserts_off = True, now = int\<rparr>) 0
     (new_connection [replicate 25 CHR 0x00 @ ''ax''] [Some 10] []) [] = ((Hang_up, c'), []) \<and>
     sent c' = take 10 (message (- 1) header_refusal) \<and> concat (incoming c') = ''x'')"
proof (intro conjI)
  let ?srv = "\<lparr>runtime = (\<lambda>_. demo_ort), getter = demo_getter, asserts_off = True, now = int\<rparr>"
  show "\<exists>c'. turn sample_config ?srv 0 (new_connection [''abc'', ''def''] [] []) [] = ((Hang_up, c'), []) \<and>
      sent c' = [] \<and> incoming c' = [''def'']"
    using request_refused[of "new_connection [''abc'', ''def''] [] []" "''abc''" "[''def'']" _ sample_config ?srv 0 "[]"]
    by (simp add: new_connection_def header_size_def)
  let ?seg = "replicate 25 CHR 0x00 @ ''ax''"
  let ?c = "new_connection [?seg] [Some 10] []"
  let ?h = "read_header (take header_size ?seg)"
  have "\<not> header_valid sample_config ?h \<and> sint (json_length ?h) + sint (post_length ?h) < 2 ^ 63 \<and> header_size \<le> length ?seg"
    by code_simp
  moreover have "incoming ?c = [?seg]" "room ?c = [Some 10]" "sent ?c = []" "drop header_size ?seg = ''x''"
    by (simp_all add: new_connection_def header_size_def)
  ultimately show "\<exists>c'. turn sample_config ?srv 0 ?c [] = ((Hang_up, c'), []) \<and>
      sent c' = take 10 (message (- 1) header_refusal) \<and> concat (incoming c') = ''x''"
    using request_refused[of ?c ?seg "[]" ?h sample_config ?srv 0 "[]" 10 "[]"] by auto
qed

text \<open>
  The answer can be cut short without anyone noticing: when the socket takes only part of a
  message, \<^verbatim>\<open>do_write\<close> reports success and the rest is never sent.
\<close>

theorem short_write:
  assumes "room c = Some n # r" and "0 < n" and "n < header_size + length buf"
  shows "\<exists>c'. do_write h buf c = (True, c') \<and> sent c' = sent c @ take n (header_bytes h @ buf) \<and>
    take n (header_bytes h @ buf) \<noteq> header_bytes h @ buf"
proof -
  have "length (header_bytes h @ buf) = header_size + length buf" by simp
  then have "take n (header_bytes h @ buf) \<noteq> header_bytes h @ buf"
    using assms(3) by (metis leD take_all_iff)
  then show ?thesis using assms by (simp add: do_write_def write_some_def)
qed

lemma short_write_witness:
  "\<exists>c'. do_write (request_header 21 2) ''{}'' (new_connection [] [Some 5] []) = (True, c') \<and> length (sent c') = 5"
  using short_write[of "new_connection [] [Some 5] []" 5 "[]" "''{}''" "request_header 21 2"]
  by (auto simp: new_connection_def header_size_def)

end
