(* ===== verification/Transports.thy ===== *)
theory Transports
  imports Http Tcp_Correct
begin

text \<open>
  What the HTTP interface guarantees over the model in \<^verbatim>\<open>Http\<close>, and that the two transports
  answer the same task alike.
\<close>

section \<open>The suffix test of the Swagger routes\<close>

lemma occurs_at_end: "occurs_at s t i \<Longrightarrow> i \<le> length t - length s \<and> length s \<le> length t"
  by (auto simp: occurs_at_def)

lemma rfind_none: "(\<And>i. \<not> occurs_at s t i) \<Longrightarrow> rfind s t = - 1"
  by (simp add: rfind_def)

lemma rfind_max:
  assumes "occurs_at s t i" and "\<And>j. occurs_at s t j \<Longrightarrow> j \<le> i"
  shows "rfind s t = word_of_nat i"
proof -
  have i: "i \<le> length t" using occurs_at_end[OF assms(1)] by linarith
  have "[0..<Suc (length t)] = [0..<i] @ i # [Suc i..<Suc (length t)]"
    using i upt_add_eq_append[of 0 i "Suc (length t) - i"] upt_conv_Cons[of i "Suc (length t)"] by simp
  moreover have "filter (occurs_at s t) [Suc i..<Suc (length t)] = []"
    using assms(2) by (force simp: filter_empty_conv)
  ultimately show ?thesis using assms(1) by (simp add: rfind_def)
qed

lemma len64: "LENGTH(64) = 64"
  by simp

lemma rfind_suffix:
  assumes "length url < 2 ^ 64" and "0 < length s" and "length s < 2 ^ 63"
  shows "rfind s url = word_of_nat (length url) - word_of_nat (length s) \<longleftrightarrow>
    (\<exists>p. url = p @ s) \<or> Suc (length url) = length s"
proof (cases "\<exists>i. occurs_at s url i")
  case False
  have "\<not> (\<exists>p. url = p @ s)"
    using False by (auto simp: occurs_at_def)
  moreover have "(- 1 :: 64 word) = word_of_nat (length url) - word_of_nat (length s) \<longleftrightarrow> Suc (length url) = length s"
  proof -
    have "(- 1 :: 64 word) = word_of_nat (length url) - word_of_nat (length s) \<longleftrightarrow>
        word_of_nat (length s) = (word_of_nat (Suc (length url)) :: 64 word)"
      by (auto simp: algebra_simps)
    also have "\<dots> \<longleftrightarrow> length s mod 2 ^ 64 = Suc (length url) mod 2 ^ 64"
      by (simp only: word_of_nat_eq_iff take_bit_eq_mod len64)
    also have "\<dots> \<longleftrightarrow> Suc (length url) = length s"
    proof (cases "Suc (length url) = 2 ^ 64")
      case True
      then show ?thesis using assms(2,3) by simp
    next
      case False
      then show ?thesis using assms by auto
    qed
    finally show ?thesis .
  qed
  ultimately show ?thesis using rfind_none[of s url] False by simp
next
  case True
  then obtain i where i: "occurs_at s url i" "\<And>j. occurs_at s url j \<Longrightarrow> j \<le> i"
    using Max_in[of "{i. occurs_at s url i}"] Max_ge[of "{i. occurs_at s url i}"] occurs_at_end[of s url]
    by (metis (no_types, lifting) GreatestI_nat Greatest_le_nat)
  have len: "i + length s \<le> length url" using i(1) by (simp add: occurs_at_def)
  have "word_of_nat i = (word_of_nat (length url) - word_of_nat (length s) :: 64 word) \<longleftrightarrow>
      word_of_nat (i + length s) = (word_of_nat (length url) :: 64 word)"
    by (auto simp: algebra_simps)
  also have "\<dots> \<longleftrightarrow> i + length s = length url"
    using len assms(1) by (simp only: word_of_nat_eq_iff take_bit_eq_mod len64) simp
  also have "\<dots> \<longleftrightarrow> (\<exists>p. url = p @ s)"
  proof
    assume "i + length s = length url"
    then show "\<exists>p. url = p @ s" using i(1) by (metis append_take_drop_id occurs_at_def take_all length_drop diff_add_inverse le_refl)
  next
    assume "\<exists>p. url = p @ s"
    then have "occurs_at s url (length url - length s)" by (auto simp: occurs_at_def)
    from i(2)[OF this] show "i + length s = length url" using len by simp
  qed
  finally show ?thesis using rfind_max[OF i] len assms(2) by auto
qed

section \<open>One task, two transports\<close>

lemma match_session_path:
  assumes "m \<noteq> []" and "CHR ''/'' \<notin> set m" and "v \<noteq> []" and "CHR ''/'' \<notin> set v"
  shows "match_session (''/api/sessions/'' @ m @ ''/'' @ v) = Some (m, v)"
proof -
  have "takeWhile (\<lambda>c. c \<noteq> CHR ''/'') (m @ CHR ''/'' # v) = m" "dropWhile (\<lambda>c. c \<noteq> CHR ''/'') (m @ CHR ''/'' # v) = CHR ''/'' # v"
    using assms(2) by (induction m) auto
  then show ?thesis using assms by (simp add: match_session_def Let_def)
qed

lemma error_texts_agree:
  assumes "error_response req e = Inr resp" and "room c = Some n # r" and "header_size + length (payload resp) \<le> n"
  shows "\<exists>c'. report e c = (Go_on, c') \<and> sent c' = sent c @ message (- 1) (payload resp) \<and> status resp \<noteq> 200"
proof -
  let ?t = "case e of Orts_exception k _ \<Rightarrow> exception_type k | _ \<Rightarrow> ''runtime_error''"
  have s: "is_std_exception e" using assms(1) by (auto simp: error_response_def split: if_splits)
  have w: "what_to_json ?t (what e) = Inr (payload resp)" "status resp \<noteq> 200"
    using assms(1) s
    by (auto simp: error_response_def simple_response_def status_code_def andThen_eq_Inr split: error.splits exception_kind.splits)
  have "send_error ?t (what e) c = Inr (c\<lparr>room := r, sent := sent c @ message (- 1) (payload resp)\<rparr>)"
    using w(1) assms(2,3)
    by (simp add: send_error_def do_write_def write_some_def response_message message_def[symmetric] length_message header_size_def)
  then show ?thesis using s w(2) by (simp add: report_def)
qed

section \<open>Properties\<close>

text \<open>
  C8. The two transports agree. When a TCP message and an HTTP request stand for the same task, in
  the same state of the server, they leave the same registry and carry the same JSON back, the
  result with status 200 under the type of the message, and the error with an error
  status under the type -1.
\<close>

theorem transports_agree:
  assumes "request_task (asserts_off srv) h c = Inr t"
    and "route (http_swagger web) (http_asserts_off web) (runtime_version web) req = Run (Inr t)"
    and "runtime srv (files c) = http_runtime web" and "getter srv = http_getter web" and "now srv k = http_now web k"
    and "handle_request web k req ss = (Inr resp, ss')"
    and "room c = Some n # r" and "header_size + length (payload resp) \<le> n"
  shows "\<exists>c'. serve srv k h c ss = ((Go_on, c'), ss') \<and>
    sent c' = sent c @ message (if status resp = 200 then htype h else - 1) (payload resp)"
proof -
  obtain res ss1 where run: "run_task (http_runtime web) (http_getter web) (http_now web k) t ss = (res, ss1)"
    by (metis prod.exhaust)
  have ss1: "ss1 = ss'" using assms(2,6) run by (simp add: handle_request_def)
  show ?thesis
  proof (cases "andThen res (dump float_chars)")
    case (Inl e)
    then have e: "error_response req e = Inr resp" using assms(2,6) run by (simp add: handle_request_def)
    obtain c' where c': "report e c = (Go_on, c')" "sent c' = sent c @ message (- 1) (payload resp)" "status resp \<noteq> 200"
      using error_texts_agree[OF e assms(7,8)] by blast
    have "serve srv k h c ss = (report e c, ss')"
      using assms(1,3,4,5) run Inl ss1 by (simp add: serve_def)
    then show ?thesis using c' by simp
  next
    case (Inr answer)
    then have r: "resp = simple_response req 200 CONTENT_TYPE_JSON answer"
      using assms(2,6) run by (simp add: handle_request_def)
    have "serve srv k h c ss = ((Go_on, c\<lparr>room := r, sent := sent c @ message (htype h) answer\<rparr>), ss')"
      using assms(1,3,4,5,7,8) run Inr ss1 r
      by (simp add: serve_def do_write_def write_some_def response_message message_def[symmetric] length_message
        header_size_def simple_response_def)
    then show ?thesis using r by (simp add: simple_response_def)
  qed
qed

lemma transports_agree_witness:
  "\<exists>c'. serve \<lparr>runtime = (\<lambda>_. demo_ort), getter = demo_getter, asserts_off = True, now = int\<rparr> 0 (request_header 21 2)
       ((new_connection [] [Some 28] [])\<lparr>buffer := ''{}''\<rparr>) [] = ((Go_on, c'), []) \<and> sent c' = message 21 ''[]''"
proof -
  let ?srv = "\<lparr>runtime = (\<lambda>_. demo_ort), getter = demo_getter, asserts_off = True, now = int\<rparr>"
  let ?c = "(new_connection [] [Some 28] [])\<lparr>buffer := ''{}''\<rparr>"
  let ?web = "\<lparr>http_runtime = demo_ort, http_getter = demo_getter, http_asserts_off = True, http_now = int,
    http_swagger = \<lparr>swagger_url_path = [], openapi_yaml = [], index_html = []\<rparr>, runtime_version = ''1''\<rparr>"
  let ?req = "\<lparr>req_verb = Get, target = ''/api/sessions'', req_body = [], http_version = 11, keep_alive = True\<rparr>"
  have r: "route (http_swagger ?web) True (runtime_version ?web) ?req = Run (Inr List_session)"
    by (simp add: route_def match_session_def)
  have p: "parse_request_json ''{}'' = Inr (JObject [])"
    using parse_request_dump[of "JObject []" "\<lambda>_. []" "''{}''"] by simp
  have "sint (json_length (request_header 21 2)) = 2" "sint (htype (request_header 21 2)) = 21"
    using request_header_valid[of 2 sample_config 21] by (simp_all add: sample_config_def)
  then have t: "request_task True (request_header 21 2) ?c = Inr List_session"
    using p by (simp add: request_task_def new_connection_def create_task_def EXECUTE_SESSION_def GET_SESSION_def
      CREATE_SESSION_def DESTROY_SESSION_def LIST_SESSION_def)
  have h: "handle_request ?web 0 ?req [] = (Inr (simple_response ?req 200 CONTENT_TYPE_JSON ''[]''), [])"
    using r by (simp add: handle_request_def)
  have "\<exists>c'. serve ?srv 0 (request_header 21 2) ?c [] = ((Go_on, c'), []) \<and>
      sent c' = sent ?c @ message (if status (simple_response ?req 200 CONTENT_TYPE_JSON ''[]'') = 200
        then htype (request_header 21 2) else - 1) (payload (simple_response ?req 200 CONTENT_TYPE_JSON ''[]''))"
    by (rule transports_agree[where n = 28 and r = "[]", OF _ _ _ _ _ h]) (use r t in \<open>simp_all add: new_connection_def simple_response_def header_size_def\<close>)
  then show ?thesis by (simp add: new_connection_def simple_response_def request_header_def)
qed

text \<open>The responses of a session resource, as the interface promises them.\<close>

definition answers :: "http_response result \<Rightarrow> nat \<Rightarrow> string \<Rightarrow> bool" where
  "answers resp code body \<longleftrightarrow>
     (\<exists>r. resp = Inr r \<and> status r = code \<and> content_type r = ''application/json'' \<and> payload r = body)"

definition refuses :: "http_response result \<Rightarrow> nat \<Rightarrow> string \<Rightarrow> string \<Rightarrow> bool" where
  "refuses resp code class text \<longleftrightarrow> (\<exists>body. what_to_json class text = Inr body \<and> answers resp code body)"

lemma fixed_error_texts:
  "\<exists>t. what_to_json ''not_found_error'' ''session not found'' = Inr t"
  "\<exists>t. what_to_json ''conflict_error'' ''session already exists'' = Inr t"
proof -
  have "case what_to_json ''not_found_error'' ''session not found'' of Inl _ \<Rightarrow> False | Inr _ \<Rightarrow> True"
    "case what_to_json ''conflict_error'' ''session already exists'' of Inl _ \<Rightarrow> False | Inr _ \<Rightarrow> True"
    by code_simp+
  then show "\<exists>t. what_to_json ''not_found_error'' ''session not found'' = Inr t"
    "\<exists>t. what_to_json ''conflict_error'' ''session already exists'' = Inr t" by (auto split: sum.splits)
qed

lemma session_route:
  assumes "key_valid (Session_key m v)" and "CHR ''/'' \<notin> set v" and "target req = ''/api/sessions/'' @ m @ ''/'' @ v"
  shows "req_verb req = Post \<Longrightarrow>
      route sw nd ver req = Run (andThen (parse_request_json (req_body req)) (\<lambda>j. Inr (Execute_session m v j)))"
    and "req_verb req = Get \<Longrightarrow> route sw nd ver req = Run (Inr (Get_session m v))"
    and "req_verb req = Delete \<Longrightarrow> route sw nd ver req = Run (Inr (Destroy_session m v))"
proof -
  have "m \<noteq> []" "v \<noteq> []" "CHR ''/'' \<notin> set m"
    using assms(1) valid_name_no_slash by (auto simp: key_valid_def is_valid_model_name_def is_valid_model_version_def)
  then have "match_session (target req) = Some (m, v)" using match_session_path[of m v] assms(2,3) by simp
  then show "req_verb req = Post \<Longrightarrow>
      route sw nd ver req = Run (andThen (parse_request_json (req_body req)) (\<lambda>j. Inr (Execute_session m v j)))"
    "req_verb req = Get \<Longrightarrow> route sw nd ver req = Run (Inr (Get_session m v))"
    "req_verb req = Delete \<Longrightarrow> route sw nd ver req = Run (Inr (Destroy_session m v))"
    by (simp_all add: route_def)
qed

lemma handle_task:
  assumes "manager_ok ss" and "key_valid (Session_key m v)" and "task_names t = Some (m, v)"
    and "route (http_swagger web) (http_asserts_off web) (runtime_version web) req = Run (Inr t)"
    and "task_effect (http_runtime web) (http_getter web) (http_now web k) t (map_of ss (Session_key m v)) = (res, s')"
  shows "handle_request web k req ss =
    (case andThen res (dump float_chars) of
       Inl e \<Rightarrow> error_response req e
     | Inr body \<Rightarrow> Inr (simple_response req 200 CONTENT_TYPE_JSON body), om_set (Session_key m v) s' ss)"
  using assms(4,5) run_task_effect[OF assms(1,3,2), of "http_runtime web" "http_getter web" "http_now web k"]
  by (simp add: handle_request_def)

lemma answers_ok: "answers (Inr (simple_response req 200 CONTENT_TYPE_JSON text)) 200 text"
  by (simp add: answers_def simple_response_def CONTENT_TYPE_JSON_def)

lemma error_refuses:
  assumes "error_response req e = Inr r"
  shows "refuses (Inr r)
    (case e of Orts_exception not_found_error _ \<Rightarrow> 404 | Orts_exception bad_request_error _ \<Rightarrow> 400
       | Orts_exception conflict_error _ \<Rightarrow> 409 | _ \<Rightarrow> 500) (error_class e) (what e)"
  using assms
  by (auto simp: refuses_def answers_def error_response_def error_class_def simple_response_def status_code_def
      exception_type_def CONTENT_TYPE_JSON_def andThen_eq_Inr split: error.splits exception_kind.splits if_splits)

lemma error_response_ok: "is_std_exception e \<Longrightarrow> what_to_json (error_class e) (what e) = Inr t \<Longrightarrow> \<exists>r. error_response req e = Inr r"
  by (auto simp: error_response_def error_class_def exception_type_def split: error.splits exception_kind.splits)

lemma not_found_refused: "refuses (error_response req session_not_found) 404 ''not_found_error'' ''session not found''"
  using error_response_ok[of session_not_found _ req] fixed_error_texts(1) error_refuses[of req session_not_found]
  by (auto simp: session_not_found_def error_class_def)

lemma conflict_refused:
  "refuses (error_response req (Orts_exception conflict_error w)) 409 ''conflict_error'' w"
  if "w = ''session already exists''"
  using error_response_ok[of "Orts_exception conflict_error w" _ req] fixed_error_texts(2) that
    error_refuses[of req "Orts_exception conflict_error w"]
  by (auto simp: error_class_def)



text \<open>
  The OpenAPI document is served for every target under the Swagger path that ends in
  \<^verbatim>\<open>/openapi.yaml\<close>, and for every target of exactly 12 characters: there the length minus 13 wraps
  to the value with which \<^verbatim>\<open>rfind\<close> reports that nothing was found.
\<close>

theorem swagger_document:
  assumes "length (target req) < 2 ^ 64"
  shows "content_type (swagger_response sw req) = ''text/yaml'' \<longleftrightarrow>
    (\<exists>p. target req = p @ ''/openapi.yaml'') \<or> length (target req) = 12"
proof -
  have len: "length ''/openapi.yaml'' = 13" by simp
  have "rfind ''/openapi.yaml'' (target req) = word_of_nat (length (target req)) - 13 \<longleftrightarrow>
      (\<exists>p. target req = p @ ''/openapi.yaml'') \<or> length (target req) = 12"
    using rfind_suffix[OF assms, of "''/openapi.yaml''"] unfolding len by simp
  then show ?thesis by (simp add: swagger_response_def simple_response_def Let_def)
qed

lemma swagger_document_witness:
  "content_type (swagger_response \<lparr>swagger_url_path = ''/api-docs'', openapi_yaml = ''y'', index_html = ''h''\<rparr>
     \<lparr>req_verb = Get, target = ''/api-docs/xy'', req_body = [], http_version = 11, keep_alive = True\<rparr>) = ''text/yaml''"
  using swagger_document[of "\<lparr>req_verb = Get, target = ''/api-docs/xy'', req_body = [], http_version = 11, keep_alive = True\<rparr>"]
  by simp

end
