(* ===== verification/Standalone.thy ===== *)
theory Standalone
  imports Task Session_Key_Option
begin

text \<open>
  The server program (\<^verbatim>\<open>src/src/standalone/\<close>): its configuration from environment and command
  line, the checks on it, where a model file is looked for, and the models loaded at start.
  Boost.Program_options is used through its documented behaviour: parsing the command line, and
  the conversion of a text to a number, are parameters; \<^verbatim>\<open>store\<close> never changes an option that an
  earlier \<^verbatim>\<open>store\<close> has set explicitly.
\<close>

section \<open>The configuration\<close>

record config =
  use_tcp :: bool
  tcp_port :: int
  use_http :: bool
  http_port :: int
  use_https :: bool
  https_port :: int
  https_cert :: string
  https_key :: string
  cfg_swagger_url_path :: string
  log_level :: string
  log_file :: string
  access_log_file :: string
  num_threads :: int
  model_dir :: string
  prepare_model :: string
  cfg_request_payload_limit :: int
  cfg_model_upload_limit :: int
  cfg_model_upload_dir :: string

definition default_config :: config where
  "default_config = \<lparr>use_tcp = False, tcp_port = 0, use_http = False, http_port = 80, use_https = False, https_port = 443,
     https_cert = [], https_key = [], cfg_swagger_url_path = [], log_level = [], log_file = [], access_log_file = [],
     num_threads = 4, model_dir = [], prepare_model = [], cfg_request_payload_limit = 1024 * 1024 * 10,
     cfg_model_upload_limit = 1024 * 1024 * 1024 * 2, cfg_model_upload_dir = []\<rparr>"

section \<open>Options\<close>

datatype option_type = Flag | Text | Long | Short | Long_long

definition known_options :: "(string \<times> option_type) list" where
  "known_options =
     [(''help'', Flag), (''workers'', Long), (''request-payload-limit'', Long), (''model-upload-limit'', Long_long),
      (''model-upload-dir'', Text), (''model-dir'', Text), (''prepare-model'', Text), (''tcp-port'', Short),
      (''http-port'', Short), (''https-port'', Short), (''https-cert'', Text), (''https-key'', Text),
      (''swagger-url-path'', Text), (''log-level'', Text), (''log-file'', Text), (''access-log-file'', Text)]"

text \<open>The defaults, used where neither source gives the option.\<close>

definition default_values :: "(string \<times> string) list" where
  "default_values =
     [(''workers'', ''4''), (''request-payload-limit'', ''10485760''), (''model-upload-limit'', ''2147483648''),
      (''model-upload-dir'', []), (''model-dir'', ''models''), (''log-level'', ''info''), (''log-file'', []),
      (''access-log-file'', [])]"

definition to_lower :: "char \<Rightarrow> char" where
  "to_lower c = (let n = (of_char c :: nat) in if 65 \<le> n \<and> n \<le> 90 then char_of (n + 32) else c)"

definition name_mapper :: "string \<Rightarrow> string" where
  "name_mapper name =
     (if length name \<le> 12 \<or> take 12 name \<noteq> ''ONNX_SERVER_'' then []
      else let slice = map (\<lambda>c. if to_lower c = CHR ''_'' then CHR ''-'' else to_lower c) (drop 12 name)
           in if map_of known_options slice = None then [] else slice)"

definition parse_environment :: "(string \<times> string) list \<Rightarrow> (string \<times> string) list" where
  "parse_environment env = filter (\<lambda>kv. fst kv \<noteq> []) (map (\<lambda>(n, v). (name_mapper n, v)) env)"

text \<open>What reads a number of each width from a text.\<close>

record lexical =
  to_long :: "string \<Rightarrow> int option"
  to_short :: "string \<Rightarrow> int option"
  to_long_long :: "string \<Rightarrow> int option"

fun value_ok :: "lexical \<Rightarrow> option_type \<Rightarrow> string \<Rightarrow> bool" where
  "value_ok lx Long v = (to_long lx v \<noteq> None)"
| "value_ok lx Short v = (to_short lx v \<noteq> None)"
| "value_ok lx Long_long v = (to_long_long lx v \<noteq> None)"
| "value_ok lx _ v = True"

text \<open>\<^verbatim>\<open>po::store\<close>: options set before stay; a repeated or malformed new one is an error.\<close>

definition store_options :: "lexical \<Rightarrow> (string \<times> string) list \<Rightarrow> (string \<times> string) list \<Rightarrow>
    (string \<times> string) list option" where
  "store_options lx given vm =
     (let new = filter (\<lambda>kv. map_of vm (fst kv) = None) given
      in if distinct (map fst new) \<and>
            list_all (\<lambda>kv. case map_of known_options (fst kv) of Some t \<Rightarrow> value_ok lx t (snd kv) | None \<Rightarrow> False) new
         then Some (vm @ new) else None)"

definition env_first :: "(string \<times> string) list \<Rightarrow> bool" where
  "env_first env =
     (let config_prio = (case map_of env ''ONNX_SERVER_CONFIG_PRIORITY'' of Some v \<Rightarrow> v | None \<Rightarrow> [])
      in length config_prio > 3 \<and> take 3 config_prio = ''env'')"

definition collect_options :: "lexical \<Rightarrow> (string \<times> string) list \<Rightarrow> (string \<times> string) list \<Rightarrow>
    (string \<times> string) list option" where
  "collect_options lx env cmd =
     (case (if env_first env
            then case store_options lx cmd [] of None \<Rightarrow> None | Some vm \<Rightarrow> store_options lx (parse_environment env) vm
            else case store_options lx (parse_environment env) [] of None \<Rightarrow> None | Some vm \<Rightarrow> store_options lx cmd vm) of
        None \<Rightarrow> None
      | Some vm \<Rightarrow> Some (vm @ filter (\<lambda>kv. map_of vm (fst kv) = None) default_values))"

section \<open>From options to the configuration\<close>

definition text_option :: "(string \<times> string) list \<Rightarrow> string \<Rightarrow> string \<Rightarrow> string" where
  "text_option vm k dflt = (case map_of vm k of Some v \<Rightarrow> v | None \<Rightarrow> dflt)"

definition number_option :: "(string \<Rightarrow> int option) \<Rightarrow> (string \<times> string) list \<Rightarrow> string \<Rightarrow> int \<Rightarrow> int" where
  "number_option conv vm k dflt = (case map_of vm k of Some v \<Rightarrow> (case conv v of Some i \<Rightarrow> i | None \<Rightarrow> dflt) | None \<Rightarrow> dflt)"

definition given :: "(string \<times> string) list \<Rightarrow> string \<Rightarrow> bool" where
  "given vm k \<longleftrightarrow> map_of vm k \<noteq> None"

definition config_of :: "lexical \<Rightarrow> (string \<times> string) list \<Rightarrow> config" where
  "config_of lx vm =
     (let d = default_config
      in \<lparr>use_tcp = given vm ''tcp-port'', tcp_port = number_option (to_short lx) vm ''tcp-port'' (tcp_port d),
          use_http = given vm ''http-port'', http_port = number_option (to_short lx) vm ''http-port'' (http_port d),
          use_https = given vm ''https-port'', https_port = number_option (to_short lx) vm ''https-port'' (https_port d),
          https_cert = text_option vm ''https-cert'' (https_cert d), https_key = text_option vm ''https-key'' (https_key d),
          cfg_swagger_url_path = text_option vm ''swagger-url-path'' (cfg_swagger_url_path d),
          log_level = text_option vm ''log-level'' (log_level d), log_file = text_option vm ''log-file'' (log_file d),
          access_log_file = text_option vm ''access-log-file'' (access_log_file d),
          num_threads = number_option (to_long lx) vm ''workers'' (num_threads d),
          model_dir = text_option vm ''model-dir'' ''models'',
          prepare_model = text_option vm ''prepare-model'' (prepare_model d),
          cfg_request_payload_limit = number_option (to_long lx) vm ''request-payload-limit'' (cfg_request_payload_limit d),
          cfg_model_upload_limit = number_option (to_long_long lx) vm ''model-upload-limit'' (cfg_model_upload_limit d),
          cfg_model_upload_dir = text_option vm ''model-upload-dir'' (cfg_model_upload_dir d)\<rparr>)"

text \<open>The texts that \<^verbatim>\<open>print_config\<close> serializes; a text that is not UTF-8 makes it throw.\<close>

definition printed_texts :: "config \<Rightarrow> string list" where
  "printed_texts cfg =
     [model_dir cfg] @ (if use_https cfg then [https_cert cfg, https_key cfg] else []) @
     (if use_http cfg \<or> use_https cfg then [cfg_swagger_url_path cfg] else []) @
     [log_level cfg, log_file cfg, access_log_file cfg]"

definition print_config :: "config \<Rightarrow> unit result" where
  "print_config cfg = foldR (\<lambda>s _. andThen (dump_string s) (\<lambda>_. Inr ())) (printed_texts cfg) ()"

definition starts_with :: "string \<Rightarrow> string \<Rightarrow> bool" where
  "starts_with s p \<longleftrightarrow> length s \<ge> length p \<and> take (length p) s = p"

text \<open>The checks, in their order; \<open>ssl\<close> says whether OpenSSL is built in.\<close>

definition check_config :: "bool \<Rightarrow> (string \<Rightarrow> bool) \<Rightarrow> config \<Rightarrow> unit result" where
  "check_config ssl exists cfg =
     (if use_https cfg \<and> https_cert cfg = [] then Inl (Std_exception ''SSL Certification file path is not specified.'')
      else if use_https cfg \<and> https_key cfg = [] then Inl (Std_exception ''SSL Private key file path is not specified.'')
      else if starts_with (cfg_swagger_url_path cfg) ''/api/'' \<or> starts_with (cfg_swagger_url_path cfg) ''/health''
      then Inl (Std_exception ''Swagger URL path cannot start with \"/api\" and \"/health\"'')
      else andThen (print_config cfg) (\<lambda>_.
        if \<not> exists (model_dir cfg) then Inl (Std_exception (''Model directory does not exist: '' @ model_dir cfg))
        else if \<not> use_tcp cfg \<and> \<not> use_http cfg \<and> \<not> (ssl \<and> use_https cfg)
        then Inl (Std_exception ''No backend(TCP, HTTP, HTTPS) is enabled'')
        else Inr ()))"

text \<open>\<^verbatim>\<open>init_config\<close>: the exit code, or the configuration. \<open>cmd\<close> is the parsed command line, if it parses.\<close>

definition init_config :: "lexical \<Rightarrow> bool \<Rightarrow> (string \<Rightarrow> bool) \<Rightarrow> (string \<times> string) list \<Rightarrow> (string \<times> string) list option \<Rightarrow>
    int + config" where
  "init_config lx ssl exists env cmd =
     (case cmd of None \<Rightarrow> Inl 1
      | Some c \<Rightarrow>
          (case collect_options lx env c of None \<Rightarrow> Inl 1
           | Some vm \<Rightarrow>
               if given vm ''help'' then Inl 1
               else let cfg = config_of lx vm
                    in (case check_config ssl exists cfg of Inl e \<Rightarrow> Inl 1 | Inr u \<Rightarrow> Inr cfg)))"

section \<open>Models at start\<close>

text \<open>Where a model is looked for; joining paths is Boost.Filesystem's, the files are given by their contents.\<close>

definition get_model_bin :: "(string \<Rightarrow> string \<Rightarrow> string) \<Rightarrow> (string \<Rightarrow> string option) \<Rightarrow> string \<Rightarrow> string \<Rightarrow> string \<Rightarrow>
    string result" where
  "get_model_bin append_path file model_root name version =
     (let dir = append_path (append_path model_root name) version
      in case file (append_path dir ''model.onnx'') of
           Some bin \<Rightarrow> Inr bin
         | None \<Rightarrow>
             (case file (dir @ ''.onnx'') of
                Some bin \<Rightarrow> Inr bin
              | None \<Rightarrow> Inl (Std_exception (''Model file not found: '' @ dir @ ''.onnx''))))"

definition prepare_models :: "('so, 'c, 'm, 'v) ort \<Rightarrow> model_bin_getter \<Rightarrow> int \<Rightarrow> config \<Rightarrow> 'm sessions \<Rightarrow> 'm sessions result" where
  "prepare_models ort getter time cfg ss =
     andThen (parse_model_keys (prepare_model cfg)) (\<lambda>keys.
       foldR (\<lambda>k ss. andThen (create_session ort getter time (model_name (skey k)) (model_version (skey k)) (soption k) None ss)
                      (\<lambda>(_, ss'). Inr ss')) keys ss)"

text \<open>\<^verbatim>\<open>main\<close> up to the loop: the exit code, or the configuration and the registry the servers start with.\<close>

definition start_server :: "lexical \<Rightarrow> bool \<Rightarrow> (string \<Rightarrow> bool) \<Rightarrow> (string \<Rightarrow> string \<Rightarrow> string) \<Rightarrow> (string \<Rightarrow> string option) \<Rightarrow>
    ('so, 'c, 'm, 'v) ort \<Rightarrow> int \<Rightarrow> (string \<times> string) list \<Rightarrow> (string \<times> string) list option \<Rightarrow> int + config \<times> 'm sessions" where
  "start_server lx ssl exists append_path file ort time env cmd =
     (case init_config lx ssl exists env cmd of
        Inl code \<Rightarrow> Inl code
      | Inr cfg \<Rightarrow>
          (case prepare_models ort (get_model_bin append_path file (model_dir cfg)) time cfg [] of
             Inl e \<Rightarrow> Inl 1
           | Inr ss \<Rightarrow> Inr (cfg, ss)))"

section \<open>Properties\<close>

lemma store_first: "store_options lx opts [] = Some vm \<Longrightarrow> vm = opts"
  by (auto simp: store_options_def Let_def split: if_splits)

lemma store_keeps: "store_options lx opts vm = Some vm' \<Longrightarrow> map_of vm k = Some v \<Longrightarrow> map_of vm' k = Some v"
  by (auto simp: store_options_def Let_def map_add_Some_iff split: if_splits)

lemma store_value:
  "store_options lx opts vm = Some vm' \<Longrightarrow>
   map_of vm' k = (case map_of vm k of Some v \<Rightarrow> Some v | None \<Rightarrow> map_of opts k)"
proof -
  have new: "map_of (filter (\<lambda>kv. map_of vm (fst kv) = None) opts) k = (if map_of vm k = None then map_of opts k else None)" for opts
    by (induction opts) auto
  show "store_options lx opts vm = Some vm' \<Longrightarrow> ?thesis"
    by (auto simp: store_options_def Let_def map_add_def new split: if_splits option.split)
qed

lemma store_checked:
  "store_options lx opts vm = Some vm' \<Longrightarrow> (k, v) \<in> set vm' \<Longrightarrow>
   (k, v) \<in> set vm \<or> (\<exists>t. map_of known_options k = Some t \<and> value_ok lx t v)"
  by (fastforce simp: store_options_def Let_def list_all_iff split: if_splits option.splits)


definition decimal_lexical :: lexical where
  "decimal_lexical = \<lparr>to_long = (\<lambda>s. Some (digits_value s)), to_short = (\<lambda>s. Some (digits_value s)),
     to_long_long = (\<lambda>s. Some (digits_value s))\<rparr>"


text \<open>
  Which of two values is taken is not what the documentation says (\<^verbatim>\<open>README.md\<close>, and the comments on the
  two branches): the environment has priority over the command line, unless the priority variable
  starts with \<^verbatim>\<open>env\<close> and is longer, since the first call of \<^verbatim>\<open>store\<close> wins.
\<close>

theorem option_priority:
  assumes "collect_options lx env cmd = Some vm"
    and "map_of cmd k = Some c" and "map_of (parse_environment env) k = Some e"
  shows "map_of vm k = Some (if env_first env then c else e)"
proof -
  obtain vm1 vm2 where v: "store_options lx (if env_first env then cmd else parse_environment env) [] = Some vm1"
    "store_options lx (if env_first env then parse_environment env else cmd) vm1 = Some vm2"
    "vm = vm2 @ filter (\<lambda>kv. map_of vm2 (fst kv) = None) default_values"
    using assms(1) by (auto simp: collect_options_def split: option.splits if_splits)
  have "map_of vm1 k = Some (if env_first env then c else e)"
    using store_first[OF v(1)] assms(2,3) by simp
  from store_keeps[OF v(2) this] show ?thesis using v(3) by simp
qed

lemma option_priority_witness:
  "\<exists>vm. collect_options decimal_lexical [(''ONNX_SERVER_HTTP_PORT'', ''8080'')] [(''http-port'', ''9090'')] = Some vm \<and>
     map_of vm ''http-port'' = Some ''8080''"
proof -
  let ?env = "[(''ONNX_SERVER_HTTP_PORT'', ''8080'')]" and ?cmd = "[(''http-port'', ''9090'')]"
  have e: "parse_environment ?env = [(''http-port'', ''8080'')]" by code_simp
  obtain vm where vm: "collect_options decimal_lexical ?env ?cmd = Some vm"
    by (simp add: collect_options_def e store_options_def env_first_def known_options_def decimal_lexical_def)
  have "map_of vm ''http-port'' = Some (if env_first ?env then ''9090'' else ''8080'')"
    by (rule option_priority[OF vm]) (simp_all add: e)
  then show ?thesis using vm by (simp add: env_first_def)
qed

lemma check_config_ok:
  "check_config ssl exists cfg = Inr u \<Longrightarrow>
   exists (model_dir cfg) \<and> (use_tcp cfg \<or> use_http cfg \<or> ssl \<and> use_https cfg) \<and>
   (use_https cfg \<longrightarrow> https_cert cfg \<noteq> [] \<and> https_key cfg \<noteq> []) \<and>
   \<not> starts_with (cfg_swagger_url_path cfg) ''/api/'' \<and> \<not> starts_with (cfg_swagger_url_path cfg) ''/health''"
  by (auto simp: check_config_def andThen_eq_Inr split: if_splits)

lemma create_session_adds:
  assumes "create_session ort getter time (model_name k) (model_version k) option d ss = Inr (s, ss')" and "manager_ok ss"
  shows "fst ` set ss' = insert k (fst ` set ss) \<and> k \<notin> fst ` set ss \<and> manager_ok ss'"
proof -
  have k: "make_session_key (model_name k) (model_version k) = Inr k"
    using assms(1) by (cases k) (auto simp: create_session_def make_session_key_def andThen_eq_Inr split: if_splits)
  have "ss' = om_put k s ss" "map_of ss k = None"
    using assms(1) k by (auto simp: create_session_def andThen_eq_Inr find_session_def split: if_splits)
  moreover have "manager_ok ss'"
    using run_task_ok[OF assms(2), of ort getter time "Create_session (model_name k) (model_version k) option d"] assms(1) by simp
  ultimately show ?thesis by (simp add: fst_om_put map_of_eq_None_iff)
qed

lemma prepare_all:
  "foldR (\<lambda>k ss. andThen (create_session ort getter time (model_name (skey k)) (model_version (skey k)) (soption k) None ss)
      (\<lambda>(_, ss'). Inr ss')) keys ss = Inr ss' \<Longrightarrow> manager_ok ss \<Longrightarrow>
   manager_ok ss' \<and> distinct (map skey keys) \<and> skey ` set keys \<inter> fst ` set ss = {} \<and>
   fst ` set ss' = skey ` set keys \<union> fst ` set ss"
proof (induction keys arbitrary: ss)
  case (Cons k keys)
  obtain s ss1 where c: "create_session ort getter time (model_name (skey k)) (model_version (skey k)) (soption k) None ss = Inr (s, ss1)"
    and r: "foldR (\<lambda>k ss. andThen (create_session ort getter time (model_name (skey k)) (model_version (skey k)) (soption k) None ss)
      (\<lambda>(_, ss'). Inr ss')) keys ss1 = Inr ss'"
    using Cons.prems(1) by (auto simp: andThen_eq_Inr)
  show ?case using Cons.IH[OF r] create_session_adds[OF c Cons.prems(2)] by auto
qed simp

text \<open>
  C23. What the program starts with. A configuration it accepts names an existing model directory,
  enables a transport, has certificate and key where HTTPS is on and no Swagger path over the
  API; and the registry the servers start with holds exactly the models of the list, each once.
\<close>

theorem started_server:
  assumes "start_server lx ssl exists append_path file ort time env cmd = Inr (cfg, ss)"
  shows "exists (model_dir cfg) \<and> (use_tcp cfg \<or> use_http cfg \<or> ssl \<and> use_https cfg) \<and>
    (use_https cfg \<longrightarrow> https_cert cfg \<noteq> [] \<and> https_key cfg \<noteq> []) \<and>
    \<not> starts_with (cfg_swagger_url_path cfg) ''/api/'' \<and> \<not> starts_with (cfg_swagger_url_path cfg) ''/health'' \<and>
    manager_ok ss \<and> (\<exists>keys. parse_model_keys (prepare_model cfg) = Inr keys \<and>
      distinct (map skey keys) \<and> fst ` set ss = skey ` set keys)"
proof -
  obtain u where "check_config ssl exists cfg = Inr u"
    using assms by (auto simp: start_server_def init_config_def Let_def split: sum.splits option.splits if_splits)
  moreover have "prepare_models ort (get_model_bin append_path file (model_dir cfg)) time cfg [] = Inr ss"
    using assms by (auto simp: start_server_def split: sum.splits)
  then obtain keys where "parse_model_keys (prepare_model cfg) = Inr keys"
    "foldR (\<lambda>k ss. andThen (create_session ort (get_model_bin append_path file (model_dir cfg)) time
        (model_name (skey k)) (model_version (skey k)) (soption k) None ss) (\<lambda>(_, ss'). Inr ss')) keys [] = Inr ss"
    by (auto simp: prepare_models_def andThen_eq_Inr)
  ultimately show ?thesis using check_config_ok prepare_all by fastforce
qed

lemma started_server_witness:
  "\<exists>cfg. start_server decimal_lexical True (\<lambda>_. True) (\<lambda>_ _. []) (\<lambda>_. Some ''bin'') demo_ort 5 []
       (Some [(''tcp-port'', ''80''), (''prepare-model'', ''m:1'')]) = Inr (cfg, demo_registry) \<and>
     (use_tcp cfg \<or> use_http cfg \<or> use_https cfg) \<and> manager_ok demo_registry"
proof -
  let ?opts = "[(''tcp-port'', ''80''), (''prepare-model'', ''m:1'')]"
  have k: "parse_model_keys ''m:1'' = Inr [\<lparr>skey = Session_key ''m'' ''1'', soption = JObject []\<rparr>]" by code_simp
  obtain vm where vm: "collect_options decimal_lexical [] ?opts = Some vm" and m: "map_of vm = map_of (?opts @ default_values)"
    by (simp add: collect_options_def parse_environment_def store_options_def env_first_def known_options_def
        decimal_lexical_def default_values_def)
  let ?cfg = "config_of decimal_lexical vm"
  have h: "\<not> given vm ''help''" "use_tcp ?cfg" "\<not> use_http ?cfg" "\<not> use_https ?cfg" "prepare_model ?cfg = ''m:1''"
      "cfg_swagger_url_path ?cfg = []" "model_dir ?cfg = ''models''" "log_level ?cfg = ''info''" "log_file ?cfg = []"
      "access_log_file ?cfg = []"
    by (simp_all add: m given_def config_of_def text_option_def default_values_def default_config_def Let_def)
  have d: "dump_string ''models'' = Inr [CHR 0x22, CHR ''m'', CHR ''o'', CHR ''d'', CHR ''e'', CHR ''l'', CHR ''s'', CHR 0x22]"
      "dump_string ''info'' = Inr [CHR 0x22, CHR ''i'', CHR ''n'', CHR ''f'', CHR ''o'', CHR 0x22]"
      "dump_string [] = Inr [CHR 0x22, CHR 0x22]"
    by code_simp+
  have c: "check_config True (\<lambda>_. True) ?cfg = Inr ()"
    using h by (simp add: check_config_def print_config_def printed_texts_def starts_with_def d)
  have "get_model_bin (\<lambda>_ _. []) (\<lambda>_. Some ''bin'') r = demo_getter" for r
    by (simp add: fun_eq_iff get_model_bin_def demo_getter_def)
  then have p: "prepare_models demo_ort (get_model_bin (\<lambda>_ _. []) (\<lambda>_. Some ''bin'') (model_dir ?cfg)) 5 ?cfg [] = Inr demo_registry"
    using demo_create h(5) k by (auto simp: prepare_models_def split: sum.splits)
  have s: "start_server decimal_lexical True (\<lambda>_. True) (\<lambda>_ _. []) (\<lambda>_. Some ''bin'') demo_ort 5 [] (Some ?opts) = Inr (?cfg, demo_registry)"
    using vm h(1) c p by (simp add: start_server_def init_config_def Let_def)
  from started_server[OF this] show ?thesis using s by blast
qed
end
