(* ===== verification/Transition_System.thy ===== *)
theory Transition_System
  imports Prelude
begin

text \<open>
  Labelled transition systems for the parts of the program that run over time: the thread pool
  and the connections. A step function says what an event does to a state, \<open>None\<close> where
  the event cannot happen; the locales hold the two arguments made about such systems,
  invariants and events that run out.
\<close>

type_synonym ('s, 'e) transition = "'s \<Rightarrow> 'e \<Rightarrow> 's option"

inductive runs :: "('s, 'e) transition \<Rightarrow> 's \<Rightarrow> 'e list \<Rightarrow> 's \<Rightarrow> bool" for step where
  runs_none: "runs step s [] s"
| runs_more: "runs step s tr s' \<Longrightarrow> step s' e = Some s'' \<Longrightarrow> runs step s (tr @ [e]) s''"

text \<open>Events one after the other, as a function, for concrete runs.\<close>

fun after :: "('s, 'e) transition \<Rightarrow> 'e list \<Rightarrow> 's \<Rightarrow> 's option" where
  "after step [] s = Some s"
| "after step (e # es) s = (case step s e of None \<Rightarrow> None | Some s' \<Rightarrow> after step es s')"

lemma after_append:
  "after step (es @ fs) s = (case after step es s of None \<Rightarrow> None | Some s' \<Rightarrow> after step fs s')"
  by (induction es arbitrary: s) (auto split: option.split)

lemma runs_after: "runs step s tr s' \<longleftrightarrow> after step tr s = Some s'"
proof
  show "runs step s tr s' \<Longrightarrow> after step tr s = Some s'"
    by (induction rule: runs.induct) (simp_all add: after_append)
  show "after step tr s = Some s' \<Longrightarrow> runs step s tr s'"
  proof (induction tr arbitrary: s' rule: rev_induct)
    case (snoc e tr)
    then show ?case by (auto simp: after_append split: option.splits intro: runs_more)
  qed (simp add: runs_none)
qed

lemma runs_trans: "runs step s tr s' \<Longrightarrow> runs step s' tr' s'' \<Longrightarrow> runs step s (tr @ tr') s''"
  by (simp add: runs_after after_append)

lemma runs_Cons: "runs step s (e # tr) s'' \<longleftrightarrow> (\<exists>s'. step s e = Some s' \<and> runs step s' tr s'')"
  by (simp add: runs_after split: option.split)

definition stuck :: "('s, 'e) transition \<Rightarrow> ('e \<Rightarrow> bool) \<Rightarrow> 's \<Rightarrow> bool" where
  "stuck step own s \<longleftrightarrow> (\<forall>e. own e \<longrightarrow> step s e = None)"

locale invariant =
  fixes step :: "('s, 'e) transition" and I :: "'s \<Rightarrow> bool"
  assumes keeps: "I s \<Longrightarrow> step s e = Some s' \<Longrightarrow> I s'"
begin

lemma always: "runs step s tr s' \<Longrightarrow> I s \<Longrightarrow> I s'"
  by (induction rule: runs.induct) (auto intro: keeps)

end

text \<open>
  The system's own events decrease a weight, and when none of them can happen the goal is
  reached: then left to itself the system reaches the goal, whatever the schedule.
\<close>

locale draining = invariant +
  fixes own :: "'b \<Rightarrow> bool" and weight :: "'a \<Rightarrow> nat" and goal :: "'a \<Rightarrow> bool"
  assumes decreases: "I s \<Longrightarrow> own e \<Longrightarrow> step s e = Some s' \<Longrightarrow> weight s' < weight s"
    and stuck_goal: "I s \<Longrightarrow> stuck step own s \<Longrightarrow> goal s"
begin

lemma bounded: "runs step s tr s' \<Longrightarrow> I s \<Longrightarrow> list_all own tr \<Longrightarrow> length tr + weight s' \<le> weight s"
proof (induction rule: runs.induct)
  case (runs_more s tr s' e s'')
  then show ?case using decreases[of s' e s''] always[of s tr s'] by simp
qed simp

lemma ends_in_goal: "runs step s tr s' \<Longrightarrow> I s \<Longrightarrow> stuck step own s' \<Longrightarrow> goal s'"
  using always stuck_goal by blast

lemma reaches_goal: "I s \<Longrightarrow> \<exists>tr s'. list_all own tr \<and> runs step s tr s' \<and> stuck step own s' \<and> goal s'"
proof (induction "weight s" arbitrary: s rule: less_induct)
  case less
  show ?case
  proof (cases "stuck step own s")
    case True
    then show ?thesis
      using stuck_goal[OF less.prems] runs_none[of step s] by (intro exI[of _ "[]"] exI[of _ s]) simp
  next
    case False
    then obtain e s1 where e: "own e" "step s e = Some s1" by (auto simp: stuck_def)
    then obtain tr s' where "list_all own tr" "runs step s1 tr s'" "stuck step own s'" "goal s'"
      using less.hyps[OF decreases[OF less.prems e] keeps[OF less.prems e(2)]] by blast
    then have "list_all own (e # tr) \<and> runs step s (e # tr) s' \<and> stuck step own s' \<and> goal s'"
      using e runs_Cons[of step s e tr s'] by auto
    then show ?thesis by blast
  qed
qed

end

end
