(* ===== verification/Thread_Pool.thy ===== *)
theory Thread_Pool
  imports Transition_System "HOL-Library.Multiset"
begin

text \<open>
  The pool of worker threads that runs inference (\<^verbatim>\<open>src/src/thread_pool.hpp\<close>). A state says where
  each worker stands in its loop, what is queued, and how far the destructor has come; an event
  is one step of one thread. A step holds \<^verbatim>\<open>queue_mutex\<close> from its start to its end, with one
  exception that matters: between finding the predicate of the wait false and going to sleep, a
  worker keeps the mutex (\<open>Checked\<close>), and the destructor, which sets \<^verbatim>\<open>stop\<close> without the mutex, can
  come in between.
\<close>

section \<open>The pool\<close>

datatype 'j worker =
    Ready \<comment> \<open>about to lock the mutex: before the wait, after a task, or woken\<close>
  | Checked \<comment> \<open>has the mutex and has found the predicate of the wait false\<close>
  | Waiting
  | Running 'j
  | Exited

datatype destructor = Alive | Stopping \<comment> \<open>\<^verbatim>\<open>stop\<close> is set\<close> | Joining \<comment> \<open>all are notified\<close> | Joined

record 'j pool =
  workers :: "'j worker list"
  tasks :: "'j list"
  stop :: bool
  notifies :: nat \<comment> \<open>calls of \<^verbatim>\<open>notify_one\<close> that \<^verbatim>\<open>enqueue\<close> still has to make\<close>
  dtor :: destructor

datatype 'j pool_event =
    Enqueue 'j
  | Refuse \<comment> \<open>\<^verbatim>\<open>enqueue\<close> throws\<close>
  | Notify_one "nat option" \<comment> \<open>and the worker woken, if one was waiting\<close>
  | Flush
  | Check nat
  | Sleep nat
  | Take nat 'j
  | Finish nat 'j
  | Leave nat
  | Spurious nat \<comment> \<open>a wait that returns without a notification, as the standard allows\<close>
  | Set_stop
  | Notify_all
  | Join

definition new_pool :: "int \<Rightarrow> 'j pool" where
  "new_pool threads = \<lparr>workers = replicate (nat threads) Ready, tasks = [], stop = False, notifies = 0, dtor = Alive\<rparr>"

definition unlocked :: "'j pool \<Rightarrow> bool" where
  "unlocked p \<longleftrightarrow> Checked \<notin> set (workers p)"

definition worker_at :: "'j pool \<Rightarrow> nat \<Rightarrow> 'j worker \<Rightarrow> bool" where
  "worker_at p i w \<longleftrightarrow> i < length (workers p) \<and> workers p ! i = w"

definition go :: "nat \<Rightarrow> 'j worker \<Rightarrow> 'j pool \<Rightarrow> 'j pool" where
  "go i w p = p\<lparr>workers := (workers p)[i := w]\<rparr>"

definition guarded_by :: "bool \<Rightarrow> 'a \<Rightarrow> 'a option" where
  "guarded_by c x = (if c then Some x else None)"

definition woken :: "'j worker list \<Rightarrow> 'j worker list" where
  "woken ws = map (\<lambda>w. if w = Waiting then Ready else w) ws"

fun pool_step :: "('j pool, 'j pool_event) transition" where
  "pool_step p (Enqueue j) =
     guarded_by (unlocked p \<and> \<not> stop p) (p\<lparr>tasks := tasks p @ [j], notifies := Suc (notifies p)\<rparr>)"
| "pool_step p Refuse = guarded_by (unlocked p \<and> stop p) p"
| "pool_step p (Notify_one (Some i)) =
     guarded_by (0 < notifies p \<and> worker_at p i Waiting) (go i Ready (p\<lparr>notifies := notifies p - 1\<rparr>))"
| "pool_step p (Notify_one None) =
     guarded_by (0 < notifies p \<and> Waiting \<notin> set (workers p)) (p\<lparr>notifies := notifies p - 1\<rparr>)"
| "pool_step p Flush = guarded_by (unlocked p) (p\<lparr>tasks := []\<rparr>)"
| "pool_step p (Check i) = guarded_by (unlocked p \<and> worker_at p i Ready \<and> \<not> (stop p \<or> tasks p \<noteq> [])) (go i Checked p)"
| "pool_step p (Sleep i) = guarded_by (worker_at p i Checked) (go i Waiting p)"
| "pool_step p (Take i j) =
     guarded_by (unlocked p \<and> worker_at p i Ready \<and> tasks p \<noteq> [] \<and> hd (tasks p) = j)
       (go i (Running j) (p\<lparr>tasks := tl (tasks p)\<rparr>))"
| "pool_step p (Finish i j) = guarded_by (worker_at p i (Running j)) (go i Ready p)"
| "pool_step p (Leave i) = guarded_by (unlocked p \<and> worker_at p i Ready \<and> stop p \<and> tasks p = []) (go i Exited p)"
| "pool_step p (Spurious i) = guarded_by (worker_at p i Waiting) (go i Ready p)"
| "pool_step p Set_stop = guarded_by (dtor p = Alive) (p\<lparr>stop := True, dtor := Stopping\<rparr>)"
| "pool_step p Notify_all =
     guarded_by (dtor p = Stopping)
       (p\<lparr>workers := woken (workers p), dtor := Joining\<rparr>)"
| "pool_step p Join = guarded_by (dtor p = Joining \<and> set (workers p) \<subseteq> {Exited}) (p\<lparr>dtor := Joined\<rparr>)"

lemma guarded_by_Some [simp]: "guarded_by c x = Some y \<longleftrightarrow> c \<and> x = y"
  by (auto simp: guarded_by_def)

lemma guarded_by_None [simp]: "guarded_by c x = None \<longleftrightarrow> \<not> c"
  by (simp add: guarded_by_def)

lemma go_sel [simp]:
  "workers (go i w p) = (workers p)[i := w]" "tasks (go i w p) = tasks p" "stop (go i w p) = stop p"
  "notifies (go i w p) = notifies p" "dtor (go i w p) = dtor p"
  by (simp_all add: go_def)

text \<open>What the threads of the pool do by themselves, and the notifications already due.\<close>

fun pool_own :: "'j pool_event \<Rightarrow> bool" where
  "pool_own (Enqueue j) = False"
| "pool_own Refuse = False"
| "pool_own Flush = False"
| "pool_own (Spurious i) = False"
| "pool_own Set_stop = False"
| "pool_own e = True"

section \<open>No task is stranded\<close>

lemma worker_atE:
  assumes "worker_at p i w"
  obtains xs ys where "workers p = xs @ w # ys" and "i = length xs"
  using assms id_take_nth_drop[of i "workers p"] by (fastforce simp: worker_at_def)

definition busy :: "'j worker \<Rightarrow> bool" where
  "busy w \<longleftrightarrow> w = Ready \<or> (\<exists>j. w = Running j)"

lemma busy_simps [simp]: "busy Ready" "busy (Running j)" "\<not> busy Checked" "\<not> busy Waiting" "\<not> busy Exited"
  by (simp_all add: busy_def)

definition pool_inv :: "'j pool \<Rightarrow> bool" where
  "pool_inv p \<longleftrightarrow> workers p \<noteq> [] \<and>
     (Checked \<in> set (workers p) \<longrightarrow> tasks p = []) \<and>
     (Exited \<in> set (workers p) \<longrightarrow> stop p \<and> tasks p = []) \<and>
     (tasks p \<noteq> [] \<longrightarrow> 0 < notifies p \<or> list_ex busy (workers p)) \<and>
     (stop p \<longleftrightarrow> dtor p \<noteq> Alive)"

lemma pool_inv_new: "0 < n \<Longrightarrow> pool_inv (new_pool n)"
  by (simp add: pool_inv_def new_pool_def)

lemma all_idle:
  "workers p \<noteq> [] \<Longrightarrow> Checked \<notin> set (workers p) \<Longrightarrow> Exited \<notin> set (workers p) \<Longrightarrow> Waiting \<notin> set (workers p) \<Longrightarrow>
   list_ex busy (workers p)"
  by (cases "workers p"; cases "hd (workers p)") auto

lemma woken_simps [simp]:
  "Checked \<in> set (woken ws) \<longleftrightarrow> Checked \<in> set ws"
  "Exited \<in> set (woken ws) \<longleftrightarrow> Exited \<in> set ws"
  "Waiting \<notin> set (woken ws)"
  "woken ws = [] \<longleftrightarrow> ws = []"
  by (auto simp: woken_def)

lemma woken_busy: "list_ex busy ws \<Longrightarrow> list_ex busy (woken ws)"
  by (auto simp: list_ex_iff woken_def)

lemma pool_inv_step: "pool_inv p \<Longrightarrow> pool_step p e = Some p' \<Longrightarrow> pool_inv p'"
proof (induction p e rule: pool_step.induct)
  case (4 p)
  then show ?case using all_idle[of p] by (auto simp: pool_inv_def)
next
  case (13 p)
  then show ?case using woken_busy[of "workers p"] by (auto simp: pool_inv_def)
qed ((auto simp: pool_inv_def unlocked_def elim!: worker_atE)[1])+

section \<open>Accepted tasks complete\<close>

fun worker_weight :: "'j worker \<Rightarrow> nat" where
  "worker_weight (Running j) = 3"
| "worker_weight Ready = 2"
| "worker_weight Checked = 1"
| "worker_weight w = 0"

definition dtor_weight :: "'j pool \<Rightarrow> nat" where
  "dtor_weight p = (case dtor p of Stopping \<Rightarrow> 2 * length (workers p) + 2 | Joining \<Rightarrow> 1 | _ \<Rightarrow> 0)"

definition pool_weight :: "'j pool \<Rightarrow> nat" where
  "pool_weight p = sum_list (map worker_weight (workers p)) + 2 * length (tasks p) + 3 * notifies p + dtor_weight p"

lemma woken_weight:
  "sum_list (map worker_weight (woken ws))
    \<le> sum_list (map worker_weight ws) + 2 * length ws"
  by (induction ws) (auto simp: woken_def)

lemma pool_own_decreases:
  "pool_own e \<Longrightarrow> pool_step p e = Some p' \<Longrightarrow> pool_weight p' < pool_weight p"
proof (induction p e rule: pool_step.induct)
  case (8 p i j)
  then show ?case
    by (cases "tasks p") (auto simp: pool_weight_def dtor_weight_def split: destructor.split elim!: worker_atE)
next
  case (13 p)
  then show ?case using woken_weight[of "workers p"] by (auto simp: pool_weight_def dtor_weight_def)
qed ((auto simp: pool_weight_def dtor_weight_def split: destructor.split elim!: worker_atE)[1])+

lemma stuck_pool:
  assumes "stuck pool_step pool_own p"
  shows "set (workers p) \<subseteq> {Waiting, Exited}" and "notifies p = 0" and "dtor p \<noteq> Stopping"
proof -
  have s: "pool_step p e = None" if "pool_own e" for e using assms that by (auto simp: stuck_def)
  have at: "\<exists>i. worker_at p i w" if "w \<in> set (workers p)" for w
    using that by (auto simp: in_set_conv_nth worker_at_def)
  have u: "unlocked p" using s[of "Sleep _"] at[of Checked] by (auto simp: unlocked_def)
  have "w \<in> {Waiting, Exited}" if w: "w \<in> set (workers p)" for w
  proof (cases w)
    case Ready
    then obtain i where "worker_at p i Ready" using at w by blast
    then show ?thesis using u s[of "Check i"] s[of "Take i (hd (tasks p))"] s[of "Leave i"] by auto
  next
    case Checked
    then show ?thesis using u w by (simp add: unlocked_def)
  next
    case (Running j)
    then show ?thesis using at w s[of "Finish _ j"] by fastforce
  qed simp_all
  then show "set (workers p) \<subseteq> {Waiting, Exited}" by blast
  show "notifies p = 0"
    using s[of "Notify_one None"] s[of "Notify_one (Some _)"] at[of Waiting] by auto
  show "dtor p \<noteq> Stopping" using s[of Notify_all] by simp
qed

definition pool_done :: "'j pool \<Rightarrow> bool" where
  "pool_done p \<longleftrightarrow> tasks p = [] \<and> set (workers p) \<subseteq> {Waiting, Exited}"

interpretation pool: draining pool_step pool_inv pool_own pool_weight pool_done
proof unfold_locales
  show "pool_inv s \<Longrightarrow> pool_step s e = Some s' \<Longrightarrow> pool_inv s'" for s s' :: "'j pool" and e
    by (rule pool_inv_step)
  show "pool_own e \<Longrightarrow> pool_step s e = Some s' \<Longrightarrow> pool_weight s' < pool_weight s" for s s' :: "'j pool" and e
    by (rule pool_own_decreases)
  show "pool_done s" if "pool_inv s" and "stuck pool_step pool_own s" for s :: "'j pool"
    using stuck_pool[OF that(2)] that(1) by (auto simp: pool_done_def pool_inv_def list_ex_iff)
qed

section \<open>First in, first out\<close>

text \<open>The contract of the queue: what a history of events leaves in it.\<close>

fun fifo :: "'j pool_event list \<Rightarrow> 'j list \<Rightarrow> 'j list option" where
  "fifo [] q = Some q"
| "fifo (Enqueue j # es) q = fifo es (q @ [j])"
| "fifo (Take i j # es) q = (case q of [] \<Rightarrow> None | t # ts \<Rightarrow> if t = j then fifo es ts else None)"
| "fifo (Flush # es) q = fifo es []"
| "fifo (e # es) q = fifo es q"

lemma fifo_append: "fifo (es @ fs) q = (case fifo es q of None \<Rightarrow> None | Some q' \<Rightarrow> fifo fs q')"
  by (induction es q rule: fifo.induct) (auto split: list.split)

lemma fifo_step: "pool_step p e = Some p' \<Longrightarrow> fifo [e] (tasks p) = Some (tasks p')"
  by (induction p e rule: pool_step.induct) (auto split: list.split)

lemma fifo_runs: "runs pool_step p tr p' \<Longrightarrow> fifo tr (tasks p) = Some (tasks p')"
  by (induction rule: runs.induct) (auto simp: fifo_append dest: fifo_step)

fun taken :: "'j pool_event list \<Rightarrow> 'j list" where
  "taken [] = []"
| "taken (Take i j # es) = j # taken es"
| "taken (e # es) = taken es"

fun accepted :: "'j pool_event list \<Rightarrow> 'j list" where
  "accepted [] = []"
| "accepted (Enqueue j # es) = j # accepted es"
| "accepted (e # es) = accepted es"

fun finished :: "'j pool_event list \<Rightarrow> 'j list" where
  "finished [] = []"
| "finished (Finish i j # es) = j # finished es"
| "finished (e # es) = finished es"

lemma fifo_order: "fifo tr q = Some q' \<Longrightarrow> Flush \<notin> set tr \<Longrightarrow> taken tr @ q' = q @ accepted tr"
  by (induction tr q rule: fifo.induct) (auto split: list.splits if_splits)

fun worker_job :: "'j worker \<Rightarrow> 'j multiset" where
  "worker_job (Running j) = {#j#}"
| "worker_job w = {#}"

definition running :: "'j pool \<Rightarrow> 'j multiset" where
  "running p = sum_list (map worker_job (workers p))"

lemma woken_jobs: "map worker_job (woken ws) = map worker_job ws"
  by (auto simp: woken_def)

lemma finished_append: "finished (es @ fs) = finished es @ finished fs"
  by (induction es rule: finished.induct) auto

lemma taken_append: "taken (es @ fs) = taken es @ taken fs"
  by (induction es rule: taken.induct) auto

lemma accepted_append: "accepted (es @ fs) = accepted es @ accepted fs"
  by (induction es rule: accepted.induct) auto

lemma jobs_step: "pool_step p e = Some p' \<Longrightarrow>
  running p + mset (taken [e]) = running p' + mset (finished [e])"
proof (induction p e rule: pool_step.induct)
  case (13 p)
  then show ?case by (auto simp: running_def woken_jobs simp del: map_map)
qed ((auto simp: running_def elim!: worker_atE)[1])+

lemma jobs_runs: "runs pool_step p tr p' \<Longrightarrow> running p + mset (taken tr) = running p' + mset (finished tr)"
proof (induction rule: runs.induct)
  case (runs_more s tr s' e s'')
  then show ?case using jobs_step[OF runs_more(2)]
    by (simp only: taken_append finished_append mset_append) (metis add.assoc add.commute)
qed simp

section \<open>Shutdown\<close>

text \<open>
  After \<^verbatim>\<open>stop\<close> was set while no worker stood between its check and its sleep: no worker ever does
  again, and after the notification none is asleep.
\<close>

definition going_down :: "'j pool \<Rightarrow> bool" where
  "going_down p \<longleftrightarrow> stop p \<and> dtor p \<noteq> Alive \<and> Checked \<notin> set (workers p) \<and>
     (dtor p \<noteq> Stopping \<longrightarrow> Waiting \<notin> set (workers p)) \<and> (dtor p = Joined \<longrightarrow> set (workers p) \<subseteq> {Exited})"

definition closing :: "'j pool \<Rightarrow> bool" where
  "closing p \<longleftrightarrow> pool_inv p \<and> going_down p"

definition closed :: "'j pool \<Rightarrow> bool" where
  "closed p \<longleftrightarrow> dtor p = Joined \<and> set (workers p) = {Exited} \<and> tasks p = []"

lemma going_down_step: "going_down p \<Longrightarrow> pool_step p e = Some p' \<Longrightarrow> going_down p'"
proof (induction p e rule: pool_step.induct)
  case (13 p)
  then show ?case by (auto simp: going_down_def)
qed ((auto simp: going_down_def elim!: worker_atE)[1])+

lemma closing_step: "closing p \<Longrightarrow> pool_step p e = Some p' \<Longrightarrow> closing p'"
  using pool_inv_step[of p e p'] going_down_step[of p e p'] by (simp add: closing_def)

interpretation shutdown: draining pool_step closing pool_own pool_weight closed
proof unfold_locales
  show "closing s \<Longrightarrow> pool_step s e = Some s' \<Longrightarrow> closing s'" for s s' :: "'j pool" and e
    by (rule closing_step)
  show "pool_own e \<Longrightarrow> pool_step s e = Some s' \<Longrightarrow> pool_weight s' < pool_weight s" for s s' :: "'j pool" and e
    by (rule pool_own_decreases)
  show "closed s" if c: "closing s" and t: "stuck pool_step pool_own s" for s :: "'j pool"
  proof -
    have w: "set (workers s) \<subseteq> {Exited}"
      using c stuck_pool(1,3)[OF t] by (auto simp: closing_def going_down_def)
    have "pool_own Join" by simp
    then have "pool_step s Join = None" using t unfolding stuck_def by blast
    then have "dtor s \<noteq> Joining" using w by simp
    then have "dtor s = Joined"
      using c stuck_pool(3)[OF t] by (cases "dtor s") (simp_all add: closing_def going_down_def)
    moreover have "set (workers s) = {Exited}"
      using w c by (cases "workers s") (auto simp: closing_def pool_inv_def)
    ultimately show ?thesis using c by (simp add: closed_def closing_def pool_inv_def)
  qed
qed

section \<open>Properties\<close>

lemma no_new_jobs: "sum_list (replicate n {#}) = {#}"
  by (induction n) auto

lemma no_jobs: "set ws \<subseteq> {Waiting, Exited} \<Longrightarrow> sum_list (map worker_job ws) = {#}"
  by (induction ws) auto

text \<open>
  C16. First in, first out: every history of the pool is a history of a queue, in which workers
  take tasks from the front, \<^verbatim>\<open>enqueue\<close> puts them at the back and \<^verbatim>\<open>flush\<close> empties it. Without a
  flush the tasks are taken in the order of their acceptance, each once.
\<close>

theorem pool_refines_queue:
  assumes "runs pool_step (new_pool n) tr p"
  shows "fifo tr [] = Some (tasks p) \<and> (Flush \<notin> set tr \<longrightarrow> taken tr @ tasks p = accepted tr)"
  using fifo_runs[OF assms] fifo_order[of tr "[]" "tasks p"] by (simp add: new_pool_def)

lemma pool_refines_queue_witness:
  "fifo [Enqueue ''a'', Enqueue ''b'', Notify_one None, Take 1 ''a''] [] = Some [''b'']"
proof -
  let ?tr = "[Enqueue ''a'', Enqueue ''b'', Notify_one None, Take 1 ''a'']"
  let ?p = "\<lparr>workers = [Ready, Running ''a''], tasks = [''b''], stop = False, notifies = 1, dtor = Alive\<rparr>"
  have "runs pool_step (new_pool 2) ?tr ?p"
    by (simp add: runs_after new_pool_def guarded_by_def unlocked_def worker_at_def go_def numeral_2_eq_2)
  from pool_refines_queue[OF this] show ?thesis by simp
qed

text \<open>
  C6. Accepted tasks are executed. However the threads of a pool with at least one worker are
  scheduled, their own steps run out after a number of steps bounded by the state, and when none
  is left the queue is empty, no task is under way, and every task accepted in a history without
  a flush has finished exactly once.
\<close>

theorem accepted_tasks_complete:
  assumes "0 < n" and "runs pool_step (new_pool n :: 'j pool) tr p"
  shows "(\<exists>tr' p'. list_all pool_own tr' \<and> runs pool_step p tr' p' \<and> stuck pool_step pool_own p') \<and>
    (\<forall>tr' p'. runs pool_step p tr' p' \<longrightarrow>
       (list_all pool_own tr' \<longrightarrow> length tr' \<le> pool_weight p) \<and>
       (stuck pool_step pool_own p' \<and> Flush \<notin> set (tr @ tr') \<longrightarrow>
          tasks p' = [] \<and> mset (finished (tr @ tr')) = mset (accepted (tr @ tr'))))"
proof (intro conjI allI impI)
  have I: "pool_inv p" by (rule pool.always[OF assms(2) pool_inv_new[OF assms(1)]])
  show "\<exists>tr' p'. list_all pool_own tr' \<and> runs pool_step p tr' p' \<and> stuck pool_step pool_own p'"
    using pool.reaches_goal[OF I] by blast
  fix tr' p'
  assume r: "runs pool_step p tr' p'"
  show "length tr' \<le> pool_weight p" if "list_all pool_own tr'" using pool.bounded[OF r I that] by simp
  assume s: "stuck pool_step pool_own p' \<and> Flush \<notin> set (tr @ tr')"
  have all: "runs pool_step (new_pool n) (tr @ tr') p'" by (rule runs_trans[OF assms(2) r])
  have d: "pool_done p'" using pool.ends_in_goal[OF r I] s by simp
  then have "running p' = {#}" by (simp add: running_def pool_done_def no_jobs)
  moreover have "running (new_pool n :: 'j pool) = {#}" by (simp add: running_def new_pool_def no_new_jobs)
  ultimately have "mset (finished (tr @ tr')) = mset (taken (tr @ tr'))" using jobs_runs[OF all] by simp
  moreover have "taken (tr @ tr') = accepted (tr @ tr')"
    using fifo_order[OF fifo_runs[OF all]] s d by (simp add: pool_done_def new_pool_def)
  ultimately show "mset (finished (tr @ tr')) = mset (accepted (tr @ tr'))" by simp
  show "tasks p' = []" using d by (simp add: pool_done_def)
qed

lemma accepted_tasks_complete_witness:
  "\<exists>tr' p'. list_all pool_own tr' \<and> runs pool_step (new_pool 2) (Enqueue ''a'' # tr') p' \<and>
     mset (finished tr') = {#''a''#}"
proof -
  let ?p = "\<lparr>workers = [Ready, Ready], tasks = [''a''], stop = False, notifies = Suc 0, dtor = Alive\<rparr>"
  have r: "runs pool_step (new_pool 2) [Enqueue ''a''] ?p"
    by (simp add: runs_after new_pool_def guarded_by_def unlocked_def numeral_2_eq_2)
  note t = accepted_tasks_complete[OF _ r, simplified]
  then obtain tr' p' where o: "list_all pool_own tr'" "runs pool_step ?p tr' p'" "stuck pool_step pool_own p'"
    by blast
  have "Flush \<notin> set tr'" "accepted tr' = []"
    using o(1) by (auto simp: list_all_iff, induction tr' rule: accepted.induct) auto
  then have "mset (finished tr') = {#''a''#}" using t o by simp
  then show ?thesis using runs_trans[OF r o(2)] o(1) by auto
qed

text \<open>
  C17. The destructor returns when \<^verbatim>\<open>stop\<close> was not set between the check and the sleep of a
  worker: then, under every schedule, the steps that are left run out after boundedly many, with the
  queued tasks executed, all workers at their end and the destructor through \<^verbatim>\<open>join\<close>.
\<close>

theorem shutdown_completes:
  assumes "0 < n" and "runs pool_step (new_pool n) tr p" and "unlocked p" and "pool_step p Set_stop = Some q"
  shows "(\<exists>tr' q'. list_all pool_own tr' \<and> runs pool_step q tr' q' \<and> closed q') \<and>
    (\<forall>tr' q'. runs pool_step q tr' q' \<longrightarrow> (list_all pool_own tr' \<longrightarrow> length tr' \<le> pool_weight q) \<and>
       (stuck pool_step pool_own q' \<longrightarrow> closed q'))"
proof -
  have "pool_inv p" by (rule pool.always[OF assms(2) pool_inv_new[OF assms(1)]])
  then have "closing q"
    using pool_inv_step[OF _ assms(4)] assms(3,4) by (auto simp: closing_def going_down_def unlocked_def)
  then show ?thesis
    using shutdown.reaches_goal[of q] shutdown.bounded[of q _ _] shutdown.ends_in_goal[of q] by fastforce
qed

lemma shutdown_completes_witness:
  "\<exists>tr q. runs pool_step (new_pool 2) (Set_stop # tr) (q :: string pool) \<and> closed q"
proof -
  let ?q = "\<lparr>workers = [Ready, Ready], tasks = [], stop = True, notifies = 0, dtor = Stopping\<rparr> :: string pool"
  have s: "pool_step (new_pool 2) Set_stop = Some ?q" and u: "unlocked (new_pool 2 :: string pool)"
    by (simp_all add: new_pool_def unlocked_def numeral_2_eq_2)
  obtain tr q where "runs pool_step ?q tr q" "closed q"
    using shutdown_completes[OF _ runs_none u s] by auto
  then show ?thesis using s runs_Cons[of pool_step "new_pool 2" Set_stop tr q] by auto
qed

text \<open>
  C29. The lost wakeup. \<^verbatim>\<open>stop\<close> is set and notified without the mutex, so both can happen between the
  check and the sleep of a worker. That worker then waits for a notification that has already
  been sent: the destructor stays in \<^verbatim>\<open>join\<close>, and no step of any thread is left that could wake it
  but a spurious return from the wait.
\<close>

theorem lost_wakeup:
  "\<exists>tr p. runs pool_step (new_pool 1 :: 'j pool) tr p \<and> stop p \<and> dtor p = Joining \<and> worker_at p 0 Waiting \<and>
     {e. pool_step p e \<noteq> None} = {Refuse, Flush, Spurious 0}"
proof -
  let ?p = "\<lparr>workers = [Waiting], tasks = [], stop = True, notifies = 0, dtor = Joining\<rparr> :: 'j pool"
  have "runs pool_step (new_pool 1) [Check 0, Set_stop, Notify_all, Sleep 0] ?p"
    by (simp add: runs_after new_pool_def woken_def guarded_by_def unlocked_def worker_at_def go_def)
  moreover have "pool_step ?p e \<noteq> None \<longleftrightarrow> e \<in> {Refuse, Flush, Spurious 0}" for e
    by (cases "(?p, e)" rule: pool_step.cases) (auto simp: unlocked_def worker_at_def)
  then have "{e. pool_step ?p e \<noteq> None} = {Refuse, Flush, Spurious 0}" by blast
  ultimately show ?thesis
    by (intro exI[of _ "[Check 0, Set_stop, Notify_all, Sleep 0]"] exI[of _ ?p]) (simp add: worker_at_def)
qed

text \<open>A pool of no workers accepts tasks and never takes one.\<close>

lemma no_workers:
  "runs pool_step p tr p' \<Longrightarrow> workers p = [] \<Longrightarrow> workers p' = [] \<and> taken tr = []"
proof (induction rule: runs.induct)
  case (runs_more s tr s' e s'')
  have "workers s' = []" using runs_more by simp
  then have "workers s'' = [] \<and> taken [e] = []"
    using runs_more(2) by (induction s' e rule: pool_step.induct) (auto simp: worker_at_def woken_def)
  then show ?case using runs_more by (simp add: taken_append)
qed simp

end
