(* ===== verification/Javascript.thy ===== *)
theory Javascript
  imports Prelude
begin

text \<open>
  What the models of the documentation's JavaScript share. A string is the list of its UTF-16
  code units, a \<^verbatim>\<open>Uint8Array\<close> a list of bytes.
\<close>

type_synonym js_string = "nat list"

datatype js_error = Js_Error string | Range_error string

definition code_units :: "string \<Rightarrow> js_string" where
  "code_units s = map of_char s"

text \<open>A store outside a typed array is ignored; a negative length is a \<^verbatim>\<open>RangeError\<close>.\<close>

definition store :: "nat \<Rightarrow> 32 word \<Rightarrow> 8 word list \<Rightarrow> 8 word list" where
  "store i v arr = arr[i := ucast v]"

definition new_array :: "int \<Rightarrow> js_error + 8 word list" where
  "new_array n = (if n < 0 then Inl (Range_error ''Invalid typed array length'')
     else Inr (replicate (nat n) 0))"

end
