(* ===== verification/Base64.thy ===== *)
theory Base64
  imports Javascript
begin

text \<open>
  The \<^verbatim>\<open>base64-js\<close> module that both Swagger UI bundles of the documentation carry (module
  79742 of \<^verbatim>\<open>src/docs/swagger/swagger-ui-bundle.js\<close>, module 9742 of
  \<^verbatim>\<open>src/docs/swagger/swagger-ui-standalone-preset.js\<close>; the same code under other local names);
  Swagger UI encodes the credentials of a request with it. The bundles are minified, one line
  each. The bitwise operators work on 32 bits.
\<close>

unbundle bit_operations_syntax

section \<open>The tables\<close>

definition lookup :: js_string where
  "lookup = code_units ''ABCDEFGHIJKLMNOPQRSTUVWXYZabcdefghijklmnopqrstuvwxyz0123456789+/''"

definition char_of_sextet :: "32 word \<Rightarrow> nat" where
  "char_of_sextet w = lookup ! unat w"

text \<open>An entry that is missing, or lies past the end of the string, is \<^verbatim>\<open>undefined\<close>: 0 in bit operations.\<close>

definition rev_lookup :: "nat \<Rightarrow> 32 word" where
  "rev_lookup c =
     (case map_of (zip lookup [0..<64] @ [(45, 62), (95, 63)]) c of
        Some i \<Rightarrow> word_of_nat i | None \<Rightarrow> 0)"

definition rev_at :: "js_string \<Rightarrow> nat \<Rightarrow> 32 word" where
  "rev_at s i = (if i < length s then rev_lookup (s ! i) else 0)"

section \<open>Lengths\<close>

definition index_of :: "nat \<Rightarrow> js_string \<Rightarrow> int" where
  "index_of c s = (if c \<in> set s then int (length (takeWhile (\<lambda>x. x \<noteq> c) s)) else -1)"

definition getLens :: "js_string \<Rightarrow> js_error + int \<times> int" where
  "getLens b64 =
     (let len = int (length b64)
      in if len mod 4 > 0
         then Inl (Js_Error ''Invalid string. Length must be a multiple of 4'')
         else let validLen = index_of 61 b64;
                  validLen = (if validLen = -1 then len else validLen)
              in Inr (validLen, if validLen = len then 0 else 4 - validLen mod 4))"

definition byteLength :: "js_string \<Rightarrow> js_error + int" where
  "byteLength b64 =
     andThen (getLens b64) (\<lambda>(validLen, placeHolders).
       Inr (3 * (validLen + placeHolders) div 4 - placeHolders))"

section \<open>Decoding\<close>

text \<open>The loop over groups of four: the index into the string, the index into the array, the array.\<close>

function decode_loop :: "js_string \<Rightarrow> int \<Rightarrow> nat \<Rightarrow> nat \<Rightarrow> 8 word list \<Rightarrow> nat \<times> nat \<times> 8 word list" where
  "decode_loop b64 len i curByte arr =
     (if int i < len
      then let tmp = push_bit 18 (rev_at b64 i) OR push_bit 12 (rev_at b64 (i + 1)) OR
                 push_bit 6 (rev_at b64 (i + 2)) OR rev_at b64 (i + 3);
               arr = store curByte (drop_bit 16 tmp AND 255) arr;
               arr = store (curByte + 1) (drop_bit 8 tmp AND 255) arr;
               arr = store (curByte + 2) (255 AND tmp) arr
           in decode_loop b64 len (i + 4) (curByte + 3) arr
      else (i, curByte, arr))"
  by pat_completeness auto
termination by (relation "measure (\<lambda>(_, len, i, _). nat (len - int i))") auto

declare decode_loop.simps [simp del]

definition toByteArray :: "js_string \<Rightarrow> js_error + 8 word list" where
  "toByteArray b64 =
     andThen (getLens b64) (\<lambda>(validLen, placeHolders).
     andThen (new_array (3 * (validLen + placeHolders) div 4 - placeHolders)) (\<lambda>arr.
     let len = (if placeHolders > 0 then validLen - 4 else validLen);
         (i, curByte, arr) = decode_loop b64 len 0 0 arr
     in Inr (if placeHolders = 2
             then store curByte
                    (255 AND (push_bit 2 (rev_at b64 i) OR drop_bit 4 (rev_at b64 (i + 1)))) arr
             else if placeHolders = 1
             then let tmp = push_bit 10 (rev_at b64 i) OR push_bit 4 (rev_at b64 (i + 1)) OR
                        drop_bit 2 (rev_at b64 (i + 2))
                  in store (curByte + 1) (255 AND tmp)
                       (store curByte (drop_bit 8 tmp AND 255) arr)
             else arr)))"

section \<open>Encoding\<close>

definition u8_at :: "8 word list \<Rightarrow> nat \<Rightarrow> 32 word" where
  "u8_at bs i = ucast (bs ! i)"

definition tripletToBase64 :: "32 word \<Rightarrow> js_string" where
  "tripletToBase64 num =
     [char_of_sextet (drop_bit 18 num AND 63), char_of_sextet (drop_bit 12 num AND 63),
      char_of_sextet (drop_bit 6 num AND 63), char_of_sextet (63 AND num)]"

function encodeChunk :: "8 word list \<Rightarrow> nat \<Rightarrow> nat \<Rightarrow> js_string" where
  "encodeChunk uint8 i end =
     (if i < end
      then tripletToBase64
             ((push_bit 16 (u8_at uint8 i) AND 16711680) + (push_bit 8 (u8_at uint8 (i + 1)) AND 65280) +
              (255 AND u8_at uint8 (i + 2))) @ encodeChunk uint8 (i + 3) end
      else [])"
  by pat_completeness auto
termination by (relation "measure (\<lambda>(_, i, end). end - i)") auto

declare encodeChunk.simps [simp del]

definition maxChunkLength :: nat where "maxChunkLength = 16383"

function encode_chunks :: "8 word list \<Rightarrow> nat \<Rightarrow> nat \<Rightarrow> js_string list" where
  "encode_chunks uint8 i len2 =
     (if i < len2
      then encodeChunk uint8 i (if i + maxChunkLength > len2 then len2 else i + maxChunkLength) #
           encode_chunks uint8 (i + maxChunkLength) len2
      else [])"
  by pat_completeness auto
termination by (relation "measure (\<lambda>(_, i, len2). len2 - i)") (auto simp: maxChunkLength_def)

declare encode_chunks.simps [simp del]

definition fromByteArray :: "8 word list \<Rightarrow> js_string" where
  "fromByteArray uint8 =
     (let len = length uint8;
          extraBytes = len mod 3;
          parts = encode_chunks uint8 0 (len - extraBytes)
      in concat (parts @
           (if extraBytes = 1
            then let tmp = u8_at uint8 (len - 1)
                 in [[char_of_sextet (drop_bit 2 tmp), char_of_sextet (push_bit 4 tmp AND 63), 61, 61]]
            else if extraBytes = 2
            then let tmp = push_bit 8 (u8_at uint8 (len - 2)) + u8_at uint8 (len - 1)
                 in [[char_of_sextet (drop_bit 10 tmp), char_of_sextet (drop_bit 4 tmp AND 63),
                      char_of_sextet (push_bit 2 tmp AND 63), 61]]
            else [])))"

section \<open>Bits\<close>

lemma and_63: "(w :: 32 word) AND 63 = take_bit 6 w" "63 AND (w :: 32 word) = take_bit 6 w"
  by (simp_all add: take_bit_eq_mask mask_eq_exp_minus_1 and.commute)

lemma and_255: "(w :: 32 word) AND 255 = take_bit 8 w" "255 AND (w :: 32 word) = take_bit 8 w"
  by (simp_all add: take_bit_eq_mask mask_eq_exp_minus_1 and.commute)

lemma lookup_table: "length lookup = 64" "distinct lookup" "61 \<notin> set lookup"
  by code_simp+

lemma lookup_inverse: "i < 64 \<Longrightarrow> rev_lookup (lookup ! i) = word_of_nat i \<and> lookup ! i \<noteq> 61"
proof -
  assume i: "i < 64"
  then have "map_of (zip lookup [0..<64]) (lookup ! i) = Some i"
    using lookup_table map_of_zip_nth[of lookup "[0..<64]" i] by simp
  moreover have "lookup ! i \<noteq> 61" using i lookup_table nth_mem[of i lookup] by metis
  ultimately show ?thesis by (simp add: rev_lookup_def map_add_def)
qed

lemma sextet_less: "unat (take_bit 6 (w :: 32 word)) < 64"
  using take_bit_nat_less_exp[of 6 "unat w"] by (simp add: unsigned_take_bit_eq)

lemma rev_lookup_sextet [simp]: "rev_lookup (char_of_sextet (take_bit 6 w)) = take_bit 6 w"
  and char_of_sextet_pad [simp]: "char_of_sextet (take_bit 6 w) \<noteq> 61"
  using lookup_inverse sextet_less[of w]
  by (auto simp: char_of_sextet_def)

lemma or_add: "(\<And>n. \<not> (bit x n \<and> bit y n)) \<Longrightarrow> x + y = x OR (y :: 32 word)"
  by (rule disjunctive_add) auto

lemma masks: "(16711680 :: 32 word) = push_bit 16 (mask 8)" "(65280 :: 32 word) = push_bit 8 (mask 8)"
  by (simp_all add: mask_eq_exp_minus_1 push_bit_eq_mult)

lemma triple_word:
  "(push_bit 16 (ucast a) AND 16711680) + (push_bit 8 (ucast b) AND 65280) + (255 AND ucast c) =
   push_bit 16 (ucast (a :: 8 word)) OR push_bit 8 (ucast (b :: 8 word)) OR (ucast (c :: 8 word) :: 32 word)"
proof -
  have 1: "push_bit 16 (ucast a) AND 16711680 = (push_bit 16 (ucast a) :: 32 word)"
    "push_bit 8 (ucast b) AND 65280 = (push_bit 8 (ucast b) :: 32 word)"
    "255 AND ucast c = (ucast c :: 32 word)"
    unfolding masks and_255 by (rule bit_word_eqI; auto simp: bit_simps dest: bit_imp_le_length)+
  have 2: "push_bit 16 (ucast a) + push_bit 8 (ucast b) = push_bit 16 (ucast a) OR (push_bit 8 (ucast b) :: 32 word)"
    by (rule or_add) (auto simp: bit_simps dest: bit_imp_le_length)
  have 3: "(push_bit 16 (ucast a) OR push_bit 8 (ucast b)) + ucast c =
      (push_bit 16 (ucast a) OR push_bit 8 (ucast b)) OR (ucast c :: 32 word)"
    by (rule or_add) (auto simp: bit_simps dest: bit_imp_le_length)
  show ?thesis unfolding 1 2 3 by (simp add: or.assoc)
qed

lemma pair_word:
  "push_bit 8 (ucast (a :: 8 word)) + ucast (b :: 8 word) = push_bit 8 (ucast a) OR (ucast b :: 32 word)"
  by (rule or_add) (auto simp: bit_simps dest: bit_imp_le_length)

lemma byte_eqI:
  "bit x 0 = bit y 0 \<and> bit x 1 = bit y 1 \<and> bit x 2 = bit y 2 \<and> bit x 3 = bit y 3 \<and>
   bit x 4 = bit y 4 \<and> bit x 5 = bit y 5 \<and> bit x 6 = bit y 6 \<and> bit x 7 = bit y 7 \<Longrightarrow> x = (y :: 8 word)"
proof (rule bit_word_eqI)
  fix n
  assume b: "bit x 0 = bit y 0 \<and> bit x 1 = bit y 1 \<and> bit x 2 = bit y 2 \<and> bit x 3 = bit y 3 \<and>
   bit x 4 = bit y 4 \<and> bit x 5 = bit y 5 \<and> bit x 6 = bit y 6 \<and> bit x 7 = bit y 7"
  assume "n < LENGTH(8)"
  then have "n = 0 \<or> n = 1 \<or> n = 2 \<or> n = 3 \<or> n = 4 \<or> n = 5 \<or> n = 6 \<or> n = 7" by auto
  with b show "bit x n = bit y n" by auto
qed

lemma byte_bit_high [simp]: "8 \<le> n \<Longrightarrow> \<not> bit (x :: 8 word) n"
  using bit_imp_le_length[of x n] by auto

text \<open>What four sextets of a triple, three of a pair, two of a single byte decode to.\<close>

definition join_sextets :: "32 word \<Rightarrow> 32 word" where
  "join_sextets w = push_bit 18 (take_bit 6 (drop_bit 18 w)) OR push_bit 12 (take_bit 6 (drop_bit 12 w)) OR
      push_bit 6 (take_bit 6 (drop_bit 6 w)) OR take_bit 6 w"

lemma triple_bytes:
  fixes a b c :: "8 word"
  defines "w \<equiv> push_bit 16 (ucast a) OR push_bit 8 (ucast b) OR (ucast c :: 32 word)"
  shows "ucast (take_bit 8 (drop_bit 16 (join_sextets w))) = a" 
    and "ucast (take_bit 8 (drop_bit 8 (join_sextets w))) = b"
    and "ucast (take_bit 8 (join_sextets w)) = c"
proof -
  show "ucast (take_bit 8 (drop_bit 16 (join_sextets w))) = a"
    by (rule byte_eqI) (simp add: w_def join_sextets_def bit_simps)
  show "ucast (take_bit 8 (drop_bit 8 (join_sextets w))) = b"
    by (rule byte_eqI) (simp add: w_def join_sextets_def bit_simps)
  show "ucast (take_bit 8 (join_sextets w)) = c"
    by (rule byte_eqI) (simp add: w_def join_sextets_def bit_simps)
qed

lemma pair_bytes:
  fixes a b :: "8 word"
  defines "w \<equiv> push_bit 8 (ucast a) OR (ucast b :: 32 word)"
  defines "v \<equiv> push_bit 10 (take_bit 6 (drop_bit 10 w)) OR push_bit 4 (take_bit 6 (drop_bit 4 w)) OR
      drop_bit 2 (take_bit 6 (push_bit 2 w))"
  shows "ucast (take_bit 8 (drop_bit 8 v)) = a" and "ucast (take_bit 8 v) = b"
    and "drop_bit 10 w = take_bit 6 (drop_bit 10 w)"
proof -
  show "ucast (take_bit 8 (drop_bit 8 v)) = a" by (rule byte_eqI) (simp add: w_def v_def bit_simps)
  show "ucast (take_bit 8 v) = b" by (rule byte_eqI) (simp add: w_def v_def bit_simps)
  show "drop_bit 10 w = take_bit 6 (drop_bit 10 w)"
    by (rule bit_word_eqI) (auto simp: w_def bit_simps dest: bit_imp_le_length)
qed

lemma single_byte:
  fixes a :: "8 word"
  defines "w \<equiv> (ucast a :: 32 word)"
  shows "ucast (take_bit 8 (push_bit 2 (take_bit 6 (drop_bit 2 w)) OR drop_bit 4 (take_bit 6 (push_bit 4 w)))) = a"
    and "drop_bit 2 w = take_bit 6 (drop_bit 2 w)"
proof -
  show "ucast (take_bit 8 (push_bit 2 (take_bit 6 (drop_bit 2 w)) OR drop_bit 4 (take_bit 6 (push_bit 4 w)))) = a"
    by (rule byte_eqI) (simp add: w_def bit_simps)
  show "drop_bit 2 w = take_bit 6 (drop_bit 2 w)"
    by (rule bit_word_eqI) (auto simp: w_def bit_simps dest: bit_imp_le_length)
qed

section \<open>The encoding without chunks\<close>

fun base64 :: "8 word list \<Rightarrow> js_string" where
  "base64 (a # b # c # bs) =
     tripletToBase64 (push_bit 16 (ucast a) OR push_bit 8 (ucast b) OR ucast c) @ base64 bs"
| "base64 [a, b] =
     (let w = push_bit 8 (ucast a) OR ucast b
      in [char_of_sextet (take_bit 6 (drop_bit 10 w)), char_of_sextet (take_bit 6 (drop_bit 4 w)),
          char_of_sextet (take_bit 6 (push_bit 2 w)), 61])"
| "base64 [a] =
     (let w = ucast a
      in [char_of_sextet (take_bit 6 (drop_bit 2 w)), char_of_sextet (take_bit 6 (push_bit 4 w)), 61, 61])"
| "base64 [] = []"

lemma encodeChunk_base64:
  "i \<le> end \<Longrightarrow> end \<le> length bs \<Longrightarrow> (end - i) mod 3 = 0 \<Longrightarrow>
   encodeChunk bs i end = base64 (take (end - i) (drop i bs))"
proof (induction bs i "end" rule: encodeChunk.induct)
  case (1 bs i "end")
  show ?case
  proof (cases "i < end")
    case True
    with "1.prems" have e: "i + 3 \<le> end" "i + 3 \<le> length bs" by presburger+
    then have "take (end - i) (drop i bs) =
        bs ! i # bs ! (i + 1) # bs ! (i + 2) # take (end - (i + 3)) (drop (i + 3) bs)"
      by (simp add: Cons_nth_drop_Suc[symmetric] take_Cons' numeral_3_eq_3)
    moreover have "(end - (i + 3)) mod 3 = 0" using "1.prems"(3) e by presburger
    ultimately show ?thesis
      using "1.IH"[OF True] True e "1.prems"
      by (subst encodeChunk.simps) (simp add: u8_at_def triple_word)
  qed (use "1.prems" in \<open>simp add: encodeChunk.simps\<close>)
qed

lemma base64_append: "length xs mod 3 = 0 \<Longrightarrow> base64 (xs @ ys) = base64 xs @ base64 ys"
proof (induction xs rule: base64.induct)
  case (1 a b c bs)
  have "length bs mod 3 = 0" using 1(2) by (simp add: mod_Suc split: if_splits)
  then show ?case using 1(1) by simp
qed (simp_all add: mod_Suc)

lemma encode_chunks_base64:
  "i \<le> len2 \<Longrightarrow> len2 \<le> length bs \<Longrightarrow> (len2 - i) mod 3 = 0 \<Longrightarrow>
   concat (encode_chunks bs i len2) = base64 (take (len2 - i) (drop i bs))"
proof (induction bs i len2 rule: encode_chunks.induct)
  case (1 bs i len2)
  show ?case
  proof (cases "i + maxChunkLength < len2")
    case True
    have 3: "(len2 - (i + maxChunkLength)) mod 3 = 0" "maxChunkLength mod 3 = 0"
      using "1.prems"(3) True unfolding maxChunkLength_def by presburger+
    have "take (len2 - i) (drop i bs) = take maxChunkLength (drop i bs) @
        take (len2 - (i + maxChunkLength)) (drop (i + maxChunkLength) bs)"
      using True take_add[of maxChunkLength "len2 - (i + maxChunkLength)" "drop i bs"]
      by (simp add: add.commute)
    moreover have "length (take maxChunkLength (drop i bs)) = maxChunkLength"
      using True "1.prems"(2) by simp
    ultimately have "base64 (take (len2 - i) (drop i bs)) = base64 (take maxChunkLength (drop i bs)) @
        base64 (take (len2 - (i + maxChunkLength)) (drop (i + maxChunkLength) bs))"
      using base64_append[of "take maxChunkLength (drop i bs)"] 3(2) by simp
    then show ?thesis
      using 1 True 3 by (subst encode_chunks.simps) (simp add: encodeChunk_base64)
  next
    case False
    then have r: "\<not> i + maxChunkLength < len2" "encode_chunks bs (i + maxChunkLength) len2 = []"
      by (simp_all add: encode_chunks.simps)
    then show ?thesis
      using "1.prems" by (cases "i + maxChunkLength = len2"; subst encode_chunks.simps)
       (auto simp: encodeChunk_base64)
  qed
qed

lemma fromByteArray_base64: "fromByteArray bs = base64 bs"
proof -
  define k where "k = length bs - length bs mod 3"
  have k: "k mod 3 = 0" "k \<le> length bs" "length bs - k = length bs mod 3"
    by (simp_all add: k_def)
  have tk: "length (take k bs) mod 3 = 0" using k by simp
  have split: "base64 bs = base64 (take k bs) @ base64 (drop k bs)"
    using base64_append[OF tk, of "drop k bs"] by simp
  have parts: "concat (encode_chunks bs 0 k) = base64 (take k bs)"
    using encode_chunks_base64[of 0 k bs] k by simp
  have lt: "length (drop k bs) = length bs mod 3" "length bs mod 3 < 3" using k by simp_all
  consider "drop k bs = []" | a where "drop k bs = [a]" | a b where "drop k bs = [a, b]"
    using lt by (cases "drop k bs" rule: base64.cases) auto
  then show ?thesis
  proof cases
    case 1
    then show ?thesis using lt split parts k by (simp add: fromByteArray_def Let_def k_def[symmetric])
  next
    case 2
    then have "length bs - 1 = k" "length bs mod 3 = 1" "bs ! k = a"
      using lt k by (auto simp: nth_via_drop)
    then show ?thesis using split parts 2 single_byte(2)[of a]
      by (simp add: fromByteArray_def Let_def k_def[symmetric] u8_at_def and_63)
  next
    case 3
    then have d: "length bs mod 3 = 2" using lt by simp
    then have "length bs - 2 = k" "length bs - 1 = Suc k" "bs ! k = a" "bs ! Suc k = b"
      using 3 k nth_drop[of k bs 1] by (auto simp: nth_via_drop)
    then show ?thesis using split parts 3 d pair_bytes(3)[of a b]
      by (simp add: fromByteArray_def Let_def k_def[symmetric] u8_at_def and_63 pair_word)
  qed
qed

section \<open>Decoding what was encoded\<close>

lemma tripletToBase64_sextets:
  "tripletToBase64 w = [char_of_sextet (take_bit 6 (drop_bit 18 w)), char_of_sextet (take_bit 6 (drop_bit 12 w)),
     char_of_sextet (take_bit 6 (drop_bit 6 w)), char_of_sextet (take_bit 6 w)]"
  by (simp add: tripletToBase64_def and_63)

lemma triplet_props: "length (tripletToBase64 w) = 4" "61 \<notin> set (tripletToBase64 w)"
  using char_of_sextet_pad by (auto simp: tripletToBase64_sextets)

lemma base64_no_pad: "length bs mod 3 = 0 \<Longrightarrow> 61 \<notin> set (base64 bs)"
  by (induction bs rule: base64.induct) (auto simp: triplet_props mod_Suc split: if_splits)

lemma length_base64: "length (base64 bs) = 4 * ((length bs + 2) div 3)"
proof (induction bs rule: base64.induct)
  case (1 a b c bs)
  have "(length (a # b # c # bs) + 2) div 3 = Suc ((length bs + 2) div 3)" by simp
  then show ?case using 1 by (simp add: triplet_props)
qed (simp_all add: Let_def)

lemma rev_at_drop: "drop i s = c # cs \<Longrightarrow> rev_at s i = rev_lookup c \<and> drop (Suc i) s = cs"
  by (auto simp: rev_at_def nth_via_drop) (metis drop_Suc list.sel(3) tl_drop)

lemma rev_at_quad:
  assumes "drop i s = p # q # u # v # rest"
  shows "rev_at s i = rev_lookup p" "rev_at s (i + 1) = rev_lookup q"
    "rev_at s (i + 2) = rev_lookup u" "rev_at s (i + 3) = rev_lookup v" "drop (i + 4) s = rest"
  using assms rev_at_drop[of i s] rev_at_drop[of "Suc i" s] rev_at_drop[of "Suc (Suc i)" s]
    rev_at_drop[of "Suc (Suc (Suc i))" s]
  by (auto simp: numeral_eq_Suc)

lemma store_append:
  "store (length xs) v (xs @ z # zs) = xs @ ucast v # zs"
  by (simp add: store_def)

lemma decode_loop_base64:
  "length ts mod 3 = 0 \<Longrightarrow> drop i s = base64 ts @ r \<Longrightarrow> length zs = length ts + k \<Longrightarrow>
   len \<le> int (i + length (base64 ts)) \<Longrightarrow> int (i + length (base64 ts)) < len + 4 \<Longrightarrow>
   decode_loop s len i (length done) (done @ zs) =
     (i + length (base64 ts), length (done @ ts), (done @ ts) @ drop (length ts) zs)"
proof (induction ts arbitrary: i zs "done" rule: base64.induct)
  case (1 a b c ts)
  let ?w = "push_bit 16 (ucast a) OR push_bit 8 (ucast b) OR (ucast c :: 32 word)"
  have l: "length ts mod 3 = 0" using 1(2) by (simp add: mod_Suc split: if_splits)
  obtain z1 z2 z3 zs' where zs: "zs = z1 # z2 # z3 # zs'" "length zs' = length ts + k"
    using 1(4) by (cases zs rule: base64.cases) auto
  obtain w where w: "w = ?w" by simp
  have bs: "base64 (a # b # c # ts) = tripletToBase64 w @ base64 ts" by (simp add: w)
  have bytes: "ucast (take_bit 8 (drop_bit 16 (join_sextets w))) = a"
    "ucast (take_bit 8 (drop_bit 8 (join_sextets w))) = b" "ucast (take_bit 8 (join_sextets w)) = c"
    using triple_bytes[of a b c] unfolding w by blast+
  have d: "rev_at s i = take_bit 6 (drop_bit 18 w)" "rev_at s (i + 1) = take_bit 6 (drop_bit 12 w)"
    "rev_at s (i + 2) = take_bit 6 (drop_bit 6 w)" "rev_at s (i + 3) = take_bit 6 w"
    "drop (i + 4) s = base64 ts @ r"
    using rev_at_quad[OF 1(3)[unfolded bs tripletToBase64_sextets append_Cons append_Nil]] by simp_all
  have st: "store (length done + 2) v3 (store (length done + 1) v2 (store (length done) v1 (done @ zs))) =
      (done @ [ucast v1, ucast v2, ucast v3]) @ zs'" for v1 v2 v3
    unfolding zs store_def by (simp add: list_update_append)
  have "decode_loop s len i (length done) (done @ zs) =
     decode_loop s len (i + 4) (length done + 3) ((done @ [a, b, c]) @ zs')"
    using 1(6) d st bytes triplet_props(1)[of w] unfolding bs
    by (subst decode_loop.simps) (simp add: Let_def and_255 join_sextets_def[symmetric])
  moreover have l3: "length (done @ [a, b, c]) = length done + 3" by simp
  note IH = "1.IH"[OF l d(5) zs(2), of "done @ [a, b, c]", unfolded l3]
  ultimately show ?case
    using IH 1(5,6) zs(1) triplet_props(1)[of w] unfolding bs by (simp add: add.assoc add.commute)
next
  case 4
  then show ?case by (simp add: decode_loop.simps)
qed (simp_all add: mod_Suc)

lemma decode_loop_start:
  assumes "length ts = 3 * m" and "s = base64 ts @ r" and "len \<le> int (4 * m)" and "int (4 * m) < len + 4"
  shows "decode_loop s len 0 0 (replicate (3 * m + k) 0) = (4 * m, 3 * m, ts @ replicate k 0)"
proof -
  have "length (base64 ts) = 4 * m" using length_base64[of ts] assms(1) by simp
  then show ?thesis
    using decode_loop_base64[of ts 0 s r "replicate (3 * m + k) 0" k len "[]"] assms by simp
qed

lemma triples_and_rest:
  fixes bs :: "8 word list"
  obtains ts r where "bs = ts @ r" "length ts mod 3 = 0" "r = [] \<or> (\<exists>a. r = [a]) \<or> (\<exists>a b. r = [a, b])"
proof -
  define k where "k = length bs - length bs mod 3"
  have "length (take k bs) mod 3 = 0" "length (drop k bs) < 3" by (simp_all add: k_def)
  moreover from this(2) have "drop k bs = [] \<or> (\<exists>a. drop k bs = [a]) \<or> (\<exists>a b. drop k bs = [a, b])"
    by (cases "drop k bs" rule: base64.cases) auto
  ultimately show ?thesis using that[of "take k bs" "drop k bs"] by simp
qed

lemma getLens_full:
  assumes "61 \<notin> set s" and "length s mod 4 = 0"
  shows "getLens s = Inr (int (length s), 0)"
proof -
  have "int (length s) mod 4 = 0" using assms(2) by presburger
  then show ?thesis using assms(1) by (simp add: getLens_def index_of_def)
qed

lemma getLens_pad:
  assumes "61 \<notin> set s" and "length (s @ 61 # p) mod 4 = 0"
  shows "getLens (s @ 61 # p) = Inr (int (length s), 4 - int (length s) mod 4)"
proof -
  have "int (length (s @ 61 # p)) mod 4 = 0" using assms(2) by presburger
  moreover have "takeWhile (\<lambda>x. x \<noteq> 61) (s @ 61 # p) = s"
    using assms(1) by (subst takeWhile_append2) auto
  ultimately show ?thesis by (simp add: getLens_def index_of_def Let_def)
qed

lemma roundtrip_lemma:
  "toByteArray (base64 bs) = Inr bs \<and> byteLength (base64 bs) = Inr (int (length bs))"
proof -
  obtain ts r where ts: "bs = ts @ r" "length ts mod 3 = 0"
    and r: "r = [] \<or> (\<exists>a. r = [a]) \<or> (\<exists>a b. r = [a, b])" by (rule triples_and_rest)
  obtain m where m: "length ts = 3 * m" using ts(2) by auto
  have len: "length (base64 ts) = 4 * m" using length_base64[of ts] m by simp
  note split = base64_append[OF ts(2), of r] and pad = base64_no_pad[OF ts(2)]
  from r consider "r = []" | a where "r = [a]" | a b where "r = [a, b]" by blast
  then show ?thesis
  proof cases
    case 1
    have l: "getLens (base64 bs) = Inr (int (4 * m), 0)"
      using getLens_full[OF pad] len ts 1 by simp
    have "decode_loop (base64 ts) (int (4 * m)) 0 0 (replicate (3 * m) 0) = (4 * m, 3 * m, ts)"
      using decode_loop_start[OF m, of "base64 ts" "[]" "int (4 * m)" 0] by simp
    then show ?thesis
      using l ts 1 m by (simp add: toByteArray_def byteLength_def new_array_def Let_def nat_mult_distrib)
  next
    case (2 a)
    obtain x y where xy: "x = char_of_sextet (take_bit 6 (drop_bit 2 (ucast a)))"
      "y = char_of_sextet (take_bit 6 (push_bit 4 (ucast a)))" by simp
    have s: "base64 bs = (base64 ts @ [x, y]) @ 61 # [61]" using split ts 2 xy by (simp add: Let_def)
    have l: "getLens (base64 bs) = Inr (int (4 * m) + 2, 2)"
      using getLens_pad[of "base64 ts @ [x, y]" "[61]"] pad len xy unfolding s by simp
    have d: "decode_loop (base64 bs) (int (4 * m) - 2) 0 0 (replicate (3 * m + 1) 0) = (4 * m, 3 * m, ts @ [0])"
      using decode_loop_start[OF m, of "base64 bs" "[x, y, 61, 61]" "int (4 * m) - 2" 1] s by simp
    moreover have "rev_at (base64 bs) (4 * m) = take_bit 6 (drop_bit 2 (ucast a))"
      "rev_at (base64 bs) (4 * m + 1) = take_bit 6 (push_bit 4 (ucast a))"
      using rev_at_quad(1,2)[of "4 * m" "base64 bs" x y 61 61 "[]"] s len xy by simp_all
    ultimately show ?thesis
      using l ts 2 m store_append[of ts _ 0 "[]"] single_byte(1)[of a]
      by (simp add: toByteArray_def byteLength_def new_array_def Let_def nat_add_distrib nat_mult_distrib and_255)
  next
    case (3 a b)
    let ?w = "push_bit 8 (ucast a) OR ucast b :: 32 word"
    obtain w where w: "w = ?w" by simp
    obtain x y z where xy: "x = char_of_sextet (take_bit 6 (drop_bit 10 w))"
      "y = char_of_sextet (take_bit 6 (drop_bit 4 w))" "z = char_of_sextet (take_bit 6 (push_bit 2 w))" by simp
    have s: "base64 bs = (base64 ts @ [x, y, z]) @ 61 # []" using split ts 3 xy w by (simp add: Let_def)
    have l: "getLens (base64 bs) = Inr (int (4 * m) + 3, 1)"
      using getLens_pad[of "base64 ts @ [x, y, z]" "[]"] pad len xy unfolding s by simp
    have d: "decode_loop (base64 bs) (int (4 * m) - 1) 0 0 (replicate (3 * m + 2) 0) =
        (4 * m, 3 * m, ts @ [0, 0])"
      using decode_loop_start[OF m, of "base64 bs" "[x, y, z, 61]" "int (4 * m) - 1" 2] s
      by (simp add: numeral_2_eq_2)
    have q: "rev_at (base64 bs) (4 * m) = take_bit 6 (drop_bit 10 w)"
      "rev_at (base64 bs) (4 * m + 1) = take_bit 6 (drop_bit 4 w)"
      "rev_at (base64 bs) (4 * m + 2) = take_bit 6 (push_bit 2 w)"
      using rev_at_quad(1,2,3)[of "4 * m" "base64 bs" x y z 61 "[]"] s len xy by simp_all
    have st: "store (3 * m + 1) v (store (3 * m) u (ts @ [0, 0])) = ts @ [ucast u, ucast v]" for u v
      using m by (simp add: store_def list_update_append)
    have b: "ucast (take_bit 8 (drop_bit 8 (push_bit 10 (take_bit 6 (drop_bit 10 w)) OR
        push_bit 4 (take_bit 6 (drop_bit 4 w)) OR drop_bit 2 (take_bit 6 (push_bit 2 w))))) = a"
      "ucast (take_bit 8 (push_bit 10 (take_bit 6 (drop_bit 10 w)) OR
        push_bit 4 (take_bit 6 (drop_bit 4 w)) OR drop_bit 2 (take_bit 6 (push_bit 2 w)))) = b"
      using pair_bytes(1,2)[of a b] unfolding w by blast+
    show ?thesis
      using l ts 3 m d q st b
      by (simp add: toByteArray_def byteLength_def new_array_def Let_def nat_add_distrib nat_mult_distrib and_255
          del: One_nat_def)
  qed
qed

lemma length_decode_loop: "length (snd (snd (decode_loop b64 len i cb arr))) = length arr"
proof (induction b64 len i cb arr rule: decode_loop.induct)
  case (1 b64 len i cb arr)
  then show ?case by (subst decode_loop.simps) (simp add: Let_def store_def)
qed

lemma getLens_cases:
  obtains "length s mod 4 \<noteq> 0" "getLens s = Inl (Js_Error ''Invalid string. Length must be a multiple of 4'')"
  | "length s mod 4 = 0" "61 \<notin> set s" "getLens s = Inr (int (length s), 0)"
  | v where "length s mod 4 = 0" "61 \<in> set s" "v = length (takeWhile (\<lambda>c. c \<noteq> 61) s)"
      "getLens s = Inr (int v, 4 - int v mod 4)"
proof -
  consider "length s mod 4 \<noteq> 0" | "length s mod 4 = 0" "61 \<notin> set s" | "length s mod 4 = 0" "61 \<in> set s" by blast
  then show ?thesis
  proof cases
    case 1
    then have "0 < int (length s) mod 4" by presburger
    with 1 that(1) show ?thesis by (simp add: getLens_def)
  next
    case 2
    show ?thesis by (rule that(2)[OF 2 getLens_full[OF 2(2,1)]])
  next
    case 3
    then have m: "\<not> 0 < int (length s) mod 4" by presburger
    let ?v = "length (takeWhile (\<lambda>c. c \<noteq> 61) s)"
    have "?v \<noteq> length s"
    proof
      assume "?v = length s"
      then have "takeWhile (\<lambda>c. c \<noteq> 61) s = s" using takeWhile_eq_take[of "\<lambda>c. c \<noteq> 61" s] by simp
      then show False using 3(2) takeWhile_eq_all_conv[of "\<lambda>c. c \<noteq> 61" s] by auto
    qed
    then have "getLens s = Inr (int ?v, 4 - int ?v mod 4)"
      using 3(2) m by (simp only: getLens_def index_of_def Let_def if_False if_True) simp
    then show ?thesis by (rule that(3)[OF 3 refl])
  qed
qed

section \<open>Properties\<close>

interpretation base64_codec: codec fromByteArray toByteArray
  by unfold_locales (simp add: fromByteArray_base64 roundtrip_lemma)

text \<open>
  C20. Round trip: what \<^verbatim>\<open>fromByteArray\<close> encodes, \<^verbatim>\<open>toByteArray\<close> decodes to the same bytes, and
  \<^verbatim>\<open>byteLength\<close> announces their number; so distinct byte arrays have distinct encodings.
\<close>

theorem base64_roundtrip:
  "toByteArray (fromByteArray bs) = Inr bs \<and>
   byteLength (fromByteArray bs) = Inr (int (length bs)) \<and>
   (fromByteArray bs = fromByteArray bs' \<longleftrightarrow> bs = bs')"
  using base64_codec.dec_enc base64_codec.enc_inj roundtrip_lemma[of bs]
  by (simp add: fromByteArray_base64)

text \<open>
  C39. The chunks of 16383 bytes in which \<^verbatim>\<open>fromByteArray\<close> works do not show: the result is the
  encoding of the bytes three at a time, four characters for every three bytes begun.
\<close>

theorem base64_chunks:
  "fromByteArray bs = base64 bs \<and> length (fromByteArray bs) = 4 * ((length bs + 2) div 3)"
  by (simp add: fromByteArray_base64 length_base64)

text \<open>
  C40. \<^verbatim>\<open>toByteArray\<close> on any string: an error of its own exactly when the length is no multiple of
  four, a \<^verbatim>\<open>RangeError\<close> of the array constructor exactly when a padding character comes first,
  and otherwise an array of exactly the length \<^verbatim>\<open>byteLength\<close> computes; characters outside the
  alphabet are never reported.
\<close>

theorem toByteArray_outcome:
  "case toByteArray s of
     Inr bs \<Rightarrow> length s mod 4 = 0 \<and> take 1 s \<noteq> [61] \<and> byteLength s = Inr (int (length bs))
   | Inl (Js_Error m) \<Rightarrow> length s mod 4 \<noteq> 0
   | Inl (Range_error m) \<Rightarrow> length s mod 4 = 0 \<and> take 1 s = [61] \<and> byteLength s = Inr (-1)"
proof (cases s rule: getLens_cases)
  case 1
  then show ?thesis by (simp add: toByteArray_def)
next
  case 2
  then have "take 1 s \<noteq> [61]" by (cases s) auto
  define n where "n = 3 * int (length s) div 4"
  have b: "byteLength s = Inr n" "0 \<le> n" using 2(3) by (simp_all add: byteLength_def n_def)
  obtain i cb arr where d: "decode_loop s (int (length s)) 0 0 (replicate (nat n) 0) = (i, cb, arr)"
    by (metis prod_cases3)
  have l: "length arr = nat n"
    using length_decode_loop[of s "int (length s)" 0 0 "replicate (nat n) 0"] d by simp
  have "toByteArray s = Inr arr"
    using 2(3) b(2) d by (simp add: toByteArray_def new_array_def n_def)
  then show ?thesis using 2(1) b l \<open>take 1 s \<noteq> [61]\<close> by simp
next
  case (3 v)
  have first: "take 1 s = [61] \<longleftrightarrow> v = 0" using 3(2,3) by (cases s) auto
  define n where "n = 3 * (int v + (4 - int v mod 4)) div 4 - (4 - int v mod 4)"
  define q r where "q = int v div 4" and "r = int v mod 4"
  have qr: "int v = 4 * q + r" "0 \<le> q" "0 \<le> r" by (simp_all add: q_def r_def)
  have "int v + (4 - r) = 4 * (q + 1)" using qr(1) by (simp add: distrib_left)
  then have "n = 3 * (4 * (q + 1)) div 4 - (4 - r)" unfolding n_def r_def[symmetric] by (simp only:)
  then have q: "n = 3 * q + r - 1" by simp
  have n: "v = 0 \<Longrightarrow> n = -1" using q by (simp add: q_def r_def)
  have n': "0 \<le> n" if "v \<noteq> 0" using that q qr by (cases "q = 0") auto
  have b: "byteLength s = Inr n" using 3(4) by (simp add: byteLength_def n_def)
  obtain i cb arr where d: "decode_loop s (int v - 4) 0 0 (replicate (nat n) 0) = (i, cb, arr)"
    by (metis prod_cases3)
  have l: "length arr = nat n" using length_decode_loop[of s "int v - 4" 0 0 "replicate (nat n) 0"] d by simp
  obtain p where p: "0 < p" "n = 3 * (int v + p) div 4 - p" "getLens s = Inr (int v, p)"
    using 3(4) n_def that[of "4 - int v mod 4"] by simp
  show ?thesis
  proof (cases "v = 0")
    case True
    then show ?thesis using 3(1,4) b first n by (simp add: toByteArray_def new_array_def)
  next
    case False
    have "new_array n = Inr (replicate (nat n) 0)" using n'[OF False] by (simp add: new_array_def)
    then have "\<exists>bs. toByteArray s = Inr bs \<and> length bs = nat n"
      using p(3) d l p(1) by (simp add: toByteArray_def p(2)[symmetric] Let_def store_def del: distrib_left_numeral)
    then show ?thesis using 3(1) b first False n' by auto
  qed
qed

end
