(* ===== verification/Sanitize_Url.thy ===== *)
theory Sanitize_Url
  imports Javascript Json
begin

text \<open>
  The URL sanitizer of the Swagger UI bundle (\<^verbatim>\<open>@braintree/sanitize-url\<close>, module 17967 of
  \<^verbatim>\<open>src/docs/swagger/swagger-ui-bundle.js\<close>, and the wrapper around it): every link that the
  documentation takes from an API description goes through it. Its regular expressions are
  written out as functions on code units; ignoring case concerns ASCII letters only.
\<close>

section \<open>Classes of characters\<close>

text \<open>\<^verbatim>\<open>/[\u0000-\u001F\u007F-\u009F\u2000-\u200D\uFEFF]/gim\<close>\<close>

definition is_control :: "nat \<Rightarrow> bool" where
  "is_control c \<longleftrightarrow> c \<le> 0x1F \<or> 0x7F \<le> c \<and> c \<le> 0x9F \<or> 0x2000 \<le> c \<and> c \<le> 0x200D \<or> c = 0xFEFF"

definition js_digit :: "nat \<Rightarrow> bool" where
  "js_digit c \<longleftrightarrow> 48 \<le> c \<and> c \<le> 57"

definition is_word :: "nat \<Rightarrow> bool" where
  "is_word c \<longleftrightarrow> js_digit c \<or> 65 \<le> c \<and> c \<le> 90 \<or> c = 95 \<or> 97 \<le> c \<and> c \<le> 122"

definition is_line_terminator :: "nat \<Rightarrow> bool" where
  "is_line_terminator c \<longleftrightarrow> c = 10 \<or> c = 13 \<or> c = 0x2028 \<or> c = 0x2029"

definition js_space :: "nat \<Rightarrow> bool" where
  "js_space c \<longleftrightarrow> 9 \<le> c \<and> c \<le> 13 \<or> c = 32 \<or> c = 0xA0 \<or> c = 0x1680 \<or> 0x2000 \<le> c \<and> c \<le> 0x200A \<or>
     c = 0x2028 \<or> c = 0x2029 \<or> c = 0x202F \<or> c = 0x205F \<or> c = 0x3000 \<or> c = 0xFEFF"

definition js_trim :: "js_string \<Rightarrow> js_string" where
  "js_trim s = rev (dropWhile js_space (rev (dropWhile js_space s)))"

definition lower :: "nat \<Rightarrow> nat" where
  "lower c = (if 65 \<le> c \<and> c \<le> 90 then c + 32 else c)"

definition starts_ci :: "string \<Rightarrow> js_string \<Rightarrow> bool" where
  "starts_ci w s \<longleftrightarrow> map lower (take (length w) s) = code_units w"

section \<open>Numeric character references\<close>

text \<open>
  \<^verbatim>\<open>String.fromCharCode\<close> converts the text to a number and the number to 16 bits. Of the texts
  made of word characters, decimal digits with or without an exponent and the prefixed
  hexadecimal, octal and binary literals denote finite numbers; the rest give 0.
\<close>

definition digit_of :: "nat \<Rightarrow> nat option" where
  "digit_of c =
     (if js_digit c then Some (c - 48)
      else if 97 \<le> lower c \<and> lower c \<le> 102 then Some (lower c - 87) else None)"

definition is_digit_of :: "nat \<Rightarrow> nat \<Rightarrow> bool" where
  "is_digit_of base c \<longleftrightarrow> (case digit_of c of Some d \<Rightarrow> d < base | None \<Rightarrow> False)"

definition digits_in :: "nat \<Rightarrow> js_string \<Rightarrow> nat option" where
  "digits_in base s =
     (if s \<noteq> [] \<and> list_all (is_digit_of base) s
      then Some (foldl (\<lambda>a c. base * a + the (digit_of c)) 0 s) else None)"

definition prefixed_number :: "js_string \<Rightarrow> nat option" where
  "prefixed_number s =
     (if length s < 2 \<or> s ! 0 \<noteq> 48 then None
      else if lower (s ! 1) = 120 then digits_in 16 (drop 2 s)
      else if lower (s ! 1) = 111 then digits_in 8 (drop 2 s)
      else if lower (s ! 1) = 98 then digits_in 2 (drop 2 s)
      else None)"

definition decimal_number :: "js_string \<Rightarrow> nat option" where
  "decimal_number s =
     (let m = takeWhile js_digit s; r = dropWhile js_digit s
      in case (digits_in 10 m, r) of
           (Some n, []) \<Rightarrow> Some n
         | (Some n, c # cs) \<Rightarrow>
             (if lower c = 101 then map_option (\<lambda>e. n * 10 ^ e) (digits_in 10 cs) else None)
         | (None, _) \<Rightarrow> None)"

definition from_char_code :: "js_string \<Rightarrow> nat" where
  "from_char_code s =
     (case (case decimal_number s of Some n \<Rightarrow> Some n | None \<Rightarrow> prefixed_number s) of
        None \<Rightarrow> 0
      | Some n \<Rightarrow>
          (case to_double False (of_nat n) of Finite _ r \<Rightarrow> nat (\<lfloor>r\<rfloor> mod 65536) | _ \<Rightarrow> 0))"

section \<open>The sanitizer\<close>

definition strip_controls :: "js_string \<Rightarrow> js_string" where
  "strip_controls s = filter (\<lambda>c. \<not> is_control c) s"

text \<open>\<^verbatim>\<open>/&#(\w+)(^\w|;)?/g\<close>: past the start of the text the first alternative never matches.\<close>

function decode_references :: "js_string \<Rightarrow> js_string" where
  "decode_references s =
     (case s of
        [] \<Rightarrow> []
      | c # cs \<Rightarrow>
          (if c = 38 \<and> cs \<noteq> [] \<and> hd cs = 35 \<and> takeWhile is_word (tl cs) \<noteq> []
           then let rest = dropWhile is_word (tl cs)
                in from_char_code (takeWhile is_word (tl cs)) #
                   decode_references (if rest \<noteq> [] \<and> hd rest = 59 then tl rest else rest)
           else c # decode_references cs))"
  by pat_completeness auto
termination
proof (relation "measure length", goal_cases)
  case (2 s c cs rest)
  have "length rest \<le> length (tl cs)"
    unfolding 2(3) by (rule length_dropWhile_le)
  then show ?case using 2 by (cases rest; cases cs) auto
qed auto

declare decode_references.simps [simp del]

text \<open>\<^verbatim>\<open>/&(newline|tab);/gi\<close>\<close>

fun strip_named :: "js_string \<Rightarrow> js_string" where
  "strip_named [] = []"
| "strip_named (c # cs) =
     (if starts_ci ''&newline;'' (c # cs) then strip_named (drop 8 cs)
      else if starts_ci ''&tab;'' (c # cs) then strip_named (drop 4 cs)
      else c # strip_named cs)"

text \<open>\<^verbatim>\<open>/^.+(:|&colon;)/gim\<close>: the longest match on a line; the first line that has one counts.\<close>

definition colon_at :: "js_string \<Rightarrow> js_string option" where
  "colon_at s =
     (if s \<noteq> [] \<and> hd s = 58 then Some [58]
      else if starts_ci ''&colon;'' s then Some (take 7 s) else None)"

definition line_match :: "js_string \<Rightarrow> js_string option" where
  "line_match l =
     (case filter (\<lambda>k. colon_at (drop k l) \<noteq> None) (rev [1..<length l]) of
        [] \<Rightarrow> None
      | k # _ \<Rightarrow> Some (take k l @ the (colon_at (drop k l))))"

fun js_lines :: "js_string \<Rightarrow> js_string list" where
  "js_lines [] = [[]]"
| "js_lines (c # cs) =
     (if is_line_terminator c then [] # js_lines cs
      else case js_lines cs of l # ls \<Rightarrow> (c # l) # ls | [] \<Rightarrow> [[c]])"

fun first_match :: "js_string list \<Rightarrow> js_string option" where
  "first_match [] = None"
| "first_match (l # ls) = (case line_match l of Some x \<Rightarrow> Some x | None \<Rightarrow> first_match ls)"

text \<open>\<^verbatim>\<open>/^([^\w]*)(javascript|data|vbscript)/im\<close>\<close>

definition script_scheme :: "js_string \<Rightarrow> bool" where
  "script_scheme x \<longleftrightarrow>
     (let t = dropWhile (\<lambda>c. \<not> is_word c) x
      in starts_ci ''javascript'' t \<or> starts_ci ''data'' t \<or> starts_ci ''vbscript'' t)"

definition blank_url :: js_string where "blank_url = code_units ''about:blank''"

definition sanitize_url :: "js_string \<Rightarrow> js_string" where
  "sanitize_url i =
     (if i = [] then blank_url
      else let s = js_trim (strip_controls (strip_named (decode_references (strip_controls i))))
           in if s = [] then blank_url
              else if hd s = 46 \<or> hd s = 47 then s
              else case first_match (js_lines s) of
                     None \<Rightarrow> s
                   | Some x \<Rightarrow> if script_scheme x then blank_url else s)"

text \<open>Swagger UI's own function: an empty text, or what is no text, stays an empty text.\<close>

definition sanitizeUrl :: "js_string option \<Rightarrow> js_string" where
  "sanitizeUrl i = (case i of Some s \<Rightarrow> if s = [] then [] else sanitize_url s | None \<Rightarrow> [])"

section \<open>The scheme a browser reads\<close>

text \<open>
  The scheme of a URL as the URL standard reads it: C0 controls and spaces before it are
  dropped, tabs and line feeds anywhere are ignored, and letter case does not matter.
\<close>

definition scheme_char :: "nat \<Rightarrow> bool" where
  "scheme_char c \<longleftrightarrow> is_word c \<and> c \<noteq> 95 \<or> c = 43 \<or> c = 45 \<or> c = 46"

definition url_scheme :: "js_string \<Rightarrow> js_string option" where
  "url_scheme s =
     (let t = filter (\<lambda>c. c \<noteq> 9 \<and> c \<noteq> 10 \<and> c \<noteq> 13) (dropWhile (\<lambda>c. c \<le> 32) s);
          sc = takeWhile scheme_char t; r = dropWhile scheme_char t
      in if sc \<noteq> [] \<and> 97 \<le> lower (hd sc) \<and> lower (hd sc) \<le> 122 \<and> r \<noteq> [] \<and> hd r = 58
         then Some (map lower sc) else None)"

definition script_schemes :: "js_string set" where
  "script_schemes = {code_units ''javascript'', code_units ''data'', code_units ''vbscript''}"

lemma trim_hd: "js_trim s = c # cs \<Longrightarrow> \<not> js_space c"
proof -
  assume t: "js_trim s = c # cs"
  define d where "d = dropWhile js_space s"
  have "d \<noteq> []" using t by (auto simp: js_trim_def d_def[symmetric])
  then have h: "\<not> js_space (hd d)" unfolding d_def by (rule hd_dropWhile)
  have "rev (dropWhile js_space (rev d)) = c # cs" using t by (simp add: js_trim_def d_def)
  then have "d = c # cs @ rev (takeWhile js_space (rev d))"
    by (metis append_Cons rev_append rev_rev_ident takeWhile_dropWhile_id)
  then show ?thesis using h by (metis list.sel(1))
qed

lemma trim_set: "set (js_trim s) \<subseteq> set s"
  by (auto simp: js_trim_def dest!: set_dropWhileD)

lemma code_units_simps: "code_units [] = []" "code_units (c # cs) = of_char c # code_units cs"
  by (simp_all add: code_units_def)

lemma starts_ci_append: "starts_ci w s \<Longrightarrow> starts_ci w (s @ t)"
proof -
  assume "starts_ci w s"
  then have m: "map lower (take (length w) s) = code_units w" by (simp add: starts_ci_def)
  then have "length (take (length w) s) = length w" by (metis length_map code_units_def)
  then have "length w \<le> length s" by simp
  then show ?thesis using m by (simp add: starts_ci_def)
qed

lemma js_lines_hd:
  "list_all (\<lambda>c. \<not> is_line_terminator c) p \<Longrightarrow> \<exists>l ls. js_lines (p @ s) = (p @ l) # ls"
proof (induction p)
  case Nil
  show ?case by (cases s) (auto split: list.split)
qed auto

lemma colon_at_prefix: "colon_at s = Some x \<Longrightarrow> \<exists>y. s = x @ y"
  by (cases s) (auto simp: colon_at_def split: if_splits intro: exI[of _ "drop 7 s"])

lemma line_match_colon:
  assumes "l = p @ 58 # r" and "p \<noteq> []"
  shows "\<exists>y. line_match l = Some (p @ y)"
proof -
  let ?ks = "filter (\<lambda>k. colon_at (drop k l) \<noteq> None) (rev [1..<length l])"
  have m: "length p \<in> set ?ks" using assms by (auto simp: colon_at_def Suc_le_eq)
  have "?ks \<noteq> []" using m by (metis empty_iff empty_set)
  then obtain k ks where k: "?ks = k # ks" by (meson neq_Nil_conv)
  have "sorted_wrt (\<ge>) ?ks" by (intro sorted_wrt_filter) (simp add: sorted_wrt_rev)
  then have "length p \<le> k" using m unfolding k by auto
  then have "take k l = p @ take (k - length p) (58 # r)" using assms(1) by simp
  then show ?thesis using k by (simp add: line_match_def)
qed

lemma line_match_prefix: "line_match l = Some x \<Longrightarrow> \<exists>y. l = x @ y"
proof -
  assume "line_match l = Some x"
  then obtain k ks where k: "filter (\<lambda>k. colon_at (drop k l) \<noteq> None) (rev [1..<length l]) = k # ks"
    and x: "x = take k l @ the (colon_at (drop k l))"
    by (auto simp: line_match_def split: list.splits)
  have "k \<in> set (filter (\<lambda>k. colon_at (drop k l) \<noteq> None) (rev [1..<length l]))" unfolding k by simp
  then obtain z where z: "colon_at (drop k l) = Some z" by auto
  from colon_at_prefix[OF z] obtain y where "drop k l = z @ y" by blast
  then show ?thesis using x z by (metis append.assoc append_take_drop_id option.sel)
qed

lemma scheme_script:
  assumes "map lower p \<in> script_schemes" shows "script_scheme (p @ y)"
proof -
  have ne: "p \<noteq> []" using assms by (auto simp: script_schemes_def code_units_def)
  have "is_word (hd p)" using assms ne
    by (cases p) (auto simp: script_schemes_def code_units_def is_word_def lower_def js_digit_def split: if_splits)
  then have d: "dropWhile (\<lambda>c. \<not> is_word c) (p @ y) = p @ y" using ne by (cases p) auto
  have "starts_ci ''javascript'' p \<or> starts_ci ''data'' p \<or> starts_ci ''vbscript'' p"
  proof -
    have t: "starts_ci w p" if "map lower p = code_units w" for w
    proof -
      have "length p = length w" using that by (metis length_map code_units_def)
      then show ?thesis using that by (simp add: starts_ci_def)
    qed
    then show ?thesis using assms by (auto simp: script_schemes_def)
  qed
  then show ?thesis using d starts_ci_append by (auto simp: script_scheme_def Let_def)
qed

lemma scheme_chars_same_line: "scheme_char c \<Longrightarrow> \<not> is_line_terminator c"
  by (auto simp: scheme_char_def is_word_def js_digit_def is_line_terminator_def)

lemma terminator_space: "is_line_terminator c \<Longrightarrow> js_space c"
  by (auto simp: is_line_terminator_def js_space_def)

lemma js_lines_one: "(\<And>c. c \<in> set s \<Longrightarrow> \<not> is_line_terminator c) \<Longrightarrow> js_lines s = [s]"
  by (induction s) auto

lemma sanitize_kept:
  assumes "list_all (\<lambda>c. \<not> is_control c \<and> \<not> js_space c \<and> c \<noteq> 38) (c # cs)"
    and "c = 46 \<or> c = 47 \<or> is_word c \<and> lower c \<notin> {100, 106, 118}"
  shows "sanitizeUrl (Some (c # cs)) = c # cs"
proof -
  let ?s = "c # cs"
  have dr: "decode_references s = s" if "\<forall>x \<in> set s. x \<noteq> 38" for s
    using that
  proof (induction s)
    case (Cons a s)
    then show ?case by (subst decode_references.simps) simp
  qed (simp add: decode_references.simps)
  have st: "\<not> starts_ci (CHR ''&'' # w) (x # xs)" if "x \<noteq> 38" for w x xs
    using that by (auto simp: starts_ci_def code_units_def lower_def split: if_splits)
  have nm: "strip_named s = s" if "\<forall>x \<in> set s. x \<noteq> 38" for s
    using that by (induction s) (simp_all add: st)
  have sc: "strip_controls ?s = ?s" using assms(1) by (simp add: strip_controls_def filter_id_conv list_all_iff)
  have dw: "dropWhile js_space x = x" if "\<forall>y \<in> set x. \<not> js_space y" for x
    using that by (cases x) auto
  have tr: "js_trim ?s = ?s"
    using assms(1) dw[of ?s] dw[of "rev ?s"] by (simp add: js_trim_def list_all_iff)
  have amp: "\<forall>x \<in> set ?s. x \<noteq> 38" using assms(1) by (auto simp: list_all_iff)
  have "\<not> script_scheme x" if "first_match (js_lines ?s) = Some x" "c \<noteq> 46" "c \<noteq> 47" for x
  proof -
    have w: "is_word c" "lower c \<notin> {100, 106, 118}" using assms(2) that by auto
    have "\<not> is_line_terminator y" if "y \<in> set ?s" for y
      using assms(1) that terminator_space by (auto simp: list_all_iff)
    then have "js_lines ?s = [?s]" by (intro js_lines_one)
    then have "line_match ?s = Some x" using that(1) by (auto split: option.splits)
    then obtain k ks where "filter (\<lambda>k. colon_at (drop k ?s) \<noteq> None) (rev [1..<length ?s]) = k # ks"
      and x: "x = take k ?s @ the (colon_at (drop k ?s))"
      by (auto simp: line_match_def split: list.splits)
    then have "k \<in> set (rev [1..<length ?s])" by (metis filter_eq_ConsD in_set_conv_decomp)
    then have "1 \<le> k" unfolding set_rev set_upt by (simp only: atLeastLessThan_iff)
    then obtain k' where "k = Suc k'" by (cases k) simp_all
    then obtain x' where x: "x = c # x'" using x by simp
    then show ?thesis
      using w by (auto simp: script_scheme_def Let_def starts_ci_def code_units_def)
  qed
  then show ?thesis
    using sc dr[OF amp] nm[OF amp] tr
    by (auto simp: sanitizeUrl_def sanitize_url_def Let_def simp del: js_lines.simps strip_named.simps
        split: option.split)
qed

text \<open>
  C21. No link that Swagger UI takes from an API description has a scheme that runs code: what
  \<^verbatim>\<open>sanitizeUrl\<close> returns never has the scheme \<^verbatim>\<open>javascript\<close>, \<^verbatim>\<open>data\<close> or \<^verbatim>\<open>vbscript\<close> as a
  browser reads it, whatever controls, character references, case or spaces the text hides it in.
\<close>

theorem sanitized_scheme: "url_scheme (sanitizeUrl i) = Some sc \<Longrightarrow> sc \<notin> script_schemes"
proof
  assume sch: "url_scheme (sanitizeUrl i) = Some sc" and bad: "sc \<in> script_schemes"
  let ?r = "sanitizeUrl i"
  have nb: "?r \<noteq> blank_url"
  proof
    assume "?r = blank_url"
    moreover have "url_scheme blank_url = Some (code_units ''about'')" by code_simp
    ultimately show False using sch bad by (auto simp: script_schemes_def code_units_def)
  qed
  have nn: "?r \<noteq> []" using sch by (auto simp: url_scheme_def)
  obtain u where u: "?r = js_trim (strip_controls u)"
    and cont: "hd ?r = 46 \<or> hd ?r = 47 \<or> (\<forall>x. first_match (js_lines ?r) = Some x \<longrightarrow> \<not> script_scheme x)"
    using nb nn
    by (cases i) (auto simp: sanitizeUrl_def sanitize_url_def Let_def split: if_splits option.splits)
  obtain c cs where r: "?r = c # cs" using nn by (cases ?r) auto
  have ctl: "\<not> is_control x" if "x \<in> set ?r" for x
    using that trim_set[of "strip_controls u"] u by (auto simp: strip_controls_def)
  have c: "\<not> c \<le> 32"
  proof -
    have "\<not> is_control c" using ctl[of c] r by simp
    moreover have "\<not> js_space c" by (rule trim_hd[of "strip_controls u" c cs]) (use u r in simp)
    ultimately show ?thesis by (auto simp: is_control_def js_space_def)
  qed
  have filt: "filter (\<lambda>c. c \<noteq> 9 \<and> c \<noteq> 10 \<and> c \<noteq> 13) ?r = ?r"
    using ctl[of 9] ctl[of 10] ctl[of 13] by (auto simp: filter_id_conv is_control_def)
  let ?p = "takeWhile scheme_char ?r" and ?q = "dropWhile scheme_char ?r"
  have s: "?p \<noteq> []" "97 \<le> lower (hd ?p)" "?q \<noteq> []" "hd ?q = 58" "sc = map lower ?p"
    using sch filt c r by (auto simp: url_scheme_def Let_def split: if_splits)
  obtain q where q: "?q = 58 # q" using s(3,4) by (cases ?q) auto
  have split: "?r = ?p @ 58 # q" using q takeWhile_dropWhile_id[of scheme_char ?r] by simp
  have hdr: "hd ?r \<noteq> 46 \<and> hd ?r \<noteq> 47"
    using s(1,2) r by (auto simp: lower_def split: if_splits)
  obtain l ls where l: "js_lines ?r = ((?p @ [58]) @ l) # ls"
  proof -
    have "list_all (\<lambda>c. \<not> is_line_terminator c) (?p @ [58])"
      using scheme_chars_same_line by (auto simp: list_all_iff is_line_terminator_def dest: set_takeWhileD)
    moreover have "?r = (?p @ [58]) @ q" using split by simp
    ultimately show thesis using js_lines_hd[of "?p @ [58]" q] that by metis
  qed
  obtain y where "line_match ((?p @ [58]) @ l) = Some (?p @ y)"
    using line_match_colon[of "(?p @ [58]) @ l" ?p l] s(1) by auto
  then have "first_match (js_lines ?r) = Some (?p @ y)" using l by simp
  then show False using cont hdr scheme_script[of ?p y] bad s(5) by auto
qed

lemma sanitized_scheme_witness: "code_units ''https'' \<notin> script_schemes"
proof -
  have "sanitizeUrl (Some (code_units ''https://a.b/c'')) = code_units ''https://a.b/c''"
    using sanitize_kept[of 104 "code_units ''ttps://a.b/c''"]
    by (simp add: code_units_def is_control_def js_space_def is_word_def js_digit_def lower_def)
  moreover have "url_scheme (code_units ''https://a.b/c'') = Some (code_units ''https'')" by code_simp
  ultimately have "url_scheme (sanitizeUrl (Some (code_units ''https://a.b/c''))) = Some (code_units ''https'')"
    by simp
  from sanitized_scheme[OF this] show ?thesis .
qed

text \<open>
  Ordinary links come through unchanged: a text without controls, spaces and ampersands that
  starts with a slash, a dot, or a word character that begins none of the script schemes.
\<close>

theorem sanitize_keeps:
  assumes "list_all (\<lambda>c. \<not> is_control c \<and> \<not> js_space c \<and> c \<noteq> 38) (c # cs)"
    and "c = 46 \<or> c = 47 \<or> is_word c \<and> lower c \<notin> {100, 106, 118}"
  shows "sanitizeUrl (Some (c # cs)) = c # cs"
  using assms by (rule sanitize_kept)

lemma sanitize_keeps_witness:
  "sanitizeUrl (Some (code_units ''/docs?a=b:c'')) = code_units ''/docs?a=b:c''"
  using sanitize_keeps[of 47 "code_units ''docs?a=b:c''"] by (simp add: code_units_def is_control_def js_space_def)

end
