(* ===== verification/Buffer_Floats.thy ===== *)
theory Buffer_Floats
  imports Javascript Value_Info
begin

text \<open>
  The floating-point readers of \<^verbatim>\<open>Buffer\<close> and the function \<^verbatim>\<open>read\<close> of the module
  \<^verbatim>\<open>ieee754\<close> behind them, as both Swagger UI bundles carry them (second line of
  \<^verbatim>\<open>src/docs/swagger/swagger-ui-bundle.js\<close> and \<^verbatim>\<open>swagger-ui-standalone-preset.js\<close>),
  and their agreement with the decoder of tensor elements of the server
  (\<^const>\<open>ieee_value\<close>, \<open>float_readers_agree\<close>). The argument that skips the check
  of the offset is left out.
\<close>

unbundle bit_operations_syntax

section \<open>Elements and numbers\<close>

text \<open>
  A number is \<^const>\<open>None\<close> where it is \<^verbatim>\<open>undefined\<close> or \<^verbatim>\<open>NaN\<close>; to the bitwise
  operators this is 0. The other numbers of the loops are integers below \<open>2 ^ 53\<close>.
\<close>

type_synonym js_number = "int option"

definition element :: "8 word list \<Rightarrow> int \<Rightarrow> js_number" where
  "element buf i = (if 0 \<le> i \<and> i < int (length buf) then Some (uint (buf ! nat i)) else None)"

definition js_bits :: "js_number \<Rightarrow> int" where
  "js_bits x = (case x of None \<Rightarrow> 0 | Some i \<Rightarrow> i)"

definition times_256_plus :: "js_number \<Rightarrow> js_number \<Rightarrow> js_number" where
  "times_256_plus a b = (case (a, b) of (Some a, Some b) \<Rightarrow> Some (256 * a + b) | _ \<Rightarrow> None)"

section \<open>ieee754.read\<close>

text \<open>The second and third \<^verbatim>\<open>for\<close> of the function, without their initializers:
  \<^verbatim>\<open>for(; nBits > 0; acc = 256 * acc + buffer[offset + i], i += d, nBits -= 8)\<close>\<close>

function read_loop :: "8 word list \<Rightarrow> int \<Rightarrow> int \<Rightarrow> js_number \<Rightarrow> int \<Rightarrow> int \<Rightarrow> js_number \<times> int \<times> int" where
  "read_loop buf offset d acc i nBits =
     (if nBits > 0
      then read_loop buf offset d (times_256_plus acc (element buf (offset + i))) (i + d) (nBits - 8)
      else (acc, i, nBits))"
  by pat_completeness auto
termination by (relation "measure (\<lambda>(_, _, _, _, _, nBits). nat nBits)") auto

declare read_loop.simps [simp del]

text \<open>
  The product of the last line is a double itself for the two formats it is used with, so it is
  written as the exact rational; a \<^verbatim>\<open>NaN\<close> fraction is false in \<^verbatim>\<open>m ? NaN : Infinity\<close>.
\<close>

definition ieee754_read :: "8 word list \<Rightarrow> int \<Rightarrow> bool \<Rightarrow> nat \<Rightarrow> nat \<Rightarrow> dbl" where
  "ieee754_read buf offset isLE mLen nBytes =
     (let eLen = 8 * int nBytes - int mLen - 1;
          eMax = push_bit (nat eLen) 1 - 1;
          eBias = drop_bit 1 eMax;
          i = (if isLE then int nBytes - 1 else 0);
          d = (if isLE then -1 else 1);
          s = js_bits (element buf (offset + i));
          e = s AND (push_bit 7 1 - 1);
          s = drop_bit 7 s;
          (e, i, nBits) = read_loop buf offset d (Some e) (i + d) (eLen - 7);
          m = js_bits e AND (push_bit (nat (- nBits)) 1 - 1);
          e = drop_bit (nat (- nBits)) (js_bits e);
          (m, i, nBits) = read_loop buf offset d (Some m) i (nBits + int mLen);
          scaled = (\<lambda>m e. case m of None \<Rightarrow> NaN
                          | Some m \<Rightarrow> Finite (s \<noteq> 0) (of_int m * pow2 (e - int mLen)))
      in if e = 0 then scaled m (1 - eBias)
         else if e = eMax then (if m = Some 0 \<or> m = None then Infinite (s \<noteq> 0) else NaN)
         else scaled (map_option (\<lambda>m. m + 2 ^ mLen) m) (e - eBias))"

section \<open>Buffer\<close>

definition checkOffset :: "int \<Rightarrow> int \<Rightarrow> int \<Rightarrow> js_error + unit" where
  "checkOffset offset ext len =
     (if offset < 0 then Inl (Range_error ''offset is not uint'')
      else if offset + ext > len then Inl (Range_error ''Trying to access beyond buffer length'')
      else Inr ())"

text \<open>\<^verbatim>\<open>offset >>>= 0\<close>, then the check, which only a second argument would skip.\<close>

definition read_checked :: "8 word list \<Rightarrow> int \<Rightarrow> bool \<Rightarrow> nat \<Rightarrow> nat \<Rightarrow> js_error + dbl" where
  "read_checked buf offset isLE mLen nBytes =
     (let offset = offset mod 2 ^ 32
      in andThen (checkOffset offset (int nBytes) (int (length buf)))
           (\<lambda>_. Inr (ieee754_read buf offset isLE mLen nBytes)))"

definition readFloatLE :: "8 word list \<Rightarrow> int \<Rightarrow> js_error + dbl" where
  "readFloatLE buf offset = read_checked buf offset True 23 4"

definition readFloatBE :: "8 word list \<Rightarrow> int \<Rightarrow> js_error + dbl" where
  "readFloatBE buf offset = read_checked buf offset False 23 4"

definition readDoubleLE :: "8 word list \<Rightarrow> int \<Rightarrow> js_error + dbl" where
  "readDoubleLE buf offset = read_checked buf offset True 52 8"

definition readDoubleBE :: "8 word list \<Rightarrow> int \<Rightarrow> js_error + dbl" where
  "readDoubleBE buf offset = read_checked buf offset False 52 8"

section \<open>The value read\<close>

text \<open>The number that bytes in reading order denote, most significant first.\<close>

definition be_value :: "int \<Rightarrow> int list \<Rightarrow> int" where
  "be_value acc bs = foldl (\<lambda>a b. 256 * a + b) acc bs"

lemma be_value_simps [simp]:
  "be_value acc [] = acc" "be_value acc (b # bs) = be_value (256 * acc + b) bs"
  "be_value acc (bs @ cs) = be_value (be_value acc bs) cs"
  by (simp_all add: be_value_def)

lemma be_value_acc: "be_value acc bs = acc * 256 ^ length bs + be_value 0 bs"
proof (induction bs arbitrary: acc)
  case (Cons b bs)
  from Cons.IH[of "256 * acc + b"] Cons.IH[of b] show ?case by (simp add: algebra_simps)
qed simp

lemma be_value_range: "\<forall>b \<in> set bs. 0 \<le> b \<and> b < 256 \<Longrightarrow> 0 \<le> be_value 0 bs \<and> be_value 0 bs < 256 ^ length bs"
proof (induction bs rule: rev_induct)
  case (snoc b bs)
  then show ?case by simp
qed simp

lemma le_uint_be_value: "le_uint bs = be_value 0 (map uint (rev bs))"
proof (induction bs)
  case (Cons b bs)
  then show ?case by (simp add: le_uint_def)
qed (simp add: le_uint_def)

lemma read_loop_bytes:
  assumes "\<forall>k < length bs. element buf (offset + i + d * int k) = Some (bs ! k)"
    and "0 \<le> r" and "r < 8" and "n = 8 * int (length bs) - r"
  shows "read_loop buf offset d (Some acc) i n = (Some (be_value acc bs), i + d * int (length bs), - r)"
  using assms(1,4)
proof (induction bs arbitrary: acc i n)
  case Nil
  then show ?case using assms(2) by (simp add: read_loop.simps)
next
  case (Cons b bs)
  have "n > 0" using Cons.prems(2) assms(3) by simp
  moreover have "element buf (offset + i) = Some b" using Cons.prems(1)[rule_format, of 0] by simp
  moreover have "\<forall>k < length bs. element buf (offset + (i + d) + d * int k) = Some (bs ! k)"
  proof (intro allI impI)
    fix k assume "k < length bs"
    with Cons.prems(1)[rule_format, of "Suc k"]
    show "element buf (offset + (i + d) + d * int k) = Some (bs ! k)" by (simp add: algebra_simps)
  qed
  moreover from this Cons.prems(2)
  have "read_loop buf offset d (Some (256 * acc + b)) (i + d) (n - 8) =
      (Some (be_value (256 * acc + b) bs), i + d + d * int (length bs), - r)"
    by (intro Cons.IH) simp_all
  ultimately show ?case
    by (simp add: read_loop.simps[of _ _ _ _ _ n] times_256_plus_def distrib_left)
qed

lemma and_low_bits: "(x :: int) AND (push_bit n 1 - 1) = x mod 2 ^ n"
  by (simp add: push_bit_eq_mult take_bit_eq_mod flip: mask_eq_exp_minus_1 take_bit_eq_mask)

lemma mod_div_pow2: "(x :: int) mod 2 ^ (a + b) div 2 ^ a = x div 2 ^ a mod 2 ^ b"
  by (simp add: take_bit_eq_mod drop_bit_eq_div drop_bit_take_bit flip: take_bit_eq_mod drop_bit_eq_div)


lemma be_value_div_mod:
  assumes "\<forall>x \<in> set bs. 0 \<le> x \<and> x < 256"
  shows "be_value acc bs div 2 ^ (8 * length bs + r) = acc div 2 ^ r"
    and "be_value acc bs mod 2 ^ (8 * length bs + r) = be_value (acc mod 2 ^ r) bs"
proof -
  let ?c = "256 ^ length bs :: int"
  have v: "be_value acc bs = be_value 0 bs + acc * ?c" for acc
    using be_value_acc[of acc bs] by simp
  have low: "be_value acc bs div ?c = acc" "be_value acc bs mod ?c = be_value 0 bs"
    using be_value_range[OF assms] unfolding v[of acc] by simp_all
  have p: "(2::int) ^ (8 * length bs + r) = ?c * 2 ^ r"
    by (simp add: power_add power_mult)
  show "be_value acc bs div 2 ^ (8 * length bs + r) = acc div 2 ^ r"
    unfolding p by (simp add: zdiv_zmult2_eq low)
  show "be_value acc bs mod 2 ^ (8 * length bs + r) = be_value (acc mod 2 ^ r) bs"
    unfolding p zmod_zmult2_eq[OF zero_le_power[OF zero_le_numeral]] low v[of "acc mod 2 ^ r"] by simp
qed

text \<open>
  The two loops split the bytes after \<open>b\<close> into those that complete the exponent and those of
  the fraction; \<open>r\<close> bits of the last exponent byte belong to the fraction.
\<close>

lemma ieee754_read_value:
  assumes bytes: "\<forall>k < Suc (length vs + length ws).
      element buf (offset + (if isLE then int (length vs + length ws) - int k else int k)) = Some ((b # vs @ ws) ! k)"
    and range: "\<forall>x \<in> set (b # vs @ ws). 0 \<le> x \<and> x < 256"
    and r: "r < 8" "mLen = 8 * length ws + r" "eLen = 8 * length vs + 7 - r" and e: "1 < eLen"
  shows "ieee754_read buf offset isLE mLen (Suc (length vs + length ws)) =
    ieee_value eLen mLen (be_value 0 (b # vs @ ws))"
proof -
  let ?n = "Suc (length vs + length ws)"
  let ?i = "if isLE then int ?n - 1 else 0" and ?d = "if isLE then - 1 else 1 :: int"
  let ?F = "be_value b vs" and ?W = "be_value 0 ws" and ?V = "be_value 0 (b # vs @ ws)"
  have eLen: "8 * int ?n - int mLen - 1 = int eLen" using r by simp
  have at0: "element buf (offset + ?i) = Some b"
    using bytes[rule_format, of 0] by (cases isLE) simp_all
  have loop1: "read_loop buf offset ?d (Some (b mod 128)) (?i + ?d) (int eLen - 7) =
      (Some (be_value (b mod 128) vs), ?i + ?d + ?d * int (length vs), - int r)"
  proof (rule read_loop_bytes)
    show "\<forall>k < length vs. element buf (offset + (?i + ?d) + ?d * int k) = Some (vs ! k)"
    proof (intro allI impI)
      fix k assume "k < length vs"
      with bytes[rule_format, of "Suc k"]
      show "element buf (offset + (?i + ?d) + ?d * int k) = Some (vs ! k)"
        by (cases isLE) (simp_all add: nth_append algebra_simps)
    qed
  qed (use r in simp_all)
  have loop2: "read_loop buf offset ?d (Some m) (?i + ?d + ?d * int (length vs)) (- int r + int mLen) =
      (Some (be_value m ws), ?i + ?d + ?d * int (length vs) + ?d * int (length ws), - 0)" for m
  proof (rule read_loop_bytes)
    show "\<forall>k < length ws. element buf (offset + (?i + ?d + ?d * int (length vs)) + ?d * int k) = Some (ws ! k)"
    proof (intro allI impI)
      fix k assume "k < length ws"
      with bytes[rule_format, of "Suc (length vs + k)"]
      show "element buf (offset + (?i + ?d + ?d * int (length vs)) + ?d * int k) = Some (ws ! k)"
        by (cases isLE) (simp_all add: nth_append algebra_simps)
    qed
  qed (use r in simp_all)
  have P: "8 * length vs + 7 = r + eLen" using r by simp
  have F: "?F mod 2 ^ (r + eLen) = be_value (b mod 128) vs" "?F div 2 ^ (r + eLen) = b div 128"
    using be_value_div_mod[of vs b 7] range unfolding P[symmetric] by simp_all
  have V: "?V div 2 ^ mLen = ?F div 2 ^ r" "?V mod 2 ^ mLen = be_value (?F mod 2 ^ r) ws"
    using be_value_div_mod[of ws ?F r] range unfolding r(2) by simp_all
  have "?V div 2 ^ (eLen + mLen) = ?V div 2 ^ mLen div 2 ^ eLen"
    by (subst add.commute, subst power_add, rule zdiv_zmult2_eq) simp
  also have "\<dots> = ?F div 2 ^ (r + eLen)" unfolding V(1) power_add by (rule zdiv_zmult2_eq[symmetric]) simp
  finally have sign: "?V div 2 ^ (eLen + mLen) = b div 128" using F(2) by simp
  have b: "0 \<le> b div 128" "b div 128 < 2" using range by auto
  then have "b div 128 = 0 \<or> b div 128 = 1" by linarith
  then have "(b div 128 \<noteq> 0) = (b div 128 mod 2 = 1)" by (elim disjE) simp_all
  then have s: "(drop_bit 7 b \<noteq> 0) = (?V div 2 ^ (eLen + mLen) mod 2 = 1)"
    unfolding sign by (simp add: drop_bit_eq_div)
  have m: "be_value (b mod 128) vs mod 2 ^ r = ?F mod 2 ^ r"
    unfolding F(1)[symmetric] by (simp add: mod_mod_cancel le_imp_power_dvd)
  have x: "be_value (b mod 128) vs div 2 ^ r = ?V div 2 ^ mLen mod 2 ^ eLen"
    unfolding F(1)[symmetric] V(1) by (rule mod_div_pow2)
  have bias: "drop_bit 1 (push_bit eLen 1 - 1 :: int) = 2 ^ (eLen - 1) - 1"
    using e by (cases eLen) (simp_all add: push_bit_eq_mult drop_bit_eq_div)
  have "1 < (2::int) ^ eLen" by (rule one_less_power) (use e in simp_all)
  then have one: "(2::int) ^ eLen \<noteq> 1" by simp
  have seven: "b mod 2 ^ 7 = b mod 128" by simp
  let ?f = "be_value (?F mod 2 ^ r) ws" and ?x = "?V div 2 ^ mLen mod 2 ^ eLen"
  have run: "ieee754_read buf offset isLE mLen ?n =
      (let sg = drop_bit 7 b \<noteq> 0 in
       if ?x = 0 then Finite sg (of_int ?f * pow2 (1 - (2 ^ (eLen - 1) - 1) - int mLen))
       else if ?x = 2 ^ eLen - 1 then (if ?f = 0 then Infinite sg else NaN)
       else Finite sg (of_int (?f + 2 ^ mLen) * pow2 (?x - (2 ^ (eLen - 1) - 1) - int mLen)))"
    unfolding ieee754_read_def
    by (simp only: Let_def eLen at0 js_bits_def option.case and_low_bits nat_int loop1[folded seven] prod.case
        minus_minus loop2 m[folded seven] x[folded seven] bias drop_bit_eq_div[of r])
      (use one in \<open>simp add: push_bit_eq_mult drop_bit_eq_div\<close>)
  show ?thesis
    unfolding run ieee_value_def Let_def s V(2) using one by (simp add: add.commute)
qed


section \<open>Agreement with the server\<close>

lemma element_slice:
  assumes "0 \<le> offset" and "offset + int n \<le> int (length buf)" and "k < n"
  shows "element buf (offset + int k) = Some (map uint (take n (drop (nat offset) buf)) ! k)"
proof -
  have "nat (offset + int k) = nat offset + k" using assms(1) by simp
  then show ?thesis using assms by (simp add: element_def)
qed

lemma read_slice:
  assumes "0 \<le> offset" and "offset + int n \<le> int (length buf)"
    and n: "n = Suc (lv + lw)" and r: "r < 8" "mLen = 8 * lw + r" "eLen = 8 * lv + 7 - r" "1 < eLen"
  shows "ieee754_read buf offset isLE mLen n =
    ieee_value eLen mLen (le_uint ((if isLE then id else rev) (take n (drop (nat offset) buf))))"
proof -
  let ?bs = "take n (drop (nat offset) buf)"
  let ?us = "map uint (if isLE then rev ?bs else ?bs)"
  have len: "length ?bs = n" using assms(1,2) by simp
  then have lus: "length ?us = Suc (lv + lw)" using n by (cases isLE) simp_all
  then obtain b us where us: "?us = b # us" by (cases ?us) simp_all
  then have "length us = lv + lw" using lus by (simp only: list.size)
  then have split: "us = take lv us @ drop lv us" "length (take lv us) = lv" "length (drop lv us) = lw" by simp_all
  have at: "element buf (offset + (if isLE then int (lv + lw) - int k else int k)) = Some (?us ! k)" if "k < n" for k
  proof (cases isLE)
    case True
    have "offset + (int (lv + lw) - int k) = offset + int (n - 1 - k)" using that n by simp
    then show ?thesis
      using element_slice[OF assms(1,2), of "n - 1 - k"] that len True n
      by (simp add: rev_map[symmetric] rev_nth)
  next
    case False
    then show ?thesis using element_slice[OF assms(1,2) that] by simp
  qed
  have bytes: "\<forall>k < Suc (length (take lv us) + length (drop lv us)).
      element buf (offset + (if isLE then int (length (take lv us) + length (drop lv us)) - int k else int k)) =
      Some ((b # take lv us @ drop lv us) ! k)"
    unfolding split(2,3) append_take_drop_id by (intro allI impI) (rule at[unfolded us], simp add: n)
  have "\<forall>x \<in> set ?us. 0 \<le> x \<and> x < 256" using uint_lt2p[where 'a=8] by auto
  then have range: "\<forall>x \<in> set (b # take lv us @ drop lv us). 0 \<le> x \<and> x < 256" using us by simp
  have "be_value 0 (b # take lv us @ drop lv us) = be_value 0 ?us" using us by simp
  also have "\<dots> = le_uint ((if isLE then id else rev) ?bs)" by (simp add: le_uint_be_value)
  finally show ?thesis
    using ieee754_read_value[OF bytes range r(1)] split r n by simp
qed

lemma read_checked_value:
  assumes "0 \<le> offset" and "offset < 2 ^ 32"
    and "n = Suc (lv + lw)" and "r < 8" "mLen = 8 * lw + r" "eLen = 8 * lv + 7 - r" "1 < eLen"
  shows "read_checked buf offset isLE mLen n =
    (if offset + int n \<le> int (length buf)
     then Inr (ieee_value eLen mLen (le_uint ((if isLE then id else rev) (take n (drop (nat offset) buf)))))
     else Inl (Range_error ''Trying to access beyond buffer length''))"
  using assms(1,2) read_slice[OF assms(1) _ assms(3-7), of buf isLE]
  by (simp add: read_checked_def checkOffset_def)

definition bounded :: "8 word list \<Rightarrow> int \<Rightarrow> nat \<Rightarrow> (8 word list \<Rightarrow> 'a) \<Rightarrow> js_error + 'a" where
  "bounded buf offset n read =
     (if offset + int n \<le> int (length buf) then Inr (read (take n (drop (nat offset) buf)))
      else Inl (Range_error ''Trying to access beyond buffer length''))"

text \<open>
  C22. The decoder of floating-point numbers in the documentation's JavaScript and the one of the
  server agree: at every offset inside the buffer a float or double, in either byte order, is the
  IEEE value of its bytes as the server reads a tensor element, and every other offset is a
  \<^verbatim>\<open>RangeError\<close>, never a read past the end.
\<close>

theorem float_readers_agree:
  assumes "0 \<le> offset" and "offset < 2 ^ 32"
  shows "readFloatLE buf offset = bounded buf offset 4 (\<lambda>bs. ieee_value 8 23 (le_uint bs)) \<and>
    readFloatBE buf offset = bounded buf offset 4 (\<lambda>bs. ieee_value 8 23 (le_uint (rev bs))) \<and>
    readDoubleLE buf offset = bounded buf offset 8 (\<lambda>bs. ieee_value 11 52 (le_uint bs)) \<and>
    readDoubleBE buf offset = bounded buf offset 8 (\<lambda>bs. ieee_value 11 52 (le_uint (rev bs)))"
proof -
  note single = read_checked_value[OF assms(1,2), of 4 1 2 7 23 8 buf]
  note double = read_checked_value[OF assms(1,2), of 8 1 6 4 52 11 buf]
  show ?thesis
    unfolding readFloatLE_def readFloatBE_def readDoubleLE_def readDoubleBE_def bounded_def
    using single[of True] single[of False] double[of True] double[of False] by simp
qed

theorem float_readers_agree_witness:
  "readFloatLE [0, 0, 0, 0xC0, 0x3F] 1 = Inr (ieee_value 8 23 0x3FC00000) \<and>
   readDoubleBE [0, 0, 0, 0xC0, 0x3F] 1 = Inl (Range_error ''Trying to access beyond buffer length'')"
  using float_readers_agree[of 1 "[0, 0, 0, 0xC0, 0x3F]"] by (simp add: bounded_def le_uint_def)

end
