(* ===== verification/Spec2Isabelle.thy ===== *)
theory Spec2Isabelle
  imports Answers Transports Standalone Thread_Pool Base64 Sanitize_Url Buffer_Floats
begin

text \<open>
  A model of onnxruntime-server, a server that loads ONNX models and runs inference requests on
  them over TCP, HTTP and HTTPS, and the properties that make its parts correct. The
  repository is under \<^verbatim>\<open>src/\<close>.

  The program. \<^verbatim>\<open>standalone\<close> reads the configuration and loads the first models. A transport
  turns what a client sends into a task; a task acts on the session manager, the registry of
  loaded models; executing a model builds input tensors from JSON, runs the model on the thread
  pool and turns the output tensors into JSON. Models are run by ONNX Runtime. Swagger UI, in the
  browser, shows the interface.

  The theories, in the order of the calls, lowest first.

  \<^item> \<^verbatim>\<open>Prelude\<close>: results of fallible code as sums, the ordered map behind \<^verbatim>\<open>std::map\<close> with
    the interface \<^verbatim>\<open>ordered_map\<close>, and the interface \<^verbatim>\<open>codec\<close> of encodings.
  \<^item> \<^verbatim>\<open>Transition_System\<close>: systems of events, with the arguments by invariant (\<^verbatim>\<open>invariant\<close>)
    and by a weight that runs out (\<^verbatim>\<open>draining\<close>).
  \<^item> \<^verbatim>\<open>Exceptions\<close> (\<^verbatim>\<open>src/src/utils/exceptions.hpp\<close>): errors as values of one type. An assertion that
    fails and undefined behaviour are errors of their own, which no handler catches.
  \<^item> \<^verbatim>\<open>Json\<close>, \<^verbatim>\<open>Json_Lexer\<close>, \<^verbatim>\<open>Json_Parser\<close>, \<^verbatim>\<open>Json_Dump\<close> (\<^verbatim>\<open>src/src/utils/json.hpp\<close>, the copy of the
    JSON library in the repository, and \<^verbatim>\<open>parse_request_json\<close>): values, scanner, parser with its
    callback, serializer. \<^verbatim>\<open>Json_Roundtrip\<close> and \<^verbatim>\<open>Json_Values_Roundtrip\<close> follow the parser over
    what the serializer writes. \<^verbatim>\<open>Doubles\<close> says which numbers are doubles and what rounds to them.
  \<^item> \<^verbatim>\<open>Grisu\<close> (\<^verbatim>\<open>dtoa_impl\<close> and \<^verbatim>\<open>to_chars\<close> of the same file): the decimal text of a double.
    \<^verbatim>\<open>Grisu_Arith\<close> (products, boundaries), \<^verbatim>\<open>Grisu_Powers\<close> (the table of powers of ten), \<^verbatim>\<open>Grisu_Digits\<close>
    (digit generation) and \<^verbatim>\<open>Grisu_Correct\<close> show that its digits round to the double; \<^verbatim>\<open>Float_Text\<close>
    and \<^verbatim>\<open>Float_Roundtrip\<close> that the lexer reads the double back, and so whole documents.
  \<^item> \<^verbatim>\<open>Session_Key\<close>, \<^verbatim>\<open>Session_Key_Option\<close> (\<^verbatim>\<open>src/src/onnx/session_key*.cpp\<close>): keys of models, and the
    list of models to prepare.
  \<^item> \<^verbatim>\<open>Value_Info\<close>, \<^verbatim>\<open>Input_Value\<close> (\<^verbatim>\<open>src/src/onnx/value_info.cpp\<close>, \<^verbatim>\<open>src/src/onnx/execution/\<close>): tensors
    from and to JSON, for every element type.
  \<^item> \<^verbatim>\<open>Session\<close>, \<^verbatim>\<open>Context\<close>, \<^verbatim>\<open>Session_Manager\<close>, \<^verbatim>\<open>Task\<close> (\<^verbatim>\<open>src/src/onnx/\<close>, \<^verbatim>\<open>src/src/task/\<close>): options and
    state of a loaded model, one inference, the registry, and the five requests on it.
    \<^verbatim>\<open>Session_Correct\<close> holds what a session reports of its options and shapes, \<^verbatim>\<open>Answers\<close>
    that every answer is a well-formed value.
  \<^item> \<^verbatim>\<open>Thread_Pool\<close> (\<^verbatim>\<open>src/src/thread_pool.hpp\<close>): workers, queue and destructor as events of threads.
  \<^item> \<^verbatim>\<open>Protocol\<close>, \<^verbatim>\<open>Tcp\<close> (\<^verbatim>\<open>src/src/transport/tcp/\<close>): the header on the wire, and a connection from the
    first read to the removal of its last upload. \<^verbatim>\<open>Tcp_Correct\<close> holds what it guarantees.
  \<^item> \<^verbatim>\<open>Http\<close> (\<^verbatim>\<open>src/src/transport/http/\<close>): routes, responses and the loop of a connection. \<^verbatim>\<open>Transports\<close>
    holds what it guarantees, and that the two transports agree.
  \<^item> \<^verbatim>\<open>Standalone\<close> (\<^verbatim>\<open>src/src/standalone/\<close>): configuration and start.
  \<^item> \<^verbatim>\<open>Javascript\<close>, \<^verbatim>\<open>Base64\<close>, \<^verbatim>\<open>Sanitize_Url\<close>, \<^verbatim>\<open>Buffer_Floats\<close> (\<^verbatim>\<open>src/docs/swagger/*.js\<close>): of the
    bundles of Swagger UI, the codec that both contain, the sanitizer of links, and the readers of
    floating-point numbers, which agree with the server's.

  State and operations. A class is a record, or a datatype where it has no state to change, and an
  operation a function from the state before to the result and the state after. The registry is
  the list of entries of the \<^verbatim>\<open>std::map\<close> in key order; its mutex makes each operation one step.
  Listing does not take the mutex: it is one step in the model, and the data race it is in the code
  when models come and go meanwhile is not modelled.
  The thread pool has finer steps, since what can come between a worker's check and its sleep
  matters. A connection is a record with the segments that are still to arrive, the room of the
  writes to come, what was sent, the buffers and the files. Integers of the tensors and of the
  protocol are words of their width; elsewhere they are integers with their bounds stated.

  What the lemmas show. The parser returns on every text with a bounded value or one of two kinds
  of error, the depth limit changes nothing else, and what the serializer writes is read back, every double exactly. A
  model list of the grammar parses to its entries, any other text to an error or to what the code
  does with junk. Tensors come out in the shape they have, and inputs reach the model in its own
  order. The registry refines a partial map with one effect per task; it stays well-formed, tasks
  on different keys commute, failed ones leave it alone. What a session reports reproduces it, but
  for shapes, which it does not report, and CUDA options, of which it reports what the runtime lists.
  Every answer is well-formed and readable, with NaN and infinities as null. Accepted tasks of the pool complete under
  every schedule and in order; its destructor returns, or, if it comes at the wrong moment, does
  not. A TCP request whose header comes in one piece is answered by its task however the rest is cut
  into segments, as far as the socket takes the answer in one write; connections end; uploads do
  not outlive them, unless the file system keeps them or the process is aborted. HTTP gives the same
  answers, with the status that belongs to each. The program starts with a checked
  configuration and exactly the models of its list.

  Fuel and termination. No definition has fuel: loops are structural recursions, or functions with
  a measure, such as the bytes that are left, which their termination proofs show to decrease. The
  one loop without a bound of its own, which generates the digits of a fraction, is a partial
  function; for every double it ends, after seventeen digits at the latest (\<^const>\<open>fraction_digits\<close>).

  Parameters. ONNX Runtime and its conversions of half floats, the random digits of upload names, the file system's answers, the clock, Boost's parser
  of the command line, its path joins and number conversions, and what Beast reads are arguments
  of the definitions that use them. No law is assumed of them beyond their types, with two
  exceptions that are named hypotheses: that half floats convert to doubles
  (\<^const>\<open>halves_are_doubles\<close>), and that ONNX Runtime reads configuration entries back
  (\<^const>\<open>reads_back\<close>).

  Not modelled. Logging and access logs; the listening sockets, the TLS context and the threads
  that carry connections, which are calls of the asio library; the wait for a signal in
  \<^verbatim>\<open>main\<close>; ownership of memory; the memory order of concurrent executions of one session, whose
  counters are updated without a lock; the parts of the JSON library the server does not use
  (binary formats, pointers, patches, pretty printing, comments); the static documents; the tests.
  Of the two bundles of Swagger UI, each one line of a few hundred third-party modules, only the
  named functions are modelled: the rest draws the user interface.
\<close>

lemma create_is_create: "create_session_task ndebug j d = Inr t \<Longrightarrow> \<exists>n v option. t = Create_session n v option d"
  by (auto simp: create_session_task_def andThen_eq_Inr)

lemma route_execute:
  assumes "route sw ndebug ver req = Run (Inr (Execute_session m v data))"
  shows "parse_request_json (req_body req) = Inr data"
proof (cases "match_session (target req)")
  case None
  have "Inr (Execute_session m v data) = Inr List_session \<or>
      Inr (Execute_session m v data) = andThen (parse_request_json (req_body req)) (\<lambda>j. create_session_task ndebug j None)"
    using assms None by (simp add: route_def split: if_splits)
  then show ?thesis by (auto simp: andThen_eq_Inr dest!: create_is_create sym[of "Inr _"])
next
  case (Some mv)
  show ?thesis
  proof (cases "req_verb req")
    case (Other_verb w)
    have "Inr (Execute_session m v data) = Inr List_session \<or>
        Inr (Execute_session m v data) = andThen (parse_request_json (req_body req)) (\<lambda>j. create_session_task ndebug j None)"
      using assms Some Other_verb by (cases mv) (simp add: route_def split: if_splits)
    then show ?thesis by (auto simp: andThen_eq_Inr dest!: create_is_create sym[of "Inr _"])
  qed (use assms Some in \<open>cases mv; simp add: route_def andThen_eq_Inr\<close>)+
qed

lemma execute_data: "execute_session_task ndebug j = Inr (Execute_session m v data) \<Longrightarrow> member j ''data'' = Some data"
  unfolding execute_session_task_def andThen_eq_Inr
  by (cases "member j ''data''"; (cases "the (member j ''data'')")?) auto

lemma create_task_execute:
  assumes "create_task ndebug t j post = Inr (Execute_session m v data)"
  shows "t = EXECUTE_SESSION \<and> member j ''data'' = Some data"
proof (cases "t = EXECUTE_SESSION")
  case True
  then show ?thesis using assms execute_data by (simp add: create_task_def)
next
  case False
  have "get_session_task ndebug j \<noteq> Inr (Execute_session m v data)"
    "create_session_task ndebug j post \<noteq> Inr (Execute_session m v data)"
    "destroy_session_task ndebug j \<noteq> Inr (Execute_session m v data)"
    by (auto simp: get_session_task_def create_session_task_def destroy_session_task_def andThen_eq_Inr)
  then show ?thesis using assms False by (simp add: create_task_def split: if_splits)
qed

lemma request_execute_depth:
  assumes "do_read cfg c = Inr (Some h, c')" and "request_task ndebug h c' = Inr (Execute_session m v data)"
  shows "json_depth data \<le> MAX_JSON_NESTING_DEPTH"
proof -
  have task: "sint (htype h) \<noteq> CREATE_SESSION \<and> member j ''data'' = Some data"
    if "create_task ndebug (sint (htype h)) j post = Inr (Execute_session m v data)" for j post
    using create_task_execute[OF that] by (simp add: EXECUTE_SESSION_def CREATE_SESSION_def)
  show ?thesis
  proof (cases "uploaded_model_path c' = []")
    case True
    then obtain j post where "(if 0 < sint (json_length h) then parse_request_json (take (nat (sint (json_length h))) (buffer c'))
          else Inr (JObject [])) = Inr j" "create_task ndebug (sint (htype h)) j post = Inr (Execute_session m v data)"
      using assms(2) by (auto simp: request_task_def Let_def andThen_eq_Inr)
    then have "json_depth j \<le> MAX_JSON_NESTING_DEPTH" "member j ''data'' = Some data"
      using task by (auto split: if_splits dest: parse_request_depth simp: MAX_JSON_NESTING_DEPTH_def)
    then show ?thesis using member_depth[of j "''data''" data] by simp
  next
    case False
    then have "sint (htype h) = CREATE_SESSION" using do_read_exact[OF assms(1)] by (auto simp: is_create_def)
    then show ?thesis using assms(2) False task by (auto simp: request_task_def Let_def andThen_eq_Inr)
  qed
qed

text \<open>
  C19. The recursive walks over a tensor are shallow. Whatever data set an execution gets, over HTTP as
  the body or, inside a string, as the JSON of that string, over TCP as a member of the request,
  every member of it that reaches \<^verbatim>\<open>flat_json_values\<close> and \<^verbatim>\<open>calcShape\<close> is nested at most 63 deep.
\<close>

theorem walks_are_bounded:
  assumes "route sw ndebug ver req = Run (Inr (Execute_session m v data)) \<or>
      do_read cfg c = Inr (Some h, c') \<and> request_task ndebug h c' = Inr (Execute_session m v data)"
    and "dataset_of data = Inr dataset" and "member dataset n = Some x"
  shows "json_depth x < MAX_JSON_NESTING_DEPTH"
proof -
  have "json_depth data \<le> MAX_JSON_NESTING_DEPTH"
    using assms(1) route_execute parse_request_depth request_execute_depth by blast
  then have "json_depth dataset \<le> MAX_JSON_NESTING_DEPTH"
    using assms(2) by (auto simp: dataset_of_def split: json.splits dest: parse_request_depth)
  then show ?thesis using member_depth[OF assms(3)] by simp
qed

theorem walks_are_bounded_witness:
  "json_depth (JArray [JUInt 1]) < MAX_JSON_NESTING_DEPTH"
proof -
  let ?j = "JObject [(''x'', JArray [JUInt 1])]"
  let ?t = "''{\"x\":[1]}''"
  have t: "dump (\<lambda>_. []) ?j = Inr ?t" and u: "json_wf (JString ?t)"
    and "case dump (\<lambda>_. []) (JString ?t) of Inl _ \<Rightarrow> False | Inr _ \<Rightarrow> True" by code_simp+
  then obtain s where s: "dump (\<lambda>_. []) (JString ?t) = Inr s" by (auto split: sum.splits)
  have "no_floats ?j" "json_wf ?j" "json_depth ?j \<le> MAX_JSON_NESTING_DEPTH" by code_simp+
  then have inner: "dataset_of (JString ?t) = Inr ?j" using parse_request_dump[OF _ _ t] by (simp add: dataset_of_def)
  have "parse_request_json s = Inr (JString ?t)"
    using parse_request_dump[OF _ _ s] u by (simp add: MAX_JSON_NESTING_DEPTH_def)
  then have "route \<lparr>swagger_url_path = [], openapi_yaml = [], index_html = []\<rparr> True ''1''
      \<lparr>req_verb = Post, target = ''/api/sessions/m/1'', req_body = s, http_version = 11, keep_alive = True\<rparr> =
      Run (Inr (Execute_session ''m'' ''1'' (JString ?t)))"
    by (simp add: route_def match_session_def)
  then show ?thesis
    by (intro walks_are_bounded[OF disjI1 inner, where n = "''x''"]) (simp_all add: member_def)
qed

end
